(* ===== verification/Prelude.thy ===== *)
theory Prelude
  imports Main "HOL-Library.Word" "HOL-Library.AList" "HOL-Library.Multiset"
begin

text \<open>
  Shared vocabulary of the development: the fixed-width integers and byte slices of the Go
  sources, the parts of the Go standard library that every component uses
  (\<open>encoding/binary\<close>'s big-endian codecs, \<open>io.ReadFull\<close>, the conversion between strings
  and byte slices), and the list facts the component proofs share.

  A byte slice is a list of 8-bit words. A Go map is a list of key/value pairs with distinct
  keys: the position of a pair stands for Go's unspecified iteration order, so a theorem about
  all such lists is a theorem about every iteration order.
\<close>

named_theorems wire "facts that evaluate encoders and decoders"
named_theorems inv_intro "invariant preservation facts"

type_synonym byte = "8 word"
type_synonym bytes = "8 word list"
type_synonym uint16 = "16 word"
type_synonym uint32 = "32 word"
type_synonym uint64 = "64 word"
type_synonym int64 = "64 word"

section \<open>Big-endian integers\<close>

text \<open>\<open>be_put n x\<close> writes the low \<open>n\<close> bytes of \<open>x\<close>, most significant first;
  \<open>be_get\<close> reads such a run back.\<close>

primrec be_put :: "nat \<Rightarrow> nat \<Rightarrow> bytes" where
  "be_put 0 x = []"
| "be_put (Suc n) x = be_put n (x div 256) @ [of_nat x]"

definition be_get :: "bytes \<Rightarrow> nat" where
  "be_get bs = foldl (\<lambda>acc b. acc * 256 + unat b) 0 bs"

text \<open>\<open>binary.BigEndian.PutUint16/32/64\<close> and \<open>AppendUint16/32/64\<close>: the bytes written.\<close>

definition PutUint16 :: "uint16 \<Rightarrow> bytes" where
  "PutUint16 v = be_put 2 (unat v)"

definition PutUint32 :: "uint32 \<Rightarrow> bytes" where
  "PutUint32 v = be_put 4 (unat v)"

definition PutUint64 :: "uint64 \<Rightarrow> bytes" where
  "PutUint64 v = be_put 8 (unat v)"

text \<open>\<open>binary.BigEndian.Uint16/32/64\<close>: they read the first bytes of the slice and panic on a
  slice that is too short, which is \<open>None\<close> here.\<close>

definition Uint16 :: "bytes \<Rightarrow> uint16 option" where
  "Uint16 b = (if length b < 2 then None else Some (of_nat (be_get (take 2 b))))"

definition Uint32 :: "bytes \<Rightarrow> uint32 option" where
  "Uint32 b = (if length b < 4 then None else Some (of_nat (be_get (take 4 b))))"

definition Uint64 :: "bytes \<Rightarrow> uint64 option" where
  "Uint64 b = (if length b < 8 then None else Some (of_nat (be_get (take 8 b))))"

text \<open>\<open>io.ReadFull(r, buf)\<close> on a stream whose remaining bytes are \<open>s\<close>: the bytes read and
  the bytes left, or \<open>None\<close> when the stream ends or fails before the buffer is full.\<close>

definition ReadFull :: "nat \<Rightarrow> bytes \<Rightarrow> (bytes \<times> bytes) option" where
  "ReadFull n s = (if length s < n then None else Some (take n s, drop n s))"

text \<open>\<open>[]byte(s)\<close> and \<open>string(b)\<close>.\<close>

definition str_bytes :: "string \<Rightarrow> bytes" where
  "str_bytes s = map of_char s"

definition bytes_str :: "bytes \<Rightarrow> string" where
  "bytes_str b = map (\<lambda>x. char_of (unat x)) b"

section \<open>Facts\<close>

lemma length_be_put [simp, wire]: "length (be_put n x) = n"
  by (induction n arbitrary: x) simp_all

lemma unat_of_nat_byte: "unat (of_nat x :: byte) = x mod 256"
  by (simp add: unat_of_nat)

lemma be_get_snoc: "be_get (bs @ [b]) = be_get bs * 256 + unat b"
  by (simp add: be_get_def)

lemma be_get_put: "be_get (be_put n x) = x mod 256 ^ n"
proof (induction n arbitrary: x)
  case 0
  then show ?case by (simp add: be_get_def)
next
  case (Suc n)
  have "be_get (be_put (Suc n) x) = (x div 256) mod 256 ^ n * 256 + x mod 256"
    by (simp add: be_get_snoc Suc.IH unat_of_nat_byte)
  also have "\<dots> = x mod (256 * 256 ^ n)"
    by (simp add: mod_mult2_eq)
  finally show ?case by simp
qed

lemma length_Put [simp, wire]:
  "length (PutUint16 a) = 2" "length (PutUint32 b) = 4" "length (PutUint64 c) = 8"
  by (simp_all add: PutUint16_def PutUint32_def PutUint64_def)

lemma unat_lt_16: "unat (x :: uint16) < 65536"
  using unsigned_less [of x, where ?'a = nat] by simp

lemma unat_lt_32: "unat (x :: uint32) < 4294967296"
  using unsigned_less [of x, where ?'a = nat] by simp

lemma unat_lt_64: "unat (x :: uint64) < 18446744073709551616"
  using unsigned_less [of x, where ?'a = nat] by simp

lemma Uint16_Put [simp, wire]: "Uint16 (PutUint16 v @ r) = Some v"
  using unat_lt_16 [of v] by (simp add: Uint16_def PutUint16_def be_get_put)

lemma Uint32_Put [simp, wire]: "Uint32 (PutUint32 v @ r) = Some v"
  using unat_lt_32 [of v] by (simp add: Uint32_def PutUint32_def be_get_put)

lemma Uint64_Put [simp, wire]: "Uint64 (PutUint64 v @ r) = Some v"
  using unat_lt_64 [of v] by (simp add: Uint64_def PutUint64_def be_get_put)

lemmas Uint_Put_Nil [simp, wire] =
  Uint16_Put [where r = "[]", simplified] Uint32_Put [where r = "[]", simplified]
  Uint64_Put [where r = "[]", simplified]

lemma be_get_bound: "be_get bs < 256 ^ length bs"
proof (induction bs rule: rev_induct)
  case Nil
  then show ?case by (simp add: be_get_def)
next
  case (snoc b bs)
  have "unat b < 256" using unsigned_less [of b, where ?'a = nat] by simp
  then show ?case using snoc by (simp add: be_get_snoc)
qed

lemma be_put_get: "length bs = n \<Longrightarrow> be_put n (be_get bs) = bs"
proof (induction n arbitrary: bs)
  case 0
  then show ?case by simp
next
  case (Suc n)
  then obtain cs c where bs: "bs = cs @ [c]" "length cs = n"
    by (metis append_butlast_last_id length_butlast diff_Suc_1 list.size(3) nat.distinct(1))
  have c: "unat c < 256" using unsigned_less [of c, where ?'a = nat] by simp
  have "unat (of_nat (be_get bs) :: byte) = unat c"
    unfolding unat_of_nat_byte bs(1) be_get_snoc using c by simp
  then have last: "(of_nat (be_get bs) :: byte) = c" by (simp only: word_unat_eq_iff)
  have "be_get bs div 256 = be_get cs" unfolding bs(1) be_get_snoc using c by simp
  then show ?case using Suc.IH [OF bs(2)] last bs(1) by simp
qed

lemma Uint16_Some: "Uint16 b = Some v \<longleftrightarrow> (\<exists>r. b = PutUint16 v @ r)"
proof
  assume "Uint16 b = Some v"
  then have l: "length (take 2 b) = 2" and v: "v = of_nat (be_get (take 2 b))"
    by (auto simp: Uint16_def split: if_splits)
  have "unat v = be_get (take 2 b)"
    using be_get_bound [of "take 2 b"] l v by (simp add: unat_of_nat)
  then have "PutUint16 v = take 2 b" using be_put_get [OF l] by (simp add: PutUint16_def)
  then show "\<exists>r. b = PutUint16 v @ r" by (metis append_take_drop_id)
qed auto

lemma Uint32_Some: "Uint32 b = Some v \<longleftrightarrow> (\<exists>r. b = PutUint32 v @ r)"
proof
  assume "Uint32 b = Some v"
  then have l: "length (take 4 b) = 4" and v: "v = of_nat (be_get (take 4 b))"
    by (auto simp: Uint32_def split: if_splits)
  have "unat v = be_get (take 4 b)"
    using be_get_bound [of "take 4 b"] l v by (simp add: unat_of_nat)
  then have "PutUint32 v = take 4 b" using be_put_get [OF l] by (simp add: PutUint32_def)
  then show "\<exists>r. b = PutUint32 v @ r" by (metis append_take_drop_id)
qed auto

lemma Uint64_Some: "Uint64 b = Some v \<longleftrightarrow> (\<exists>r. b = PutUint64 v @ r)"
proof
  assume "Uint64 b = Some v"
  then have l: "length (take 8 b) = 8" and v: "v = of_nat (be_get (take 8 b))"
    by (auto simp: Uint64_def split: if_splits)
  have "unat v = be_get (take 8 b)"
    using be_get_bound [of "take 8 b"] l v by (simp add: unat_of_nat)
  then have "PutUint64 v = take 8 b" using be_put_get [OF l] by (simp add: PutUint64_def)
  then show "\<exists>r. b = PutUint64 v @ r" by (metis append_take_drop_id)
qed auto

lemma Uint_None:
  "Uint16 b = None \<longleftrightarrow> length b < 2" "Uint32 b = None \<longleftrightarrow> length b < 4" "Uint64 b = None \<longleftrightarrow> length b < 8"
  by (simp_all add: Uint16_def Uint32_def Uint64_def)

lemma ReadFull_append [simp, wire]: "ReadFull (length a) (a @ r) = Some (a, r)"
  by (simp add: ReadFull_def)

lemma ReadFull_append': "length a = n \<Longrightarrow> ReadFull n (a @ r) = Some (a, r)"
  by (auto simp: ReadFull_def)

lemma ReadFull_Some:
  "ReadFull n s = Some (a, r) \<longleftrightarrow> length a = n \<and> s = a @ r"
  by (auto simp: ReadFull_def min_def)

lemma length_str_bytes [simp]: "length (str_bytes s) = length s"
  by (simp add: str_bytes_def)

lemma bytes_str_bytes [simp]: "bytes_str (str_bytes s) = s"
proof -
  have "char_of (unat (of_char c :: byte)) = c" for c
  proof -
    have "unat (of_char c :: byte) = of_char c"
      by (metis of_char_mod_256 of_nat_of_char unat_of_nat_byte)
    then show ?thesis by simp
  qed
  then show ?thesis by (simp add: bytes_str_def str_bytes_def map_idI)
qed

section \<open>Successors of 64-bit sequence numbers\<close>

lemma unat_Suc64: "(k :: uint64) \<noteq> - 1 \<Longrightarrow> unat (k + 1) = Suc (unat k)"
proof -
  assume "k \<noteq> - 1"
  then have "unat k \<noteq> unat (- 1 :: uint64)" by (simp only: word_unat_eq_iff not_False_eq_True)
  moreover have "unat (- 1 :: uint64) = 18446744073709551615"
    by (simp add: unsigned_minus_1_eq_mask mask_eq_exp_minus_1)
  ultimately have "Suc (unat k) < 18446744073709551616"
    using unat_lt_64 [of k] by linarith
  then show ?thesis by (simp add: unat_word_ariths)
qed

lemma le_Suc64: "(k :: uint64) \<noteq> - 1 \<Longrightarrow> k + 1 \<le> q \<longleftrightarrow> k < q"
  by (simp add: word_le_nat_alt word_less_nat_alt unat_Suc64 Suc_le_eq)

lemma less_Suc64: "(k :: uint64) \<noteq> - 1 \<Longrightarrow> q < k + 1 \<longleftrightarrow> q \<le> k"
  by (simp add: word_le_nat_alt word_less_nat_alt unat_Suc64 less_Suc_eq_le)

lemma less_not_max: "(q :: uint64) < k \<Longrightarrow> q \<noteq> - 1"
  using word_order.extremum_strict by blast

lemma not_max_if_less:
  assumes "(k :: uint64) < - 2"
  shows "k \<noteq> - 1" and "k + 1 \<noteq> - 1"
proof -
  show "k \<noteq> - 1" using assms less_not_max by blast
  show "k + 1 \<noteq> - 1"
  proof
    assume "k + 1 = - 1"
    then have "k = - 1 - 1" by (metis add_diff_cancel_right')
    with assms show False by simp
  qed
qed

lemma set_alist_update: "set (AList.update k v al) \<subseteq> insert (k, v) (set al)"
  by (induction al) auto

text \<open>Replacing one element of a list replaces its contribution to a concatenation.\<close>

lemma mset_concat_update:
  "i < length xs \<Longrightarrow>
   mset (concat (map f (xs[i := y]))) + mset (f (xs ! i)) = mset (concat (map f xs)) + mset (f y)"
proof (induction xs arbitrary: i)
  case Nil
  then show ?case by simp
next
  case (Cons x xs)
  show ?case
  proof (cases i)
    case 0
    then show ?thesis by simp
  next
    case (Suc j)
    with Cons show ?thesis by (simp add: add.assoc)
  qed
qed

end
