(* ===== verification/SeenTracker.thy ===== *)
theory SeenTracker
  imports Prelude
begin

text \<open>
  \<open>engine/seen.go\<close>: the tracker of the highest processed sequence number per slot.

  The first part models every method as a function of the tracker. The second part models
  \<open>ShouldProcess\<close> at the grain of its atomic operations (the load, the compare-and-swap, and
  the two critical sections of \<open>markActive\<close>), with any number of goroutines inside the method
  at once. The locale \<open>dedup_filter\<close> is the contract the gossip handlers rely on.
\<close>

section \<open>Model\<close>

definition maxSlots :: nat where
  "maxSlots = 65536"

text \<open>The array of slots is a function on 16-bit topics, which is total: a topic is always a
  valid index of an array of \<open>maxSlots\<close> cells. \<open>activeSlots\<close> is the list of the map's keys,
  \<open>None\<close> while the map is nil.\<close>

record SeenTracker =
  slotSeqs :: "uint16 \<Rightarrow> uint64"
  activeSlots :: "uint16 list option"

record TopicSeq =
  TS_Topic :: uint16
  TS_Seq :: uint64

definition zeroSeenTracker :: SeenTracker where
  "zeroSeenTracker = \<lparr>slotSeqs = (\<lambda>_. 0), activeSlots = None\<rparr>"

definition activeKeys :: "SeenTracker \<Rightarrow> uint16 list" where
  "activeKeys s = (case activeSlots s of None \<Rightarrow> [] | Some ks \<Rightarrow> ks)"

definition markActive :: "SeenTracker \<Rightarrow> uint16 \<Rightarrow> SeenTracker" where
  "markActive s topic =
     (if topic \<in> set (activeKeys s) then s
      else s\<lparr>activeSlots := Some (List.insert topic (activeKeys s))\<rparr>)"

definition ShouldProcess :: "SeenTracker \<Rightarrow> uint16 \<Rightarrow> uint64 \<Rightarrow> bool \<times> SeenTracker" where
  "ShouldProcess s topic seq =
     (let old = slotSeqs s topic in
      if seq \<le> old then (False, s)
      else let s1 = s\<lparr>slotSeqs := (slotSeqs s)(topic := seq)\<rparr> in
           (True, if old = 0 then markActive s1 topic else s1))"

definition CurrentSeq :: "SeenTracker \<Rightarrow> uint16 \<Rightarrow> uint64" where
  "CurrentSeq s topic = slotSeqs s topic"

definition HighWaterMarks :: "SeenTracker \<Rightarrow> TopicSeq list" where
  "HighWaterMarks s =
     concat (map (\<lambda>topic. let seq = slotSeqs s topic in
       if seq > 0 then [\<lparr>TS_Topic = topic, TS_Seq = seq\<rparr>] else []) (activeKeys s))"

definition SetTopicSeq :: "SeenTracker \<Rightarrow> uint16 \<Rightarrow> uint64 \<Rightarrow> SeenTracker" where
  "SetTopicSeq s topic seq =
     (let s1 = s\<lparr>slotSeqs := (slotSeqs s)(topic := seq)\<rparr> in
      if seq > 0 then markActive s1 topic else s1)"

text \<open>A sequence of calls and the answers they get.\<close>

fun ShouldProcess_run ::
  "SeenTracker \<Rightarrow> (uint16 \<times> uint64) list \<Rightarrow> bool list \<times> SeenTracker" where
  "ShouldProcess_run s [] = ([], s)"
| "ShouldProcess_run s ((t, q) # ops) =
     (let (b, s1) = ShouldProcess s t q; (bs, s2) = ShouldProcess_run s1 ops in (b # bs, s2))"

section \<open>ShouldProcess with concurrent callers\<close>

text \<open>Where a goroutine stands inside \<open>ShouldProcess\<close>: before the load, before the
  compare-and-swap with the value it loaded, before the read section of \<open>markActive\<close>, before
  its write section, returned.\<close>

datatype sp_pc = AtLoad | AtCAS uint64 | AtMarkRead | AtMarkWrite | Returned bool

record sp_call =
  c_topic :: uint16
  c_seq :: uint64
  c_pc :: sp_pc

text \<open>One atomic action of a call on the shared tracker. The third result is the answer the
  call is committed to by this action, if this action is the one that decides it.\<close>

definition sp_action :: "SeenTracker \<Rightarrow> sp_call \<Rightarrow> SeenTracker \<times> sp_call \<times> bool option" where
  "sp_action s c = (case c_pc c of
     AtLoad \<Rightarrow>
       (let old = slotSeqs s (c_topic c) in
        if c_seq c \<le> old then (s, c\<lparr>c_pc := Returned False\<rparr>, Some False)
        else (s, c\<lparr>c_pc := AtCAS old\<rparr>, None))
   | AtCAS old \<Rightarrow>
       (if slotSeqs s (c_topic c) = old
        then (s\<lparr>slotSeqs := (slotSeqs s)(c_topic c := c_seq c)\<rparr>,
              c\<lparr>c_pc := (if old = 0 then AtMarkRead else Returned True)\<rparr>, Some True)
        else (s, c\<lparr>c_pc := AtLoad\<rparr>, None))
   | AtMarkRead \<Rightarrow>
       (s, c\<lparr>c_pc := (if c_topic c \<in> set (activeKeys s) then Returned True else AtMarkWrite)\<rparr>,
        None)
   | AtMarkWrite \<Rightarrow>
       (s\<lparr>activeSlots := Some (List.insert (c_topic c) (activeKeys s))\<rparr>,
        c\<lparr>c_pc := Returned True\<rparr>, None)
   | Returned b \<Rightarrow> (s, c, None))"

text \<open>A configuration: the tracker, the calls in progress or returned, and the log of the
  decisions in the order in which they were taken.\<close>

record sp_config =
  sp_tracker :: SeenTracker
  sp_calls :: "sp_call list"
  sp_log :: "((uint16 \<times> uint64) \<times> bool) list"

definition sp_run_action :: "sp_config \<Rightarrow> nat \<Rightarrow> sp_config" where
  "sp_run_action k i =
     (let c = sp_calls k ! i; (s', c', d) = sp_action (sp_tracker k) c in
      \<lparr>sp_tracker = s', sp_calls = (sp_calls k)[i := c'],
       sp_log = sp_log k @ (case d of None \<Rightarrow> [] | Some b \<Rightarrow> [((c_topic c, c_seq c), b)])\<rparr>)"

fun sp_returned :: "sp_pc \<Rightarrow> bool" where
  "sp_returned (Returned b) = True"
| "sp_returned _ = False"

inductive sp_step :: "sp_config \<Rightarrow> sp_config \<Rightarrow> bool" where
  sp_invoke: "sp_step k (k\<lparr>sp_calls := sp_calls k @ [\<lparr>c_topic = t, c_seq = q, c_pc = AtLoad\<rparr>]\<rparr>)"
| sp_act: "i < length (sp_calls k) \<Longrightarrow> \<not> sp_returned (c_pc (sp_calls k ! i)) \<Longrightarrow>
     sp_step k (sp_run_action k i)"

inductive_cases sp_stepE: "sp_step k k'"

definition sp_init :: sp_config where
  "sp_init = \<lparr>sp_tracker = zeroSeenTracker, sp_calls = [], sp_log = []\<rparr>"

inductive sp_reachable :: "sp_config \<Rightarrow> bool" where
  sp_reach_init: "sp_reachable sp_init"
| sp_reach_step: "sp_reachable k \<Longrightarrow> sp_step k k' \<Longrightarrow> sp_reachable k'"

text \<open>A schedule: which call starts or acts next.\<close>

datatype sp_event = Invoke uint16 uint64 | Act nat

fun sp_schedule :: "sp_config \<Rightarrow> sp_event list \<Rightarrow> sp_config" where
  "sp_schedule k [] = k"
| "sp_schedule k (Invoke t q # es) =
     sp_schedule (k\<lparr>sp_calls := sp_calls k @ [\<lparr>c_topic = t, c_seq = q, c_pc = AtLoad\<rparr>]\<rparr>) es"
| "sp_schedule k (Act i # es) =
     sp_schedule (if i < length (sp_calls k) \<and> \<not> sp_returned (c_pc (sp_calls k ! i))
                  then sp_run_action k i else k) es"

text \<open>A call won when its compare-and-swap succeeded.\<close>

fun sp_won :: "sp_pc \<Rightarrow> bool" where
  "sp_won AtMarkRead = True"
| "sp_won AtMarkWrite = True"
| "sp_won (Returned b) = b"
| "sp_won _ = False"

section \<open>The sequential methods\<close>

text \<open>The map of active slots has distinct keys and holds every slot with a non-zero mark.\<close>

definition seen_wf :: "SeenTracker \<Rightarrow> bool" where
  "seen_wf s \<longleftrightarrow> distinct (activeKeys s) \<and> (\<forall>t. slotSeqs s t \<noteq> 0 \<longrightarrow> t \<in> set (activeKeys s))"

lemma activeKeys_simps [simp]:
  "activeKeys (s\<lparr>slotSeqs := f\<rparr>) = activeKeys s"
  "activeKeys (s\<lparr>activeSlots := Some ks\<rparr>) = ks"
  "activeKeys \<lparr>slotSeqs = f, activeSlots = None\<rparr> = []"
  by (simp_all add: activeKeys_def)

lemma slotSeqs_markActive [simp]: "slotSeqs (markActive s t) = slotSeqs s"
  by (simp add: markActive_def)

lemma activeKeys_markActive [simp]: "activeKeys (markActive s t) = List.insert t (activeKeys s)"
  by (simp add: markActive_def)

lemma fst_ShouldProcess [simp]: "fst (ShouldProcess s t q) \<longleftrightarrow> slotSeqs s t < q"
  by (auto simp: ShouldProcess_def Let_def)

lemma slotSeqs_ShouldProcess [simp]:
  "slotSeqs (snd (ShouldProcess s t q)) = (slotSeqs s)(t := max (slotSeqs s t) q)"
  by (auto simp: ShouldProcess_def Let_def max_def)

lemma slotSeqs_SetTopicSeq [simp]: "slotSeqs (SetTopicSeq s t q) = (slotSeqs s)(t := q)"
  by (simp add: SetTopicSeq_def Let_def)

lemma seen_wf_zero [simp, inv_intro]: "seen_wf zeroSeenTracker"
  by (simp add: seen_wf_def zeroSeenTracker_def)

lemma seen_wf_markActive [inv_intro]:
  "distinct (activeKeys s) \<Longrightarrow> (\<And>u. u \<noteq> t \<Longrightarrow> slotSeqs s u \<noteq> 0 \<Longrightarrow> u \<in> set (activeKeys s)) \<Longrightarrow>
   seen_wf (markActive s t)"
  by (auto simp: seen_wf_def)

lemma seen_wf_ShouldProcess [inv_intro]: "seen_wf s \<Longrightarrow> seen_wf (snd (ShouldProcess s t q))"
  by (auto simp: ShouldProcess_def Let_def intro!: seen_wf_markActive) (auto simp: seen_wf_def)

lemma seen_wf_SetTopicSeq [inv_intro]: "seen_wf s \<Longrightarrow> seen_wf (SetTopicSeq s t q)"
  by (auto simp: SetTopicSeq_def Let_def intro!: seen_wf_markActive)
    (auto simp: seen_wf_def word_neq_0_conv)

lemma set_HighWaterMarks:
  "set (HighWaterMarks s) =
     {\<lparr>TS_Topic = t, TS_Seq = slotSeqs s t\<rparr> | t. t \<in> set (activeKeys s) \<and> slotSeqs s t \<noteq> 0}"
  by (auto simp: HighWaterMarks_def Let_def word_neq_0_conv split: if_splits)

lemma topics_HighWaterMarks:
  "map TS_Topic (HighWaterMarks s) = filter (\<lambda>t. slotSeqs s t \<noteq> 0) (activeKeys s)"
proof -
  have "map TS_Topic (concat (map (\<lambda>t. if 0 < slotSeqs s t
          then [\<lparr>TS_Topic = t, TS_Seq = slotSeqs s t\<rparr>] else []) ks))
        = filter (\<lambda>t. slotSeqs s t \<noteq> 0) ks" for ks
    by (induction ks) (auto simp: word_neq_0_conv)
  then show ?thesis by (simp add: HighWaterMarks_def Let_def)
qed

section \<open>The contract of a high-water-mark filter\<close>

locale dedup_filter =
  fixes accept :: "'s \<Rightarrow> uint16 \<Rightarrow> uint64 \<Rightarrow> bool \<times> 's"
    and mark :: "'s \<Rightarrow> uint16 \<Rightarrow> uint64"
  assumes accept_iff: "fst (accept s t q) \<longleftrightarrow> mark s t < q"
    and mark_accept: "mark (snd (accept s t q)) = (mark s)(t := max (mark s t) q)"
begin

primrec accepted :: "'s \<Rightarrow> (uint16 \<times> uint64) list \<Rightarrow> (uint16 \<times> uint64) list" where
  "accepted s [] = []"
| "accepted s (e # es) =
     (if fst (accept s (fst e) (snd e)) then [e] else []) @ accepted (snd (accept s (fst e) (snd e))) es"

primrec after :: "'s \<Rightarrow> (uint16 \<times> uint64) list \<Rightarrow> 's" where
  "after s [] = s"
| "after s (e # es) = after (snd (accept s (fst e) (snd e))) es"

lemma accepted_above: "(t, q) \<in> set (accepted s es) \<Longrightarrow> mark s t < q"
proof (induction es arbitrary: s)
  case Nil
  then show ?case by simp
next
  case (Cons e es)
  then show ?case
    by (cases "(t, q) = e")
      (auto simp: accept_iff mark_accept split: if_splits dest!: Cons.IH)
qed

lemma accepted_increasing: "sorted_wrt (<) (map snd (filter (\<lambda>e. fst e = t) (accepted s es)))"
  by (induction es arbitrary: s) (force simp: accept_iff mark_accept dest!: accepted_above)+

lemma accepted_distinct: "distinct (accepted s es)"
  by (induction es arbitrary: s) (auto simp: accept_iff mark_accept dest!: accepted_above)

lemma mark_after: "mark (after s es) t = foldl max (mark s t) (map snd (filter (\<lambda>e. fst e = t) es))"
  by (induction es arbitrary: s) (simp_all add: mark_accept)

text \<open>A pair that is not above the mark is refused for good: the filter cannot tell a late
  first arrival from a repetition.\<close>

lemma late_refused: "q \<le> mark s t \<Longrightarrow> (t, q) \<notin> set (accepted s es)"
  using accepted_above by (metis not_le)

end

interpretation seen: dedup_filter ShouldProcess slotSeqs
  by unfold_locales simp_all

lemma ShouldProcess_run_Cons:
  "ShouldProcess_run s (e # ops) =
     (fst (ShouldProcess s (fst e) (snd e)) #
        fst (ShouldProcess_run (snd (ShouldProcess s (fst e) (snd e))) ops),
      snd (ShouldProcess_run (snd (ShouldProcess s (fst e) (snd e))) ops))"
  by (cases e) (simp add: Let_def split_beta)

lemmas ShouldProcess_run_simps = ShouldProcess_run.simps(1) ShouldProcess_run_Cons

declare ShouldProcess_run.simps(2) [simp del]

lemma ShouldProcess_run_append:
  "ShouldProcess_run s (xs @ ys) =
     (fst (ShouldProcess_run s xs) @ fst (ShouldProcess_run (snd (ShouldProcess_run s xs)) ys),
      snd (ShouldProcess_run (snd (ShouldProcess_run s xs)) ys))"
  by (induction xs arbitrary: s) (simp_all add: ShouldProcess_run_simps)

lemma ShouldProcess_run_accepted:
  "map fst (filter snd (zip ops (fst (ShouldProcess_run s ops)))) = seen.accepted s ops"
  by (induction ops arbitrary: s) (simp_all add: ShouldProcess_run_simps)

lemma slotSeqs_ShouldProcess_run:
  "slotSeqs (snd (ShouldProcess_run s ops)) = slotSeqs (seen.after s ops)"
  by (induction ops arbitrary: s) (simp_all add: ShouldProcess_run_simps)

lemma seen_wf_ShouldProcess_run [inv_intro]:
  "seen_wf s \<Longrightarrow> seen_wf (snd (ShouldProcess_run s ops))"
  by (induction ops arbitrary: s) (simp_all add: ShouldProcess_run_simps seen_wf_ShouldProcess)

section \<open>Concurrent callers: invariant\<close>

text \<open>What holds of one call in a given tracker: a winner's sequence number is positive and at
  most the mark of its slot, a loser's is at most the mark, and a call about to swap loaded a
  value below its own.\<close>

fun sp_call_ok :: "SeenTracker \<Rightarrow> sp_call \<Rightarrow> bool" where
  "sp_call_ok s c = (case c_pc c of
     AtLoad \<Rightarrow> True
   | AtCAS old \<Rightarrow> old < c_seq c \<and> old \<le> slotSeqs s (c_topic c)
   | _ \<Rightarrow> c_seq c \<le> slotSeqs s (c_topic c) \<and> (sp_won (c_pc c) \<longrightarrow> c_seq c \<noteq> 0))"

definition sp_marking :: "sp_call \<Rightarrow> bool" where
  "sp_marking c \<longleftrightarrow> c_pc c = AtMarkRead \<or> c_pc c = AtMarkWrite"

definition sp_decision :: "sp_call \<Rightarrow> ((uint16 \<times> uint64) \<times> bool) list" where
  "sp_decision c = (case c_pc c of
     AtLoad \<Rightarrow> [] | AtCAS _ \<Rightarrow> [] | pc \<Rightarrow> [((c_topic c, c_seq c), sp_won pc)])"

definition sp_inv :: "sp_config \<Rightarrow> bool" where
  "sp_inv k \<longleftrightarrow>
     (\<forall>c \<in> set (sp_calls k). sp_call_ok (sp_tracker k) c) \<and>
     (\<forall>i < length (sp_calls k). \<forall>j < length (sp_calls k). i \<noteq> j \<longrightarrow>
        sp_won (c_pc (sp_calls k ! i)) \<longrightarrow> sp_won (c_pc (sp_calls k ! j)) \<longrightarrow>
        c_topic (sp_calls k ! i) = c_topic (sp_calls k ! j) \<longrightarrow>
        c_seq (sp_calls k ! i) \<noteq> c_seq (sp_calls k ! j)) \<and>
     distinct (activeKeys (sp_tracker k)) \<and>
     (\<forall>t. slotSeqs (sp_tracker k) t \<noteq> 0 \<longrightarrow>
        t \<in> set (activeKeys (sp_tracker k)) \<or> (\<exists>c \<in> set (sp_calls k). sp_marking c \<and> c_topic c = t))"

text \<open>The log is a sequential history with the answers the calls got.\<close>

definition sp_log_inv :: "sp_config \<Rightarrow> bool" where
  "sp_log_inv k \<longleftrightarrow>
     fst (ShouldProcess_run zeroSeenTracker (map fst (sp_log k))) = map snd (sp_log k) \<and>
     slotSeqs (snd (ShouldProcess_run zeroSeenTracker (map fst (sp_log k)))) = slotSeqs (sp_tracker k) \<and>
     mset (sp_log k) = mset (concat (map sp_decision (sp_calls k)))"

lemma sp_inv_init: "sp_inv sp_init"
  by (simp add: sp_inv_def sp_init_def zeroSeenTracker_def)

lemma sp_log_inv_init: "sp_log_inv sp_init"
  by (simp add: sp_log_inv_def sp_init_def)

text \<open>The marks only grow, and every call that is not acting stays well placed.\<close>

lemma sp_action_mono:
  "sp_call_ok s c \<Longrightarrow> sp_action s c = (s', c', d) \<Longrightarrow> slotSeqs s t \<le> slotSeqs s' t"
  by (auto simp: sp_action_def Let_def split: sp_pc.splits if_splits)

lemma sp_call_ok_mono:
  "sp_call_ok s c \<Longrightarrow> (\<And>t. slotSeqs s t \<le> slotSeqs s' t) \<Longrightarrow> sp_call_ok s' c"
  by (auto split: sp_pc.splits intro: order_trans)

lemma sp_action_call_ok:
  "sp_call_ok s c \<Longrightarrow> sp_action s c = (s', c', d) \<Longrightarrow> sp_call_ok s' c'"
  by (auto simp: sp_action_def Let_def not_le split: sp_pc.splits if_splits)

lemma sp_action_frame:
  "sp_action s c = (s', c', d) \<Longrightarrow> c_topic c' = c_topic c \<and> c_seq c' = c_seq c"
  by (auto simp: sp_action_def Let_def split: sp_pc.splits if_splits)

text \<open>A call that wins has a sequence number above the mark it replaced.\<close>

lemma sp_action_wins:
  "sp_call_ok s c \<Longrightarrow> sp_action s c = (s', c', d) \<Longrightarrow> sp_won (c_pc c') \<Longrightarrow> \<not> sp_won (c_pc c) \<Longrightarrow>
   slotSeqs s (c_topic c) < c_seq c"
  by (auto simp: sp_action_def Let_def split: sp_pc.splits if_splits)

lemma sp_won_le: "sp_call_ok s c \<Longrightarrow> sp_won (c_pc c) \<Longrightarrow> c_seq c \<le> slotSeqs s (c_topic c)"
  by (auto split: sp_pc.splits)

lemma sp_action_active:
  "sp_action s c = (s', c', d) \<Longrightarrow> distinct (activeKeys s) \<Longrightarrow>
   distinct (activeKeys s') \<and> set (activeKeys s) \<subseteq> set (activeKeys s')"
  by (auto simp: sp_action_def Let_def split: sp_pc.splits if_splits)

lemma sp_action_marks:
  "sp_action s c = (s', c', d) \<Longrightarrow> slotSeqs s' t \<noteq> 0 \<Longrightarrow> sp_call_ok s c \<Longrightarrow>
   slotSeqs s t \<noteq> 0 \<and> (sp_marking c \<and> c_topic c = t \<longrightarrow> sp_marking c' \<or> t \<in> set (activeKeys s'))
   \<or> sp_marking c' \<and> c_topic c' = t"
  by (auto simp: sp_action_def Let_def sp_marking_def split: sp_pc.splits if_splits)

text \<open>The action that decides a call agrees with the sequential method on the marks.\<close>

lemma sp_action_decides:
  assumes "sp_call_ok s c" and "sp_action s c = (s', c', d)"
  shows "case d of
      None \<Rightarrow> slotSeqs s' = slotSeqs s \<and> sp_decision c' = sp_decision c
    | Some b \<Rightarrow> b = (slotSeqs s (c_topic c) < c_seq c) \<and>
        slotSeqs s' = (slotSeqs s)(c_topic c := max (slotSeqs s (c_topic c)) (c_seq c)) \<and>
        sp_decision c = [] \<and> sp_decision c' = [((c_topic c, c_seq c), b)]"
  using assms
  by (auto simp: sp_action_def Let_def sp_decision_def max_def not_le split: sp_pc.splits if_splits)

lemma sp_inv_invoke:
  "sp_inv k \<Longrightarrow> sp_inv (k\<lparr>sp_calls := sp_calls k @ [\<lparr>c_topic = t, c_seq = q, c_pc = AtLoad\<rparr>]\<rparr>)"
  by (auto simp: sp_inv_def nth_append less_Suc_eq)

text \<open>A call that wins does so with a number above those of all earlier winners of its topic.\<close>

lemma sp_act_unique:
  assumes inv: "sp_inv k" and i: "i < length (sp_calls k)" and act: "sp_action (sp_tracker k) (sp_calls k ! i) = (s', c', d)"
    and ab: "a < length (sp_calls k)" "b < length (sp_calls k)" "a \<noteq> b"
    and w: "sp_won (c_pc ((sp_calls k)[i := c'] ! a))" "sp_won (c_pc ((sp_calls k)[i := c'] ! b))"
    and t: "c_topic ((sp_calls k)[i := c'] ! a) = c_topic ((sp_calls k)[i := c'] ! b)"
  shows "c_seq ((sp_calls k)[i := c'] ! a) \<noteq> c_seq ((sp_calls k)[i := c'] ! b)"
proof -
  let ?cs = "sp_calls k" and ?s = "sp_tracker k"
  have ok: "sp_call_ok ?s c" if "c \<in> set ?cs" for c using inv that by (simp add: sp_inv_def)
  then have oki: "sp_call_ok ?s (?cs ! i)" using i by simp
  note frame = sp_action_frame [OF act]
  have above: "c_seq (?cs ! j) < c_seq (?cs ! i)"
    if "j < length ?cs" "sp_won (c_pc (?cs ! j))" "c_topic (?cs ! i) = c_topic (?cs ! j)"
      "sp_won (c_pc c')" "\<not> sp_won (c_pc (?cs ! i))" for j
    using sp_action_wins [OF oki act that(4,5)] sp_won_le [of ?s "?cs ! j"] ok that(1-3) by force
  show ?thesis
  proof (cases "a = i \<and> \<not> sp_won (c_pc (?cs ! i)) \<or> b = i \<and> \<not> sp_won (c_pc (?cs ! i))")
    case True
    then show ?thesis
      using ab w t frame i above [of a] above [of b] by (auto simp: nth_list_update split: if_splits)
  next
    case False
    then have "sp_won (c_pc (?cs ! a))" "sp_won (c_pc (?cs ! b))"
      "c_topic (?cs ! a) = c_topic (?cs ! b)"
      using ab w t frame i by (auto simp: nth_list_update split: if_splits)
    then show ?thesis
      using inv ab frame i by (auto simp: sp_inv_def nth_list_update)
  qed
qed

text \<open>A slot with a mark is listed as active, or some call is about to list it.\<close>

lemma sp_act_marked:
  assumes inv: "sp_inv k" and i: "i < length (sp_calls k)" and act: "sp_action (sp_tracker k) (sp_calls k ! i) = (s', c', d)"
    and marked: "slotSeqs s' t \<noteq> 0"
  shows "t \<in> set (activeKeys s') \<or> (\<exists>c \<in> set ((sp_calls k)[i := c']). sp_marking c \<and> c_topic c = t)"
proof -
  let ?cs = "sp_calls k" and ?s = "sp_tracker k"
  have oki: "sp_call_ok ?s (?cs ! i)" using inv i by (simp add: sp_inv_def)
  have sub: "set (activeKeys ?s) \<subseteq> set (activeKeys s')" using sp_action_active [OF act] inv by (auto simp: sp_inv_def)
  have c': "c' \<in> set (?cs[i := c'])" using i by (simp add: set_update_memI)
  have other: "c \<in> set (?cs[i := c'])" if "c \<in> set ?cs" "c \<noteq> ?cs ! i" for c
    using that i by (metis in_set_conv_nth length_list_update nth_list_update_neq)
  have old: "t \<in> set (activeKeys ?s) \<or> (\<exists>c \<in> set ?cs. sp_marking c \<and> c_topic c = t)" if "slotSeqs ?s t \<noteq> 0"
    using inv that by (simp add: sp_inv_def)
  from sp_action_marks [OF act marked oki] show ?thesis
  proof
    assume l: "slotSeqs ?s t \<noteq> 0 \<and>
      (sp_marking (?cs ! i) \<and> c_topic (?cs ! i) = t \<longrightarrow> sp_marking c' \<or> t \<in> set (activeKeys s'))"
    with old consider "t \<in> set (activeKeys ?s)"
      | c where "c \<in> set ?cs" "sp_marking c" "c_topic c = t" by blast
    then show ?thesis
    proof cases
      case 1
      then show ?thesis using sub by blast
    next
      case (2 c)
      then show ?thesis using l c' other sp_action_frame [OF act] by (cases "c = ?cs ! i") auto
    qed
  next
    assume "sp_marking c' \<and> c_topic c' = t"
    then show ?thesis using c' by blast
  qed
qed

lemma sp_inv_act:
  assumes inv: "sp_inv k" and i: "i < length (sp_calls k)"
  shows "sp_inv (sp_run_action k i)"
proof -
  let ?cs = "sp_calls k" and ?s = "sp_tracker k"
  obtain s' c' d where act: "sp_action ?s (?cs ! i) = (s', c', d)" by (metis prod_cases3)
  have k': "sp_run_action k i = \<lparr>sp_tracker = s', sp_calls = ?cs[i := c'],
      sp_log = sp_log k @ (case d of None \<Rightarrow> [] | Some b \<Rightarrow> [((c_topic (?cs ! i), c_seq (?cs ! i)), b)])\<rparr>"
    by (simp add: sp_run_action_def Let_def act)
  have ok: "sp_call_ok ?s c" if "c \<in> set ?cs" for c
    using inv that by (simp add: sp_inv_def)
  have oki: "sp_call_ok ?s (?cs ! i)" using ok i by simp
  note mono = sp_action_mono [OF oki act]
  have ok': "\<forall>c \<in> set (?cs[i := c']). sp_call_ok s' c"
  proof
    fix c assume "c \<in> set (?cs[i := c'])"
    then have "c = c' \<or> c \<in> set ?cs" using set_update_subset_insert by fast
    then show "sp_call_ok s' c"
      using sp_action_call_ok [OF oki act] sp_call_ok_mono [OF ok mono] by blast
  qed
  have "distinct (activeKeys s')" using sp_action_active [OF act] inv by (auto simp: sp_inv_def)
  then show ?thesis
    using ok' sp_act_unique [OF inv i act] sp_act_marked [OF inv i act] by (simp add: k' sp_inv_def)
qed

lemma sp_inv_step [inv_intro]: "sp_step k k' \<Longrightarrow> sp_inv k \<Longrightarrow> sp_inv k'"
  by (auto elim!: sp_stepE intro: sp_inv_invoke sp_inv_act)

lemma sp_log_inv_step:
  assumes "sp_step k k'" and "sp_inv k" and log: "sp_log_inv k"
  shows "sp_log_inv k'"
  using assms(1)
proof cases
  case (sp_invoke t q)
  then show ?thesis using log by (simp add: sp_log_inv_def sp_decision_def)
next
  case (sp_act i)
  let ?c = "sp_calls k ! i"
  obtain s' c' d where act: "sp_action (sp_tracker k) ?c = (s', c', d)" by (metis prod_cases3)
  have ok: "sp_call_ok (sp_tracker k) ?c" using assms(2) sp_act by (simp add: sp_inv_def)
  note dec = sp_action_decides [OF ok act]
  note upd = mset_concat_update [of i "sp_calls k" sp_decision c', OF sp_act(2)]
  show ?thesis
    using log dec upd sp_act
    by (cases d)
      (auto simp: sp_log_inv_def sp_run_action_def Let_def act ShouldProcess_run_append
        ShouldProcess_run_simps)
qed

lemma sp_reachable_inv: "sp_reachable k \<Longrightarrow> sp_inv k \<and> sp_log_inv k"
  by (induction rule: sp_reachable.induct)
    (auto simp: sp_inv_init sp_log_inv_init intro: sp_inv_step sp_log_inv_step)

lemma sp_reachable_schedule: "sp_reachable k \<Longrightarrow> sp_reachable (sp_schedule k es)"
  by (induction k es rule: sp_schedule.induct)
    (auto intro: sp_reachable.sp_reach_step sp_step.sp_invoke dest: sp_reach_step [OF _ sp_step.sp_act])

lemmas sp_reachable_run = sp_reachable_schedule [OF sp_reachable.sp_reach_init]

section \<open>Every call returns\<close>

text \<open>The progress measure: first the number of undecided calls, then how far each call is from
  its next decision. A call that has to repeat its load only does so because another call
  decided in between.\<close>

definition sp_undecided :: "sp_call \<Rightarrow> nat" where
  "sp_undecided c = (case c_pc c of AtLoad \<Rightarrow> 1 | AtCAS _ \<Rightarrow> 1 | _ \<Rightarrow> 0)"

definition sp_rank :: "SeenTracker \<Rightarrow> sp_call \<Rightarrow> nat" where
  "sp_rank s c = (case c_pc c of
     AtLoad \<Rightarrow> 1
   | AtCAS old \<Rightarrow> (if slotSeqs s (c_topic c) = old then 0 else 2)
   | AtMarkRead \<Rightarrow> 2 | AtMarkWrite \<Rightarrow> 1 | Returned _ \<Rightarrow> 0)"

definition sp_measure :: "sp_config \<Rightarrow> nat \<times> nat" where
  "sp_measure k = (sum_list (map sp_undecided (sp_calls k)),
                   sum_list (map (sp_rank (sp_tracker k)) (sp_calls k)))"

lemma sp_action_progress:
  assumes "sp_action s c = (s', c', d)" and "\<not> sp_returned (c_pc c)"
  shows "sp_undecided c' < sp_undecided c \<or>
    sp_undecided c' = sp_undecided c \<and> sp_rank s c' < sp_rank s c \<and> slotSeqs s' = slotSeqs s"
  using assms
  by (auto simp: sp_action_def Let_def sp_undecided_def sp_rank_def split: sp_pc.splits if_splits)

lemma sum_list_replace:
  fixes f :: "'a \<Rightarrow> nat"
  shows "i < length xs \<Longrightarrow> sum_list (map f (xs[i := y])) + f (xs ! i) = sum_list (map f xs) + f y"
  by (induction xs arbitrary: i) (auto split: nat.splits)

lemma sp_rank_cong: "slotSeqs s' = slotSeqs s \<Longrightarrow> sp_rank s' = sp_rank s"
  by (rule ext) (simp add: sp_rank_def split: sp_pc.split)

lemma sp_measure_decreases:
  assumes i: "i < length (sp_calls k)" and r: "\<not> sp_returned (c_pc (sp_calls k ! i))"
  shows "(sp_measure (sp_run_action k i), sp_measure k) \<in> less_than <*lex*> less_than"
proof -
  obtain s' c' d where act: "sp_action (sp_tracker k) (sp_calls k ! i) = (s', c', d)"
    by (metis prod_cases3)
  note u = sum_list_replace [OF i, of sp_undecided c']
    and v = sum_list_replace [OF i, of "sp_rank (sp_tracker k)" c']
  from sp_action_progress [OF act r] show ?thesis
  proof
    assume "sp_undecided c' < sp_undecided (sp_calls k ! i)"
    with u show ?thesis by (simp add: sp_measure_def sp_run_action_def Let_def act)
  next
    assume "sp_undecided c' = sp_undecided (sp_calls k ! i) \<and>
      sp_rank (sp_tracker k) c' < sp_rank (sp_tracker k) (sp_calls k ! i) \<and> slotSeqs s' = slotSeqs (sp_tracker k)"
    with u v show ?thesis
      by (simp add: sp_measure_def sp_run_action_def Let_def act sp_rank_cong [of s' "sp_tracker k"])
  qed
qed

section \<open>Properties\<close>

text \<open>C3: at most one of the goroutines that call \<open>ShouldProcess\<close> concurrently with the same
  topic and sequence number is told to process it, under every interleaving of their loads,
  compare-and-swaps and markings.\<close>

theorem ShouldProcess_concurrent_unique:
  assumes "sp_reachable k"
    and "i < length (sp_calls k)" and "j < length (sp_calls k)" and "i \<noteq> j"
    and "c_pc (sp_calls k ! i) = Returned True" and "c_pc (sp_calls k ! j) = Returned True"
    and "c_topic (sp_calls k ! i) = c_topic (sp_calls k ! j)"
  shows "c_seq (sp_calls k ! i) \<noteq> c_seq (sp_calls k ! j)"
proof -
  from sp_reachable_inv [OF assms(1)] have "sp_inv k" ..
  with assms(2-7) show ?thesis by (auto simp: sp_inv_def)
qed

definition sp_example :: sp_config where
  "sp_example = sp_schedule sp_init
     [Invoke 7 5, Invoke 7 9, Act 0, Act 1, Act 0, Act 1, Act 1, Act 1, Act 0, Act 0]"

lemma sp_example_calls:
  "sp_calls sp_example = [\<lparr>c_topic = 7, c_seq = 5, c_pc = Returned True\<rparr>,
                          \<lparr>c_topic = 7, c_seq = 9, c_pc = Returned True\<rparr>]"
  by (simp add: sp_example_def sp_init_def zeroSeenTracker_def sp_run_action_def sp_action_def Let_def)

lemma sp_example_log: "sp_log sp_example = [((7, 5), True), ((7, 9), True)]"
  by (simp add: sp_example_def sp_init_def zeroSeenTracker_def sp_run_action_def sp_action_def Let_def)

theorem ShouldProcess_concurrent_unique_witness:
  "c_seq (sp_calls sp_example ! 0) \<noteq> c_seq (sp_calls sp_example ! 1)"
proof -
  have r: "sp_reachable sp_example" unfolding sp_example_def by (rule sp_reachable_run)
  show ?thesis
    by (rule ShouldProcess_concurrent_unique [OF r]) (simp_all add: sp_example_calls)
qed

text \<open>C2: the concurrent method is linearizable. In every reachable configuration the decisions
  taken so far, in the order of the deciding loads and compare-and-swaps, are exactly the
  answers the sequential method gives to that sequence of calls, with the same marks; and each
  returned call got the answer recorded for it.\<close>

theorem ShouldProcess_linearizable:
  assumes "sp_reachable k"
  shows "fst (ShouldProcess_run zeroSeenTracker (map fst (sp_log k))) = map snd (sp_log k) \<and>
    slotSeqs (snd (ShouldProcess_run zeroSeenTracker (map fst (sp_log k)))) = slotSeqs (sp_tracker k) \<and>
    mset (sp_log k) = mset (concat (map sp_decision (sp_calls k)))"
  using sp_reachable_inv [OF assms] by (simp add: sp_log_inv_def)

theorem ShouldProcess_linearizable_witness:
  "sp_log sp_example = [((7, 5), True), ((7, 9), True)] \<and>
   fst (ShouldProcess_run zeroSeenTracker (map fst (sp_log sp_example))) = map snd (sp_log sp_example)"
proof -
  have r: "sp_reachable sp_example" unfolding sp_example_def by (rule sp_reachable_run)
  show ?thesis
    using ShouldProcess_linearizable [OF r] by (simp add: sp_example_log)
qed

text \<open>C14: the retry loop of \<open>ShouldProcess\<close> cannot run forever: with finitely many calls in
  progress, no schedule of their actions is infinite, so every call returns.\<close>

theorem ShouldProcess_terminates:
  "wf {(sp_run_action k i, k) | k i.
     i < length (sp_calls k) \<and> \<not> sp_returned (c_pc (sp_calls k ! i))}"
proof (rule wf_subset)
  show "wf (inv_image (less_than <*lex*> less_than) sp_measure)"
    by (rule wf_inv_image) (simp add: wf_lex_prod)
  show "{(sp_run_action k i, k) | k i.
      i < length (sp_calls k) \<and> \<not> sp_returned (c_pc (sp_calls k ! i))}
    \<subseteq> inv_image (less_than <*lex*> less_than) sp_measure"
    using sp_measure_decreases by (auto simp only: in_inv_image)
qed

end
