(* ===== verification/OrderedApplier.thy ===== *)
theory OrderedApplier
  imports SeenTracker
begin

text \<open>
  \<open>engine/ordered.go\<close>: in-order delivery of entries per slot with a bounded reorder buffer.

  The applier is a record; every method returns the new record and the calls it makes to the
  \<open>deliver\<close> callback, in order. The goroutines started by \<open>go o.gapTimer(...)\<close> that are still
  asleep are the list \<open>sleeping\<close>; \<open>gapTimer_wake\<close> is the rest of such a goroutine's body,
  run when its sleep ends. The callback \<open>onGap\<close> is a parameter: it may use the applier, so it
  takes and returns its state. The locale \<open>gap_repair\<close> states what the applier expects of it.
\<close>

section \<open>Model\<close>

type_synonym delivery = "uint16 \<times> uint64 \<times> bytes"

record OrderedApplier =
  nextSeq :: "uint16 \<Rightarrow> uint64"
  pending :: "uint16 \<Rightarrow> (uint64 \<times> bytes) list"
  maxGapBuffer :: int
  gapTimeout :: int
  gapTimers :: "uint16 \<Rightarrow> 32 word"
  sleeping :: "(uint16 \<times> uint64) list"

type_synonym gap_callback =
  "uint16 \<Rightarrow> uint64 \<Rightarrow> OrderedApplier \<Rightarrow> bool \<times> OrderedApplier \<times> delivery list"

abbreviation millisecond :: int where
  "millisecond \<equiv> 1000000"

definition NewOrderedApplier :: OrderedApplier where
  "NewOrderedApplier = \<lparr>nextSeq = (\<lambda>_. 0), pending = (\<lambda>_. []), maxGapBuffer = 64,
     gapTimeout = 500 * millisecond, gapTimers = (\<lambda>_. 0), sleeping = []\<rparr>"

abbreviation set_next :: "OrderedApplier \<Rightarrow> uint16 \<Rightarrow> uint64 \<Rightarrow> OrderedApplier" where
  "set_next o1 t q \<equiv> o1\<lparr>nextSeq := (nextSeq o1)(t := q)\<rparr>"

abbreviation set_pending :: "OrderedApplier \<Rightarrow> uint16 \<Rightarrow> (uint64 \<times> bytes) list \<Rightarrow> OrderedApplier" where
  "set_pending o1 t ps \<equiv> o1\<lparr>pending := (pending o1)(t := ps)\<rparr>"

text \<open>The compare-and-swap of the timer flag and the start of the goroutine.\<close>

definition startGapTimer :: "OrderedApplier \<Rightarrow> uint16 \<Rightarrow> uint64 \<Rightarrow> OrderedApplier" where
  "startGapTimer o1 topic expected =
     (if gapTimers o1 topic = 0
      then o1\<lparr>gapTimers := (gapTimers o1)(topic := 1), sleeping := sleeping o1 @ [(topic, expected)]\<rparr>
      else o1)"

text \<open>The loop of \<open>drainPending\<close>: it takes one buffered entry out per round.\<close>

function drainLoop :: "OrderedApplier \<Rightarrow> uint16 \<Rightarrow> OrderedApplier \<times> delivery list" where
  "drainLoop o1 topic =
     (let next = nextSeq o1 topic in
      case map_of (pending o1 topic) next of
        None \<Rightarrow> (o1, [])
      | Some val \<Rightarrow>
          (let o2 = set_next (set_pending o1 topic (AList.delete next (pending o1 topic))) topic (next + 1);
               (o3, ds) = drainLoop o2 topic
           in (o3, (topic, next, val) # ds)))"
  by pat_completeness auto
termination
proof (relation "measure (\<lambda>(o1, topic). length (pending o1 topic))")
  fix o1 :: OrderedApplier and topic x val o2
  assume "x = nextSeq o1 topic" and "map_of (pending o1 topic) x = Some val"
    and "o2 = set_next (set_pending o1 topic (AList.delete x (pending o1 topic))) topic (x + 1)"
  then show "((o2, topic), o1, topic) \<in> measure (\<lambda>(o1, topic). length (pending o1 topic))"
    by (auto simp: AList.delete_eq dest!: map_of_SomeD intro!: length_filter_less)
qed simp

declare drainLoop.simps [simp del]

definition drainPending :: "OrderedApplier \<Rightarrow> uint16 \<Rightarrow> OrderedApplier \<times> delivery list" where
  "drainPending o1 topic =
     (let (o2, ds) = drainLoop o1 topic; hasPending = (pending o2 topic \<noteq> []) in
      (if hasPending then startGapTimer o2 topic (nextSeq o2 topic) else o2, ds))"

definition Receive ::
  "OrderedApplier \<Rightarrow> uint16 \<Rightarrow> uint64 \<Rightarrow> bytes \<Rightarrow> OrderedApplier \<times> delivery list" where
  "Receive o1 topic seq payload =
     (let expected = nextSeq o1 topic in
      if seq < expected then (o1, [])
      else if seq > expected then
        (let count = seq - expected in
         if count \<le> of_int (maxGapBuffer o1)
         then (startGapTimer (set_pending o1 topic (AList.update seq payload (pending o1 topic)))
                 topic expected, [])
         else (let (o2, ds) = drainPending (set_next o1 topic (seq + 1)) topic
               in (o2, (topic, seq, payload) # ds)))
      else (let (o2, ds) = drainPending (set_next o1 topic (expected + 1)) topic
            in (o2, (topic, seq, payload) # ds)))"

definition skipGap :: "OrderedApplier \<Rightarrow> uint16 \<Rightarrow> OrderedApplier \<times> delivery list" where
  "skipGap o1 topic =
     (let minPending = foldl (\<lambda>m seq. if seq < m then seq else m) (- 1) (map fst (pending o1 topic)) in
      if minPending \<noteq> - 1 then drainPending (set_next o1 topic minPending) topic else (o1, []))"

text \<open>The body of \<open>gapTimer\<close> after the sleep.\<close>

definition gapTimer_wake ::
  "gap_callback option \<Rightarrow> OrderedApplier \<Rightarrow> uint16 \<Rightarrow> uint64 \<Rightarrow> OrderedApplier \<times> delivery list" where
  "gapTimer_wake onGap o1 topic expectedAtStart =
     (let o2 = o1\<lparr>gapTimers := (gapTimers o1)(topic := 0)\<rparr>; current = nextSeq o2 topic in
      if current = expectedAtStart then
        (case onGap of
           None \<Rightarrow> skipGap o2 topic
         | Some f \<Rightarrow>
             (let (filled, o3, ds) = f topic current o2 in
              if filled then (o3, ds)
              else (let (o4, ds') = skipGap o3 topic in (o4, ds @ ds'))))
      else (o2, []))"

definition SetNextSeq :: "OrderedApplier \<Rightarrow> uint16 \<Rightarrow> uint64 \<Rightarrow> OrderedApplier" where
  "SetNextSeq o1 topic seq = set_pending (set_next o1 topic seq) topic []"

definition NextSeq :: "OrderedApplier \<Rightarrow> uint16 \<Rightarrow> uint64" where
  "NextSeq o1 topic = nextSeq o1 topic"

text \<open>What can happen to an applier: an entry arrives, or the sleep of one of its timers ends. A
  wake-up carries the environment its callback meets then, so that a repair that fails once
  may succeed later.\<close>

datatype 'e applier_event = Recv uint16 uint64 bytes | Wake nat 'e

definition wake_nth :: "gap_callback option \<Rightarrow> OrderedApplier \<Rightarrow> nat \<Rightarrow> OrderedApplier \<times> delivery list" where
  "wake_nth onGap o1 i =
     (if i < length (sleeping o1)
      then gapTimer_wake onGap
             (o1\<lparr>sleeping := take i (sleeping o1) @ drop (Suc i) (sleeping o1)\<rparr>)
             (fst (sleeping o1 ! i)) (snd (sleeping o1 ! i))
      else (o1, []))"

fun applier_step ::
  "('e \<Rightarrow> gap_callback) option \<Rightarrow> OrderedApplier \<Rightarrow> 'e applier_event \<Rightarrow> OrderedApplier \<times> delivery list" where
  "applier_step onGap o1 (Recv t q p) = Receive o1 t q p"
| "applier_step onGap o1 (Wake i e) = wake_nth (map_option (\<lambda>f. f e) onGap) o1 i"

fun applier_run ::
  "('e \<Rightarrow> gap_callback) option \<Rightarrow> OrderedApplier \<Rightarrow> 'e applier_event list \<Rightarrow>
     OrderedApplier \<times> delivery list" where
  "applier_run onGap o1 [] = (o1, [])"
| "applier_run onGap o1 (e # es) =
     (let (o2, ds) = applier_step onGap o1 e; (o3, ds') = applier_run onGap o2 es in (o3, ds @ ds'))"

text \<open>The sequence numbers delivered for one slot.\<close>

definition seqs_of :: "uint16 \<Rightarrow> delivery list \<Rightarrow> uint64 list" where
  "seqs_of t ds = map (fst \<circ> snd) (filter (\<lambda>d. fst d = t) ds)"

section \<open>One slot\<close>

definition keys_of :: "OrderedApplier \<Rightarrow> uint16 \<Rightarrow> uint64 set" where
  "keys_of o1 t = fst ` set (pending o1 t)"

text \<open>A slot before draining: buffered sequence numbers are distinct, none is below the expected
  one, and the numbers stay clear of the top of the 64-bit range, where the successor wraps
  to zero.\<close>

definition slot_ready :: "OrderedApplier \<Rightarrow> uint16 \<Rightarrow> bool" where
  "slot_ready o1 t \<longleftrightarrow> distinct (map fst (pending o1 t)) \<and>
     nextSeq o1 t \<noteq> - 1 \<and> (\<forall>k \<in> keys_of o1 t. nextSeq o1 t \<le> k \<and> k < - 2)"

text \<open>A slot between calls: moreover the expected entry is not in the buffer.\<close>

definition slot_inv :: "OrderedApplier \<Rightarrow> uint16 \<Rightarrow> bool" where
  "slot_inv o1 t \<longleftrightarrow> slot_ready o1 t \<and> nextSeq o1 t \<notin> keys_of o1 t"

text \<open>The effect of a call on a slot: the expected number does not go back, and what is delivered
  is strictly increasing and lies between the two.\<close>

definition slot_advance :: "OrderedApplier \<Rightarrow> uint16 \<Rightarrow> OrderedApplier \<Rightarrow> delivery list \<Rightarrow> bool" where
  "slot_advance o1 t o2 ds \<longleftrightarrow> slot_inv o2 t \<and> nextSeq o1 t \<le> nextSeq o2 t \<and>
     sorted_wrt (<) (seqs_of t ds) \<and>
     (\<forall>q \<in> set (seqs_of t ds). nextSeq o1 t \<le> q \<and> q < nextSeq o2 t)"

lemma seqs_of_simps [simp]:
  "seqs_of t [] = []"
  "seqs_of t (d # ds) = (if fst d = t then [fst (snd d)] else []) @ seqs_of t ds"
  "seqs_of t (ds @ ds') = seqs_of t ds @ seqs_of t ds'"
  by (simp_all add: seqs_of_def)

lemma slot_advance_trans:
  "slot_advance o1 t o2 ds \<Longrightarrow> slot_advance o2 t o3 ds' \<Longrightarrow> slot_advance o1 t o3 (ds @ ds')"
  by (force simp: slot_advance_def sorted_wrt_append)

lemma slot_advance_refl: "slot_inv o1 t \<Longrightarrow> slot_advance o1 t o1 []"
  by (simp add: slot_advance_def)

subsection \<open>Draining\<close>

text \<open>A call on one slot leaves the rest of the applier alone and delivers to that slot only.\<close>

definition same_elsewhere :: "uint16 \<Rightarrow> OrderedApplier \<Rightarrow> OrderedApplier \<Rightarrow> bool" where
  "same_elsewhere t o1 o2 \<longleftrightarrow> maxGapBuffer o2 = maxGapBuffer o1 \<and> gapTimeout o2 = gapTimeout o1 \<and>
     (\<forall>u. u \<noteq> t \<longrightarrow> nextSeq o2 u = nextSeq o1 u \<and> pending o2 u = pending o1 u)"

lemma same_elsewhere_trans:
  "same_elsewhere t o1 o2 \<Longrightarrow> same_elsewhere t o2 o3 \<Longrightarrow> same_elsewhere t o1 o3"
  by (simp add: same_elsewhere_def)

lemma drainLoop_cases:
  assumes "drainLoop o1 t = (o2, ds)"
  obtains (stop) "map_of (pending o1 t) (nextSeq o1 t) = None" "o2 = o1" "ds = []"
  | (more) v ds' where "map_of (pending o1 t) (nextSeq o1 t) = Some v"
      "drainLoop (set_next (set_pending o1 t (AList.delete (nextSeq o1 t) (pending o1 t))) t
         (nextSeq o1 t + 1)) t = (o2, ds')"
      "ds = (t, nextSeq o1 t, v) # ds'"
  using assms by (auto simp: drainLoop.simps [of o1 t] Let_def split: option.splits prod.splits)

lemma drainLoop_frame:
  "drainLoop o1 t = (o2, ds) \<Longrightarrow> same_elsewhere t o1 o2 \<and> (\<forall>d \<in> set ds. fst d = t) \<and>
     gapTimers o2 = gapTimers o1 \<and> sleeping o2 = sleeping o1"
proof (induction o1 t arbitrary: o2 ds rule: drainLoop.induct)
  case (1 o1 t)
  from "1.prems" show ?case
  proof (cases rule: drainLoop_cases)
    case stop
    then show ?thesis by (simp add: same_elsewhere_def)
  next
    case (more v ds')
    from "1.IH" [OF refl more(1) refl more(2)] more(3) show ?thesis
      by (simp add: same_elsewhere_def)
  qed
qed

lemma drainLoop_correct:
  assumes "slot_ready o1 t" and "drainLoop o1 t = (o2, ds)"
  shows "slot_inv o2 t \<and> nextSeq o1 t \<le> nextSeq o2 t \<and>
    map unat (seqs_of t ds) = [unat (nextSeq o1 t) ..< unat (nextSeq o2 t)] \<and>
    snd ` set ds \<subseteq> set (pending o1 t) \<and>
    pending o2 t = filter (\<lambda>e. nextSeq o2 t \<le> fst e) (pending o1 t)"
  using assms
proof (induction o1 t arbitrary: o2 ds rule: drainLoop.induct)
  case (1 o1 t)
  let ?n = "nextSeq o1 t"
  from "1.prems"(2) show ?case
  proof (cases rule: drainLoop_cases)
    case stop
    then have "?n \<notin> keys_of o1 t" by (simp add: keys_of_def map_of_eq_None_iff)
    moreover have "filter (\<lambda>e. ?n \<le> fst e) (pending o1 t) = pending o1 t"
      using "1.prems"(1) by (intro filter_True) (auto simp: slot_ready_def keys_of_def)
    ultimately show ?thesis
      using "1.prems" stop by (simp add: slot_inv_def)
  next
    case (more v ds')
    let ?o = "set_next (set_pending o1 t (AList.delete ?n (pending o1 t))) t (?n + 1)"
    have mem: "(?n, v) \<in> set (pending o1 t)" using more(1) by (rule map_of_SomeD)
    then have "?n < - 2" using "1.prems"(1) by (force simp: slot_ready_def keys_of_def)
    note nmax = not_max_if_less(1) [OF this] and nmax' = not_max_if_less(2) [OF this]
    have "slot_ready ?o t"
      using "1.prems"(1) nmax nmax'
      by (auto simp: slot_ready_def keys_of_def AList.delete_eq le_Suc64 distinct_map inj_on_def
          order.strict_iff_order)
    note ih = "1.IH" [OF refl more(1) refl this more(2)]
    have le: "?n < nextSeq o2 t" using ih nmax by (simp add: le_Suc64)
    have fil: "filter (\<lambda>e. nextSeq o2 t \<le> fst e) (AList.delete ?n (pending o1 t)) =
        filter (\<lambda>e. nextSeq o2 t \<le> fst e) (pending o1 t)"
      using le by (auto simp: AList.delete_eq intro!: filter_cong)
    have "[unat ?n ..< unat (nextSeq o2 t)] = unat ?n # [Suc (unat ?n) ..< unat (nextSeq o2 t)]"
      using le by (simp add: word_less_nat_alt upt_conv_Cons)
    then show ?thesis
      using ih more(3) le mem fil unat_Suc64 [OF nmax] by (auto simp: AList.delete_eq)
  qed
qed

lemma drainPending_frame:
  assumes "drainPending o1 t = (o2, ds)"
  shows "same_elsewhere t o1 o2 \<and> (\<forall>d \<in> set ds. fst d = t)"
proof -
  obtain o' where d: "drainLoop o1 t = (o', ds)"
    using assms by (auto simp: drainPending_def split: prod.splits)
  from drainLoop_frame [OF d] show ?thesis
    using assms d by (auto simp: drainPending_def startGapTimer_def same_elsewhere_def split: if_splits)
qed

lemma startGapTimer_frame [simp]:
  "nextSeq (startGapTimer o1 t e) = nextSeq o1" "pending (startGapTimer o1 t e) = pending o1"
  "maxGapBuffer (startGapTimer o1 t e) = maxGapBuffer o1"
  "gapTimeout (startGapTimer o1 t e) = gapTimeout o1"
  by (simp_all add: startGapTimer_def)

lemma slot_inv_cong:
  "nextSeq o2 t = nextSeq o1 t \<Longrightarrow> pending o2 t = pending o1 t \<Longrightarrow> slot_inv o2 t = slot_inv o1 t"
  by (simp add: slot_inv_def slot_ready_def keys_of_def)

lemma drainPending_correct:
  assumes "slot_ready o1 t" and "drainPending o1 t = (o2, ds)"
  shows "slot_inv o2 t \<and> nextSeq o1 t \<le> nextSeq o2 t \<and>
    map unat (seqs_of t ds) = [unat (nextSeq o1 t) ..< unat (nextSeq o2 t)] \<and>
    snd ` set ds \<subseteq> set (pending o1 t) \<and>
    pending o2 t = filter (\<lambda>e. nextSeq o2 t \<le> fst e) (pending o1 t)"
proof -
  obtain o' where d: "drainLoop o1 t = (o', ds)"
    using assms by (auto simp: drainPending_def split: prod.splits)
  have eq: "nextSeq o2 = nextSeq o' \<and> pending o2 = pending o'"
    using assms(2) d by (auto simp: drainPending_def split: if_splits)
  then show ?thesis
    using drainLoop_correct [OF assms(1) d] slot_inv_cong [of o2 t o'] by simp
qed

lemma sorted_if_upt:
  assumes "map unat (qs :: uint64 list) = [unat a ..< unat b]"
  shows "sorted_wrt (<) qs \<and> (\<forall>q \<in> set qs. a \<le> q \<and> q < b)"
proof -
  have "sorted_wrt (<) (map unat qs)" using assms by simp
  moreover have "(<) = (\<lambda>x y :: uint64. unat x < unat y)"
    by (simp add: fun_eq_iff word_less_nat_alt)
  ultimately have "sorted_wrt (<) qs" by (simp add: sorted_wrt_map)
  moreover have "unat q \<in> {unat a ..< unat b}" if "q \<in> set qs" for q
    using assms that by (metis atLeastLessThan_upt image_eqI list.set_map)
  then have "\<forall>q \<in> set qs. a \<le> q \<and> q < b" by (simp add: word_less_nat_alt word_le_nat_alt)
  ultimately show ?thesis ..
qed

lemma drainPending_advance:
  assumes "slot_ready o1 t" and "drainPending o1 t = (o2, ds)"
  shows "slot_advance o1 t o2 ds"
  using drainPending_correct [OF assms] sorted_if_upt [of "seqs_of t ds" "nextSeq o1 t" "nextSeq o2 t"]
  by (simp add: slot_advance_def)

subsection \<open>Receiving\<close>

text \<open>An arrival fits when its number is clear of the top of the range and, if it is too far ahead
  to be buffered, nothing is buffered.\<close>

definition fits :: "OrderedApplier \<Rightarrow> uint16 \<Rightarrow> uint64 \<Rightarrow> bool" where
  "fits o1 t q \<longleftrightarrow> q < - 2 \<and>
     (q \<le> nextSeq o1 t \<or> q - nextSeq o1 t \<le> of_int (maxGapBuffer o1) \<or> pending o1 t = [])"

lemma Receive_cases:
  assumes "Receive o1 t q p = (o2, ds)"
  obtains (duplicate) "q < nextSeq o1 t" "o2 = o1" "ds = []"
  | (buffered) "nextSeq o1 t < q" "q - nextSeq o1 t \<le> of_int (maxGapBuffer o1)"
      "o2 = startGapTimer (set_pending o1 t (AList.update q p (pending o1 t))) t (nextSeq o1 t)"
      "ds = []"
  | (ahead) ds' where "nextSeq o1 t < q" "\<not> q - nextSeq o1 t \<le> of_int (maxGapBuffer o1)"
      "drainPending (set_next o1 t (q + 1)) t = (o2, ds')" "ds = (t, q, p) # ds'"
  | (in_order) ds' where "q = nextSeq o1 t" "drainPending (set_next o1 t (q + 1)) t = (o2, ds')"
      "ds = (t, q, p) # ds'"
  using assms by (auto simp: Receive_def Let_def split: if_splits prod.splits)

lemma Receive_frame:
  assumes "Receive o1 t q p = (o2, ds)"
  shows "same_elsewhere t o1 o2 \<and> (\<forall>d \<in> set ds. fst d = t)"
  using assms
proof (cases rule: Receive_cases)
  case (ahead ds')
  then show ?thesis using drainPending_frame [OF ahead(3)] by (simp add: same_elsewhere_def)
next
  case (in_order ds')
  then show ?thesis using drainPending_frame [OF in_order(2)] by (simp add: same_elsewhere_def)
qed (simp_all add: same_elsewhere_def)

lemma keys_of_update: "keys_of (set_pending o1 t (AList.update q p (pending o1 t))) t = insert q (keys_of o1 t)"
  by (simp add: keys_of_def dom_update)

lemma slot_advance_Cons:
  assumes "slot_advance (set_next o1 t (q + 1)) t o2 ds" and "nextSeq o1 t \<le> q" and "q < - 2"
  shows "slot_advance o1 t o2 ((t, q, p) # ds)"
  using assms le_Suc64 [OF not_max_if_less(1) [OF assms(3)]]
  by (auto simp: slot_advance_def less_imp_le intro: order_trans)

lemma Receive_advance:
  assumes inv: "slot_inv o1 t" and fit: "fits o1 t q" and r: "Receive o1 t q p = (o2, ds)"
  shows "slot_advance o1 t o2 ds"
  using r
proof (cases rule: Receive_cases)
  case duplicate
  then show ?thesis using inv by (simp add: slot_advance_refl)
next
  case buffered
  have "slot_inv o2 t"
    using inv fit buffered keys_of_update [of o1 t q p]
    by (auto simp: slot_inv_def slot_ready_def fits_def keys_of_def distinct_update)
  then show ?thesis using buffered by (simp add: slot_advance_def)
next
  case (ahead ds')
  have "slot_ready (set_next o1 t (q + 1)) t"
    using ahead fit not_max_if_less [of q] by (auto simp: fits_def slot_ready_def keys_of_def)
  from drainPending_advance [OF this ahead(3)] show ?thesis
    using ahead fit by (auto simp: fits_def intro!: slot_advance_Cons)
next
  case (in_order ds')
  have q: "q < - 2" using fit by (simp add: fits_def)
  have "slot_ready (set_next o1 t (q + 1)) t"
    using in_order inv not_max_if_less [OF q]
    by (auto simp: slot_inv_def slot_ready_def keys_of_def le_Suc64 order.strict_iff_order)
  from drainPending_advance [OF this in_order(2)] show ?thesis
    using in_order q by (auto intro!: slot_advance_Cons)
qed

subsection \<open>Skipping a gap\<close>

lemma foldl_least:
  fixes a :: "'a :: linorder"
  shows "foldl (\<lambda>m k. if k < m then k else m) a xs = Min (insert a (set xs))"
proof (induction xs arbitrary: a)
  case Nil
  then show ?case by simp
next
  case (Cons x xs)
  have "(if x < a then x else a) = min a x" by (auto simp: min_def)
  moreover have "Min (insert (min a x) (set xs)) = Min (insert a (insert x (set xs)))"
    by (cases "xs = []") (simp_all add: min.assoc)
  ultimately show ?case by (simp add: Cons.IH)
qed

lemma skipGap_cases:
  assumes "skipGap o1 t = (o2, ds)" and keys: "\<forall>k \<in> keys_of o1 t. k < - 2"
  obtains (empty) "pending o1 t = []" "o2 = o1" "ds = []"
  | (least) m where "m \<in> keys_of o1 t" "\<forall>k \<in> keys_of o1 t. m \<le> k"
      "drainPending (set_next o1 t m) t = (o2, ds)"
proof -
  let ?m = "Min (insert (- 1) (keys_of o1 t))"
  have fin: "finite (keys_of o1 t)" by (simp add: keys_of_def)
  have eq: "foldl (\<lambda>m seq. if seq < m then seq else m) (- 1) (map fst (pending o1 t)) = ?m"
    by (simp only: foldl_least keys_of_def set_map)
  show thesis
  proof (cases "pending o1 t = []")
    case True
    then have "o2 = o1 \<and> ds = []" using assms(1) by (simp add: skipGap_def)
    with True show thesis using empty by blast
  next
    case False
    then have "keys_of o1 t \<noteq> {}" by (simp add: keys_of_def)
    then obtain k where k: "k \<in> keys_of o1 t" by blast
    have "?m \<le> k" using fin k by (intro Min_le) simp_all
    then have "?m < - 2" using keys k le_less_trans by blast
    then have ne: "?m \<noteq> - 1" by (rule not_max_if_less(1))
    then have "?m \<in> keys_of o1 t" using Min_in [of "insert (- 1) (keys_of o1 t)"] fin by auto
    moreover have "\<forall>k \<in> keys_of o1 t. ?m \<le> k" using fin by (intro ballI Min_le) simp_all
    moreover have "drainPending (set_next o1 t ?m) t = (o2, ds)"
      using assms(1) ne unfolding skipGap_def eq Let_def by (simp only: if_True not_False_eq_True)
    ultimately show thesis by (rule least)
  qed
qed

lemma slot_inv_keys: "slot_inv o1 t \<Longrightarrow> \<forall>k \<in> keys_of o1 t. nextSeq o1 t < k \<and> k < - 2"
  by (auto simp: slot_inv_def slot_ready_def order.strict_iff_order)

lemma slot_ready_least:
  assumes "slot_inv o1 t" and "m \<in> keys_of o1 t" and "\<forall>k \<in> keys_of o1 t. m \<le> k"
  shows "slot_ready (set_next o1 t m) t"
  using assms slot_inv_keys [OF assms(1)] not_max_if_less(1) [of m]
  by (auto simp: slot_inv_def slot_ready_def keys_of_def)

lemma skipGap_advance:
  assumes inv: "slot_inv o1 t" and r: "skipGap o1 t = (o2, ds)"
  shows "slot_advance o1 t o2 ds"
proof -
  have "\<forall>k \<in> keys_of o1 t. k < - 2" using slot_inv_keys [OF inv] by blast
  from r this show ?thesis
  proof (cases rule: skipGap_cases)
    case empty
    then show ?thesis using inv by (simp add: slot_advance_refl)
  next
    case (least m)
    have "slot_advance (set_next o1 t m) t o2 ds"
      using slot_ready_least [OF inv least(1,2)] least(3) by (rule drainPending_advance)
    moreover have "nextSeq o1 t < m" using slot_inv_keys [OF inv] least(1) by blast
    ultimately show ?thesis by (auto simp: slot_advance_def)
  qed
qed

lemma skipGap_frame:
  assumes "skipGap o1 t = (o2, ds)"
  shows "same_elsewhere t o1 o2 \<and> (\<forall>d \<in> set ds. fst d = t)"
proof (cases "foldl (\<lambda>m seq. if seq < m then seq else m) (- 1) (map fst (pending o1 t)) = (- 1 :: uint64)")
  case True
  then show ?thesis using assms by (simp add: skipGap_def same_elsewhere_def)
next
  case False
  then obtain m where "drainPending (set_next o1 t m) t = (o2, ds)"
    using assms by (auto simp: skipGap_def Let_def)
  from drainPending_frame [OF this] show ?thesis by (simp add: same_elsewhere_def)
qed

text \<open>Skipping a gap over a non-empty buffer delivers its lowest entry.\<close>

lemma skipGap_progress:
  assumes inv: "slot_inv o1 t" and ne: "pending o1 t \<noteq> []" and r: "skipGap o1 t = (o2, ds)"
  shows "\<exists>m. m \<in> keys_of o1 t \<and> (\<forall>k \<in> keys_of o1 t. m \<le> k) \<and> m < nextSeq o2 t \<and> hd (seqs_of t ds) = m \<and>
    seqs_of t ds \<noteq> []"
proof -
  have "\<forall>k \<in> keys_of o1 t. k < - 2" using slot_inv_keys [OF inv] by blast
  from r this show ?thesis
  proof (cases rule: skipGap_cases)
    case empty
    then show ?thesis using ne by simp
  next
    case (least m)
    have d: "slot_inv o2 t" "m \<le> nextSeq o2 t"
      "map unat (seqs_of t ds) = [unat m ..< unat (nextSeq o2 t)]"
      "pending o2 t = filter (\<lambda>e. nextSeq o2 t \<le> fst e) (pending o1 t)"
      using drainPending_correct [OF slot_ready_least [OF inv least(1,2)] least(3)] by simp_all
    have "nextSeq o2 t \<noteq> m"
    proof
      assume "nextSeq o2 t = m"
      then have "m \<in> keys_of o2 t" using d(4) least(1) by (auto simp: keys_of_def)
      then show False using d(1) \<open>nextSeq o2 t = m\<close> by (simp add: slot_inv_def)
    qed
    then have lt: "m < nextSeq o2 t" using d(2) by simp
    then have "map unat (seqs_of t ds) = unat m # [Suc (unat m) ..< unat (nextSeq o2 t)]"
      using d(3) by (simp add: word_less_nat_alt upt_conv_Cons)
    then obtain x xs where "seqs_of t ds = x # xs" "unat x = unat m" by auto
    then show ?thesis using least lt by (auto simp: word_unat_eq_iff)
  qed
qed

section \<open>Timers\<close>

text \<open>A slot's timer flag is raised exactly while a timer goroutine of that slot sleeps, and no slot
  has two of them.\<close>

definition timers_inv :: "OrderedApplier \<Rightarrow> bool" where
  "timers_inv o1 \<longleftrightarrow> distinct (map fst (sleeping o1)) \<and>
     (\<forall>t. gapTimers o1 t = (if t \<in> fst ` set (sleeping o1) then 1 else 0))"

lemma timers_inv_start [inv_intro]: "timers_inv o1 \<Longrightarrow> timers_inv (startGapTimer o1 t e)"
  by (auto simp: timers_inv_def startGapTimer_def)

lemma timers_inv_cong [simp]:
  "timers_inv (o1\<lparr>nextSeq := a\<rparr>) = timers_inv o1" "timers_inv (o1\<lparr>pending := b\<rparr>) = timers_inv o1"
  by (simp_all add: timers_inv_def)

lemma timers_inv_drainPending [inv_intro]:
  assumes "timers_inv o1" and "drainPending o1 t = (o2, ds)"
  shows "timers_inv o2"
proof -
  obtain o' where d: "drainLoop o1 t = (o', ds)"
    using assms by (auto simp: drainPending_def split: prod.splits)
  then have "timers_inv o'" using drainLoop_frame [OF d] assms(1) by (simp add: timers_inv_def)
  then show ?thesis
    using assms(2) d by (auto simp: drainPending_def intro: timers_inv_start split: if_splits)
qed

lemma timers_inv_Receive [inv_intro]:
  assumes "timers_inv o1" and "Receive o1 t q p = (o2, ds)"
  shows "timers_inv o2"
  using assms(2)
proof (cases rule: Receive_cases)
  case (ahead ds')
  then show ?thesis using assms(1) by (auto elim!: timers_inv_drainPending [rotated])
next
  case (in_order ds')
  then show ?thesis using assms(1) by (auto elim!: timers_inv_drainPending [rotated])
qed (use assms(1) in \<open>auto intro: timers_inv_start\<close>)

lemma timers_inv_skipGap [inv_intro]:
  "timers_inv o1 \<Longrightarrow> skipGap o1 t = (o2, ds) \<Longrightarrow> timers_inv o2"
  by (auto simp: skipGap_def Let_def elim!: timers_inv_drainPending [rotated] split: if_splits)

text \<open>Waking the \<open>i\<close>-th sleeper removes it and lowers its slot's flag.\<close>

abbreviation wake_start :: "OrderedApplier \<Rightarrow> nat \<Rightarrow> OrderedApplier" where
  "wake_start o1 i \<equiv> o1\<lparr>sleeping := take i (sleeping o1) @ drop (Suc i) (sleeping o1),
     gapTimers := (gapTimers o1)(fst (sleeping o1 ! i) := 0)\<rparr>"

lemma timers_inv_wake_start:
  assumes inv: "timers_inv o1" and i: "i < length (sleeping o1)"
  shows "timers_inv (wake_start o1 i)"
proof -
  let ?s = "sleeping o1"
  have split: "?s = take i ?s @ ?s ! i # drop (Suc i) ?s" using i by (rule id_take_nth_drop)
  have d: "distinct (map fst (take i ?s @ ?s ! i # drop (Suc i) ?s))"
    using inv split by (simp add: timers_inv_def)
  have s: "fst ` set ?s = insert (fst (?s ! i)) (fst ` set (take i ?s @ drop (Suc i) ?s))"
    by (subst split) auto
  have "fst (?s ! i) \<notin> fst ` set (take i ?s @ drop (Suc i) ?s)" using d by auto
  then show ?thesis
    using inv d by (auto simp: timers_inv_def s)
qed

section \<open>The buffer window\<close>

text \<open>Every buffered number is at most \<open>maxGapBuffer\<close> ahead of the expected one.\<close>

definition slot_window :: "OrderedApplier \<Rightarrow> uint16 \<Rightarrow> bool" where
  "slot_window o1 t \<longleftrightarrow> 0 \<le> maxGapBuffer o1 \<and>
     (\<forall>k \<in> keys_of o1 t. unat k \<le> unat (nextSeq o1 t) + nat (maxGapBuffer o1))"

lemma slot_window_mono:
  assumes "slot_window o1 t" and "keys_of o2 t \<subseteq> keys_of o1 t"
    and "nextSeq o1 t \<le> nextSeq o2 t" and "maxGapBuffer o2 = maxGapBuffer o1"
  shows "slot_window o2 t"
  using assms by (force simp: slot_window_def word_le_nat_alt)

lemma drainPending_window:
  assumes "slot_ready o1 t" and "slot_window o1 t" and "drainPending o1 t = (o2, ds)"
  shows "slot_window o2 t"
proof (rule slot_window_mono [OF assms(2)])
  show "keys_of o2 t \<subseteq> keys_of o1 t"
    using drainPending_correct [OF assms(1,3)] by (auto simp: keys_of_def)
qed (use drainPending_correct [OF assms(1,3)] drainPending_frame [OF assms(3)] in
  \<open>simp_all add: same_elsewhere_def\<close>)

lemma unat_of_int_le:
  assumes "0 \<le> m"
  shows "unat (of_int m :: uint64) \<le> nat m"
proof -
  have "(of_int m :: uint64) = of_nat (nat m)" using assms by simp
  then have "unat (of_int m :: uint64) = nat m mod 2 ^ LENGTH(64)" by (simp only: unat_of_nat)
  then show ?thesis by simp
qed

lemma gap_within:
  assumes "n < q" and "q - n \<le> (of_int m :: uint64)" and "0 \<le> m"
  shows "unat q \<le> unat n + nat m"
proof -
  have "unat (q - n) = unat q - unat n"
    using assms(1) by (simp add: unat_sub word_less_nat_alt word_le_nat_alt)
  moreover have "unat (q - n) \<le> nat m"
    using assms(2) unat_of_int_le [OF assms(3)] by (simp add: word_le_nat_alt)
  ultimately show ?thesis by linarith
qed

lemma slot_window_set_next:
  "slot_window o1 t \<Longrightarrow> nextSeq o1 t \<le> n \<Longrightarrow> slot_window (set_next o1 t n) t"
  by (rule slot_window_mono) (auto simp: keys_of_def)

lemma slot_ready_in_order:
  assumes "slot_inv o1 t" and "nextSeq o1 t < - 2"
  shows "slot_ready (set_next o1 t (nextSeq o1 t + 1)) t"
  using assms not_max_if_less [OF assms(2)]
  by (auto simp: slot_inv_def slot_ready_def keys_of_def le_Suc64 order.strict_iff_order)

lemma Receive_window:
  assumes inv: "slot_inv o1 t" and fit: "fits o1 t q" and w: "slot_window o1 t"
    and r: "Receive o1 t q p = (o2, ds)"
  shows "slot_window o2 t"
  using r
proof (cases rule: Receive_cases)
  case duplicate
  then show ?thesis using w by simp
next
  case buffered
  then show ?thesis
    using w gap_within [of "nextSeq o1 t" q "maxGapBuffer o1"] keys_of_update [of o1 t q p]
    by (auto simp: slot_window_def keys_of_def)
next
  case (ahead ds')
  then have "pending o1 t = []" using fit by (auto simp: fits_def dest: leD)
  then have "slot_window (set_next o1 t (q + 1)) t" "slot_ready (set_next o1 t (q + 1)) t"
    using w fit not_max_if_less [of q]
    by (auto simp: slot_window_def slot_ready_def keys_of_def fits_def)
  then show ?thesis using ahead(3) by (blast intro: drainPending_window)
next
  case (in_order ds')
  have q: "q < - 2" using fit by (simp add: fits_def)
  have "slot_window (set_next o1 t (q + 1)) t"
    using w in_order(1) le_Suc64 [OF not_max_if_less(1) [OF q]] less_Suc64 [OF not_max_if_less(1) [OF q]]
    by (auto intro!: slot_window_set_next less_imp_le)
  then show ?thesis
    using slot_ready_in_order [OF inv] q in_order by (blast intro: drainPending_window)
qed

lemma skipGap_window:
  assumes inv: "slot_inv o1 t" and w: "slot_window o1 t" and r: "skipGap o1 t = (o2, ds)"
  shows "slot_window o2 t"
proof -
  have "\<forall>k \<in> keys_of o1 t. k < - 2" using slot_inv_keys [OF inv] by blast
  from r this show ?thesis
  proof (cases rule: skipGap_cases)
    case empty
    then show ?thesis using w by simp
  next
    case (least m)
    have "nextSeq o1 t \<le> m" using slot_inv_keys [OF inv] least(1) by (simp add: less_imp_le)
    then show ?thesis
      using slot_ready_least [OF inv least(1,2)] slot_window_set_next [OF w] least(3)
      by (blast intro: drainPending_window)
  qed
qed

text \<open>The window bounds the buffer.\<close>

lemma slot_window_length:
  assumes "slot_inv o1 t" and "slot_window o1 t"
  shows "length (pending o1 t) \<le> nat (maxGapBuffer o1)"
proof -
  let ?n = "unat (nextSeq o1 t)"
  have "unat ` keys_of o1 t \<subseteq> {Suc ?n .. ?n + nat (maxGapBuffer o1)}"
    using slot_inv_keys [OF assms(1)] assms(2)
    by (auto simp: slot_window_def word_less_nat_alt Suc_le_eq)
  then have "card (unat ` keys_of o1 t) \<le> card {Suc ?n .. ?n + nat (maxGapBuffer o1)}"
    by (rule card_mono [OF finite_atLeastAtMost])
  moreover have "card (unat ` keys_of o1 t) = card (keys_of o1 t)"
    by (intro card_image inj_onI) (simp add: word_unat_eq_iff)
  moreover have "card (keys_of o1 t) = length (pending o1 t)"
    using assms(1) distinct_card [of "map fst (pending o1 t)"]
    by (simp add: slot_inv_def slot_ready_def keys_of_def)
  ultimately show ?thesis by simp
qed

lemma advance_elsewhere:
  assumes "same_elsewhere u o1 o2" and "\<forall>d \<in> set ds. fst d = u" and "t \<noteq> u" and "slot_inv o1 t"
  shows "slot_advance o1 t o2 ds"
proof -
  have "seqs_of t ds = []" using assms(2,3) by (auto simp: seqs_of_def filter_empty_conv)
  then show ?thesis
    using assms slot_inv_cong [of o2 t o1] by (simp add: slot_advance_def same_elsewhere_def)
qed

lemma window_elsewhere:
  "same_elsewhere u o1 o2 \<Longrightarrow> t \<noteq> u \<Longrightarrow> slot_window o1 t \<Longrightarrow> slot_window o2 t"
  by (simp add: slot_window_def same_elsewhere_def keys_of_def)

text \<open>The arrivals of a run fit one slot, and its numbers stay clear of the top of the range.\<close>

fun run_fits :: "('e \<Rightarrow> gap_callback) option \<Rightarrow> OrderedApplier \<Rightarrow> uint16 \<Rightarrow> 'e applier_event list \<Rightarrow> bool" where
  "run_fits onGap o1 t [] = True"
| "run_fits onGap o1 t (e # es) =
     ((case e of Recv u q p \<Rightarrow> u = t \<longrightarrow> fits o1 t q | Wake i _ \<Rightarrow> nextSeq o1 t < - 2) \<and>
      run_fits onGap (fst (applier_step onGap o1 e)) t es)"

section \<open>The contract of the gap callback\<close>

text \<open>What the applier expects of \<open>onGap\<close>: it either reports failure and leaves the applier alone,
  or it has handed the missing entry to \<open>Receive\<close>.\<close>

locale gap_repair =
  fixes onGap :: "'e \<Rightarrow> gap_callback"
  assumes not_filled: "onGap e t q o1 = (False, o2, ds) \<Longrightarrow> o2 = o1 \<and> ds = []"
    and filled: "onGap e t q o1 = (True, o2, ds) \<Longrightarrow> \<exists>p. Receive o1 t q p = (o2, ds)"
begin

lemma wake_cases:
  assumes "wake_nth (Some (onGap e)) o1 i = (o2, ds)"
  obtains (none) "\<not> i < length (sleeping o1)" "o2 = o1" "ds = []"
  | (stale) "i < length (sleeping o1)" "o2 = wake_start o1 i" "ds = []"
  | (repaired) p where "i < length (sleeping o1)" "nextSeq o1 (fst (sleeping o1 ! i)) = snd (sleeping o1 ! i)"
      "Receive (wake_start o1 i) (fst (sleeping o1 ! i)) (snd (sleeping o1 ! i)) p = (o2, ds)"
  | (skipped) "i < length (sleeping o1)" "nextSeq o1 (fst (sleeping o1 ! i)) = snd (sleeping o1 ! i)"
      "skipGap (wake_start o1 i) (fst (sleeping o1 ! i)) = (o2, ds)"
proof (cases "i < length (sleeping o1)")
  case False
  then have "o2 = o1" "ds = []" using assms by (simp_all add: wake_nth_def)
  with False show thesis by (rule none)
next
  case i: True
  let ?t = "fst (sleeping o1 ! i)" and ?e = "snd (sleeping o1 ! i)"
  have w: "gapTimer_wake (Some (onGap e))
      (o1\<lparr>sleeping := take i (sleeping o1) @ drop (Suc i) (sleeping o1)\<rparr>) ?t ?e = (o2, ds)"
    using assms i by (simp add: wake_nth_def)
  show thesis
  proof (cases "nextSeq o1 ?t = ?e")
    case False
    then have "o2 = wake_start o1 i" "ds = []" using w by (simp_all add: gapTimer_wake_def Let_def)
    with i show thesis by (rule stale)
  next
    case True
    obtain b o3 ds3 where f: "onGap e ?t ?e (wake_start o1 i) = (b, o3, ds3)" by (metis prod_cases3)
    show thesis
    proof (cases b)
      case b: True
      then have "o3 = o2 \<and> ds3 = ds" using w f True by (simp add: gapTimer_wake_def Let_def)
      moreover obtain p where "Receive (wake_start o1 i) ?t ?e p = (o3, ds3)"
        using filled [of e ?t ?e "wake_start o1 i" o3 ds3] f b by auto
      ultimately have "Receive (wake_start o1 i) ?t ?e p = (o2, ds)" by simp
      with i True show thesis by (rule repaired)
    next
      case b: False
      then have "o3 = wake_start o1 i \<and> ds3 = []"
        using not_filled [of e ?t ?e "wake_start o1 i" o3 ds3] f by simp
      then have "skipGap (wake_start o1 i) ?t = (o2, ds)"
        using w f b True by (auto simp: gapTimer_wake_def Let_def split: prod.splits)
      with i True show thesis by (rule skipped)
    qed
  qed
qed

lemma timers_inv_wake:
  assumes "timers_inv o1" and "wake_nth (Some (onGap e)) o1 i = (o2, ds)"
  shows "timers_inv o2"
  using assms(2)
proof (cases rule: wake_cases)
  case (repaired p)
  then show ?thesis using assms(1) by (blast intro: timers_inv_wake_start timers_inv_Receive)
next
  case skipped
  then show ?thesis using assms(1) by (blast intro: timers_inv_wake_start timers_inv_skipGap)
qed (use assms(1) in \<open>simp_all add: timers_inv_wake_start\<close>)

lemma timers_inv_run: "timers_inv o1 \<Longrightarrow> applier_run (Some onGap) o1 es = (o2, ds) \<Longrightarrow> timers_inv o2"
proof (induction es arbitrary: o1 ds)
  case Nil
  then show ?case by simp
next
  case (Cons e es)
  obtain o' ds' where s: "applier_step (Some onGap) o1 e = (o', ds')" by (metis surj_pair)
  have "timers_inv o'"
    using s Cons.prems(1) by (cases e) (auto intro: timers_inv_Receive timers_inv_wake)
  then show ?case using Cons s by (auto split: prod.splits)
qed

lemma wake_advance:
  assumes inv: "slot_inv o1 t" and n: "nextSeq o1 t < - 2" and w: "wake_nth (Some (onGap e)) o1 i = (o2, ds)"
  shows "slot_advance o1 t o2 ds \<and> (slot_window o1 t \<longrightarrow> slot_window o2 t)"
proof -
  let ?u = "fst (sleeping o1 ! i)"
  have inv': "slot_inv (wake_start o1 i) t" and win': "slot_window (wake_start o1 i) t = slot_window o1 t"
    using inv slot_inv_cong [of "wake_start o1 i" t o1]
    by (simp_all add: slot_window_def keys_of_def)
  have else': "slot_advance o1 t o2 ds \<and> (slot_window o1 t \<longrightarrow> slot_window o2 t)"
    if "same_elsewhere ?u (wake_start o1 i) o2" "\<forall>d \<in> set ds. fst d = ?u" "t \<noteq> ?u"
    using advance_elsewhere [OF that inv'] window_elsewhere [OF that(1,3)] win'
    by (simp add: slot_advance_def)
  from w show ?thesis
  proof (cases rule: wake_cases)
    case none
    then show ?thesis using inv by (simp add: slot_advance_refl)
  next
    case stale
    then show ?thesis using inv' win' by (simp add: slot_advance_def)
  next
    case (repaired p)
    show ?thesis
    proof (cases "t = ?u")
      case True
      then have "fits (wake_start o1 i) t (nextSeq o1 t)" using n by (simp add: fits_def)
      moreover have r: "Receive (wake_start o1 i) t (nextSeq o1 t) p = (o2, ds)"
        using repaired(2,3) True by simp
      ultimately show ?thesis
        using Receive_advance [OF inv' _ r] Receive_window [OF inv' _ _ r] win'
        by (simp add: slot_advance_def)
    next
      case False
      then show ?thesis using Receive_frame [OF repaired(3)] else' by blast
    qed
  next
    case skipped
    show ?thesis
    proof (cases "t = ?u")
      case True
      then have r: "skipGap (wake_start o1 i) t = (o2, ds)" using skipped(3) by simp
      then show ?thesis
        using skipGap_advance [OF inv' r] skipGap_window [OF inv' _ r] win'
        by (simp add: slot_advance_def)
    next
      case False
      then show ?thesis using skipGap_frame [OF skipped(3)] else' by blast
    qed
  qed
qed

lemma run_advance:
  "slot_inv o1 t \<Longrightarrow> run_fits (Some onGap) o1 t es \<Longrightarrow> applier_run (Some onGap) o1 es = (o2, ds) \<Longrightarrow>
   slot_advance o1 t o2 ds \<and> (slot_window o1 t \<longrightarrow> slot_window o2 t)"
proof (induction es arbitrary: o1 ds)
  case Nil
  then show ?case by (simp add: slot_advance_refl)
next
  case (Cons e es)
  obtain o' ds1 where s: "applier_step (Some onGap) o1 e = (o', ds1)" by (metis surj_pair)
  obtain ds2 where r: "applier_run (Some onGap) o' es = (o2, ds2)" and ds: "ds = ds1 @ ds2"
    using Cons.prems(3) s by (auto split: prod.splits)
  have step: "slot_advance o1 t o' ds1 \<and> (slot_window o1 t \<longrightarrow> slot_window o' t)"
  proof (cases e)
    case (Recv u q p)
    then have r: "Receive o1 u q p = (o', ds1)" using s by simp
    show ?thesis
    proof (cases "u = t")
      case True
      then show ?thesis
        using Receive_advance [OF Cons.prems(1) _ r [unfolded True]]
          Receive_window [OF Cons.prems(1) _ _ r [unfolded True]] Cons.prems(2) Recv by simp
    next
      case False
      then show ?thesis
        using Receive_frame [OF r] advance_elsewhere [of u o1 o' ds1 t] Cons.prems(1)
          window_elsewhere [of u o1 o' t] by simp
    qed
  next
    case (Wake i e')
    then show ?thesis using wake_advance [OF Cons.prems(1), of e' i o' ds1] s Cons.prems(2) by simp
  qed
  moreover have "slot_advance o' t o2 ds2 \<and> (slot_window o' t \<longrightarrow> slot_window o2 t)"
    using Cons.IH [OF _ _ r] step Cons.prems(2) s by (simp add: slot_advance_def)
  ultimately show ?case using slot_advance_trans ds by blast
qed

end

end
