(* ===== verification/ApplierOrder.thy ===== *)
theory ApplierOrder
  imports OrderedApplier
begin

text \<open>
  What \<open>OrderedApplier\<close> does with a stream of arrivals: within the buffer window it delivers
  the longest unbroken run of what has arrived, in order, whatever the order of arrival. The
  last section holds two runs in which it does not live up to its comments.
\<close>

section \<open>Arrivals in any order\<close>

definition recv_seqs :: "uint16 \<Rightarrow> 'e applier_event list \<Rightarrow> uint64 set" where
  "recv_seqs t es = {q. \<exists>p. Recv t q p \<in> set es}"

definition is_recv :: "'e applier_event \<Rightarrow> bool" where
  "is_recv e = (case e of Recv t q p \<Rightarrow> True | Wake i e \<Rightarrow> False)"

text \<open>The state of a slot that started empty at \<open>n\<close> and has seen the numbers \<open>R\<close>: it expects the
  least number from \<open>n\<close> on that is missing in \<open>R\<close>, and it buffers what lies beyond.\<close>

definition reordered :: "uint16 \<Rightarrow> uint64 \<Rightarrow> uint64 set \<Rightarrow> OrderedApplier \<Rightarrow> bool" where
  "reordered t n R o1 \<longleftrightarrow> slot_inv o1 t \<and> n \<le> nextSeq o1 t \<and> {n ..< nextSeq o1 t} \<subseteq> R \<and>
     nextSeq o1 t \<notin> R \<and> keys_of o1 t = {q \<in> R. nextSeq o1 t < q}"

lemma drainPending_run:
  assumes "slot_ready o1 t" and "drainPending o1 t = (o2, ds)"
  shows "{nextSeq o1 t ..< nextSeq o2 t} \<subseteq> keys_of o1 t \<and>
    keys_of o2 t = {q \<in> keys_of o1 t. nextSeq o2 t \<le> q}"
proof -
  note c = drainPending_correct [OF assms]
  have f: "\<forall>d \<in> set ds. fst d = t" using drainPending_frame [OF assms(2)] by blast
  have "q \<in> keys_of o1 t" if "nextSeq o1 t \<le> q" "q < nextSeq o2 t" for q
  proof -
    have "unat q \<in> set (map unat (seqs_of t ds))"
      using c that by (simp add: word_le_nat_alt word_less_nat_alt)
    then have "q \<in> set (seqs_of t ds)" by (auto simp flip: word_unat_eq_iff)
    then obtain p where "(t, q, p) \<in> set ds" by (auto simp: seqs_of_def)
    then have "(q, p) \<in> set (pending o1 t)" using c by force
    then show ?thesis by (force simp: keys_of_def)
  qed
  moreover have "keys_of o2 t = {q \<in> keys_of o1 t. nextSeq o2 t \<le> q}"
    using c by (auto simp: keys_of_def)
  ultimately show ?thesis by auto
qed

lemma reordered_in_order:
  assumes re: "reordered t n R o1" and q: "nextSeq o1 t < - 2"
    and d: "drainPending (set_next o1 t (nextSeq o1 t + 1)) t = (o2, ds)"
  shows "reordered t n (insert (nextSeq o1 t) R) o2"
proof -
  let ?q = "nextSeq o1 t"
  have inv: "slot_inv o1 t" using re by (simp add: reordered_def)
  note rdy = slot_ready_in_order [OF inv q]
  note run = drainPending_run [OF rdy d] and cor = drainPending_correct [OF rdy d]
  have k: "keys_of (set_next o1 t (?q + 1)) t = {x \<in> R. ?q < x}"
    using re by (simp add: reordered_def keys_of_def)
  have nx: "?q < nextSeq o2 t" using cor le_Suc64 [OF not_max_if_less(1) [OF q]] by simp
  have run': "{?q + 1 ..< nextSeq o2 t} \<subseteq> R" using run k by auto
  have sub: "{n ..< nextSeq o2 t} \<subseteq> insert ?q R"
  proof
    fix x assume x: "x \<in> {n ..< nextSeq o2 t}"
    consider "x < ?q" | "x = ?q" | "?q + 1 \<le> x"
      using le_Suc64 [OF not_max_if_less(1) [OF q], of x] by fastforce
    then show "x \<in> insert ?q R"
    proof cases
      case 1
      then show ?thesis using re x by (auto simp: reordered_def)
    next
      case 3
      then show ?thesis using run' x by auto
    qed simp
  qed
  have out: "nextSeq o2 t \<notin> insert ?q R"
    using cor run k nx by (auto simp: slot_inv_def)
  have keys: "keys_of o2 t = {x \<in> insert ?q R. nextSeq o2 t < x}"
    using cor run k nx out by (auto simp: slot_inv_def order.strict_iff_order intro: order.strict_trans2)
  show ?thesis
    using cor nx re sub out keys by (auto simp: reordered_def intro: order_trans less_imp_le)
qed

lemma reordered_Receive:
  assumes re: "reordered t n R o1" and q: "q < - 2"
    and gap: "q \<le> nextSeq o1 t \<or> q - nextSeq o1 t \<le> of_int (maxGapBuffer o1)"
    and r: "Receive o1 t q p = (o2, ds)"
  shows "reordered t n (insert q R) o2"
proof -
  have inv: "slot_inv o1 t" using re by (simp add: reordered_def)
  have "slot_inv o2 t"
    using Receive_advance [OF inv _ r] q gap by (auto simp: fits_def slot_advance_def)
  note inv2 = this
  from r show ?thesis
  proof (cases rule: Receive_cases)
    case duplicate
    then show ?thesis using re by (auto simp: reordered_def)
  next
    case buffered
    then show ?thesis
      using re inv2 keys_of_update [of o1 t q p] by (auto simp: reordered_def keys_of_def)
  next
    case (ahead ds')
    then show ?thesis using gap by auto
  next
    case (in_order ds')
    then show ?thesis using reordered_in_order [OF re] q by blast
  qed
qed

lemma applier_run_snoc:
  "applier_run g o1 (es @ [e]) =
     (fst (applier_step g (fst (applier_run g o1 es)) e),
      snd (applier_run g o1 es) @ snd (applier_step g (fst (applier_run g o1 es)) e))"
  by (induction es arbitrary: o1) (simp_all add: split_beta)

lemma Receive_contiguous:
  assumes inv: "slot_inv o1 t" and q: "q < - 2"
    and gap: "q \<le> nextSeq o1 t \<or> q - nextSeq o1 t \<le> of_int (maxGapBuffer o1)"
    and r: "Receive o1 t q p = (o2, ds)"
  shows "map unat (seqs_of t ds) = [unat (nextSeq o1 t) ..< unat (nextSeq o2 t)] \<and>
    snd ` set ds \<subseteq> insert (q, p) (set (pending o1 t)) \<and>
    set (pending o2 t) \<subseteq> insert (q, p) (set (pending o1 t))"
  using r
proof (cases rule: Receive_cases)
  case buffered
  then show ?thesis using set_alist_update [of q p "pending o1 t"] by simp
next
  case (in_order ds')
  have n: "nextSeq o1 t < - 2" using in_order(1) q by simp
  note c = drainPending_correct [OF slot_ready_in_order [OF inv n]]
  have c': "drainPending (set_next o1 t (nextSeq o1 t + 1)) t = (o2, ds')" using in_order by simp
  have "nextSeq o1 t < nextSeq o2 t" using c [OF c'] le_Suc64 [OF not_max_if_less(1) [OF n]] by simp
  then have "[unat (nextSeq o1 t) ..< unat (nextSeq o2 t)] =
      unat (nextSeq o1 t) # [Suc (unat (nextSeq o1 t)) ..< unat (nextSeq o2 t)]"
    by (simp add: word_less_nat_alt upt_conv_Cons)
  then show ?thesis
    using c [OF c'] in_order unat_Suc64 [OF not_max_if_less(1) [OF n]] by auto
qed (use gap in auto)

lemma window_gap:
  assumes "n \<le> m" and "m < q" and "unat q \<le> unat n + nat b" and "0 \<le> b"
    and "unat n + nat b < 18446744073709551614"
  shows "q - m \<le> (of_int b :: uint64)"
proof -
  have "(of_int b :: uint64) = of_nat (nat b)" using assms(4) by simp
  then have "unat (of_int b :: uint64) = nat b mod 2 ^ LENGTH(64)" by (simp only: unat_of_nat)
  then have b: "unat (of_int b :: uint64) = nat b" using assms(5) by simp
  have "unat (q - m) = unat q - unat m"
    using assms(2) by (simp add: unat_sub word_less_nat_alt word_le_nat_alt)
  then show ?thesis using assms(1,3) b by (simp add: word_le_nat_alt)
qed

text \<open>What a run of arrivals \<open>es\<close> with the deliveries \<open>ds\<close> leaves: the deliveries of the slot are the numbers
  from \<open>n\<close> up to the next one, and every entry buffered or delivered arrived.\<close>

definition run_so_far ::
  "uint16 \<Rightarrow> uint64 \<Rightarrow> int \<Rightarrow> 'e applier_event list \<Rightarrow> OrderedApplier \<Rightarrow> delivery list \<Rightarrow> bool" where
  "run_so_far t n b es o1 ds \<longleftrightarrow> reordered t n (recv_seqs t es) o1 \<and> maxGapBuffer o1 = b \<and>
     map unat (seqs_of t ds) = [unat n ..< unat (nextSeq o1 t)] \<and>
     (\<forall>q p. (q, p) \<in> set (pending o1 t) \<longrightarrow> Recv t q p \<in> set es) \<and>
     (\<forall>q p. (t, q, p) \<in> set ds \<longrightarrow> Recv t q p \<in> set es)"

lemma run_elsewhere:
  assumes "run_so_far t n b es o1 ds" and "Receive o1 u q p = (o2, ds')" and "u \<noteq> t"
  shows "run_so_far t n b (es @ [Recv u q p]) o2 (ds @ ds')"
proof -
  have f: "same_elsewhere u o1 o2" "\<forall>d \<in> set ds'. fst d = u" using Receive_frame [OF assms(2)] by simp_all
  have "recv_seqs t (es @ [Recv u q p]) = recv_seqs t es" using assms(3) by (auto simp: recv_seqs_def)
  moreover have "nextSeq o2 t = nextSeq o1 t" "pending o2 t = pending o1 t" "maxGapBuffer o2 = maxGapBuffer o1"
    using f assms(3) by (simp_all add: same_elsewhere_def)
  moreover have "seqs_of t ds' = []" using f(2) assms(3) by (auto simp: seqs_of_def filter_empty_conv)
  ultimately show ?thesis
    using assms(1,3) f(2) slot_inv_cong [of o2 t o1] by (auto simp: run_so_far_def reordered_def keys_of_def)
qed

lemma run_here:
  assumes run: "run_so_far t n b es o1 ds" and r: "Receive o1 t q p = (o2, ds')" and "0 \<le> b"
    and qb: "unat q \<le> unat n + nat b" and top: "unat n + nat b < 18446744073709551614"
  shows "run_so_far t n b (es @ [Recv t q p]) o2 (ds @ ds')"
proof -
  have re: "reordered t n (recv_seqs t es) o1" and mg: "maxGapBuffer o1 = b" using run by (simp_all add: run_so_far_def)
  then have inv: "slot_inv o1 t" and le: "n \<le> nextSeq o1 t" by (simp_all add: reordered_def)
  have ins: "recv_seqs t (es @ [Recv t q p]) = insert q (recv_seqs t es)" by (auto simp: recv_seqs_def)
  have q: "q < - 2" using top qb by (simp add: word_less_nat_alt)
  have gap: "q \<le> nextSeq o1 t \<or> q - nextSeq o1 t \<le> of_int (maxGapBuffer o1)"
    using window_gap [OF le _ qb assms(3) top] mg by (cases "q \<le> nextSeq o1 t") auto
  note c = Receive_contiguous [OF inv q gap r]
  have nx: "nextSeq o1 t \<le> nextSeq o2 t"
    using Receive_advance [OF inv _ r] q gap by (auto simp: fits_def slot_advance_def)
  have "[unat n ..< unat (nextSeq o1 t)] @ [unat (nextSeq o1 t) ..< unat (nextSeq o2 t)] = [unat n ..< unat (nextSeq o2 t)]"
    using le nx by (metis upt_add_eq_append le_add_diff_inverse word_le_nat_alt)
  moreover have "maxGapBuffer o2 = b" using Receive_frame [OF r] mg by (simp add: same_elsewhere_def)
  ultimately show ?thesis
    using run reordered_Receive [OF re q gap r] c unfolding run_so_far_def ins by auto
qed

lemma run_reordered:
  assumes "list_all is_recv es" and "pending o1 t = []" and "0 \<le> maxGapBuffer o1"
    and "\<forall>q \<in> recv_seqs t es. unat q \<le> unat (nextSeq o1 t) + nat (maxGapBuffer o1)"
    and top: "unat (nextSeq o1 t) + nat (maxGapBuffer o1) < 18446744073709551614"
  shows "run_so_far t (nextSeq o1 t) (maxGapBuffer o1) es (fst (applier_run g o1 es)) (snd (applier_run g o1 es))"
  using assms(1,4)
proof (induction es rule: rev_induct)
  case Nil
  have "nextSeq o1 t \<noteq> - 1"
    using top by (auto simp: unsigned_minus_1_eq_mask mask_eq_exp_minus_1)
  then show ?case
    using assms(2) by (simp add: run_so_far_def reordered_def recv_seqs_def slot_inv_def slot_ready_def keys_of_def)
next
  case (snoc e es)
  let ?o = "fst (applier_run g o1 es)" and ?ds = "snd (applier_run g o1 es)"
  have "recv_seqs t es \<subseteq> recv_seqs t (es @ [e])" by (auto simp: recv_seqs_def)
  then have run: "run_so_far t (nextSeq o1 t) (maxGapBuffer o1) es ?o ?ds" using snoc by auto
  obtain u q p where e: "e = Recv u q p"
    using snoc.prems(1) by (cases e) (auto simp: is_recv_def)
  obtain o2 ds where r: "Receive ?o u q p = (o2, ds)" by fastforce
  have "run_so_far t (nextSeq o1 t) (maxGapBuffer o1) (es @ [e]) o2 (?ds @ ds)"
  proof (cases "u = t")
    case True
    have "q \<in> recv_seqs t (es @ [e])" using e True by (auto simp: recv_seqs_def)
    then show ?thesis using run_here [OF run _ assms(3) _ top] r e True snoc.prems(2) by blast
  qed (use run_elsewhere [OF run r] e in simp)
  then show ?case using r e by (simp add: applier_run_snoc)
qed


section \<open>Properties\<close>

text \<open>C5: within the buffer window the applier turns any order of arrival into in-order delivery.
  From an empty buffer that expects \<open>n\<close>, after arrivals none of which is more than
  \<open>maxGapBuffer\<close> beyond \<open>n\<close>, it has delivered exactly \<open>n, n + 1, \<dots>\<close> up to the first number
  that has not arrived, each once, with a payload that arrived under that number; it expects
  that missing number and buffers exactly the arrivals beyond it. The arrivals of other slots
  may be interleaved.\<close>

theorem Receive_reorders:
  assumes "list_all is_recv es" and "pending o1 t = []" and "0 \<le> maxGapBuffer o1"
    and "\<forall>q \<in> recv_seqs t es. unat q \<le> unat (nextSeq o1 t) + nat (maxGapBuffer o1)"
    and "unat (nextSeq o1 t) + nat (maxGapBuffer o1) < 18446744073709551614"
    and "applier_run g o1 es = (o2, ds)"
  shows "map unat (seqs_of t ds) = [unat (nextSeq o1 t) ..< unat (nextSeq o2 t)] \<and>
    {nextSeq o1 t ..< nextSeq o2 t} \<subseteq> recv_seqs t es \<and> nextSeq o2 t \<notin> recv_seqs t es \<and>
    keys_of o2 t = {q \<in> recv_seqs t es. nextSeq o2 t < q} \<and>
    (\<forall>q p. (t, q, p) \<in> set ds \<longrightarrow> Recv t q p \<in> set es)"
  using run_reordered [OF assms(1-5), of g] assms(6) by (simp add: run_so_far_def reordered_def)

definition applier_at :: "uint64 \<Rightarrow> OrderedApplier" where
  "applier_at n = SetNextSeq NewOrderedApplier 0 n"

lemmas applier_eval = applier_at_def SetNextSeq_def NewOrderedApplier_def Receive_def drainPending_def
  drainLoop.simps startGapTimer_def wake_nth_def gapTimer_wake_def skipGap_def seqs_of_def Let_def

definition shuffled :: "unit applier_event list" where
  "shuffled = [Recv 0 3 [33], Recv 0 5 [55], Recv 0 1 [11], Recv 0 2 [22], Recv 0 2 [99]]"

lemma shuffled_run:
  "snd (applier_run None (applier_at 1) shuffled) = [(0, 1, [11]), (0, 2, [22]), (0, 3, [33])]"
  by (simp add: shuffled_def applier_eval)

theorem Receive_reorders_witness:
  "map unat (seqs_of 0 (snd (applier_run None (applier_at 1) shuffled))) =
     [unat (1 :: uint64) ..< unat (nextSeq (fst (applier_run None (applier_at 1) shuffled)) 0)] \<and>
   seqs_of 0 (snd (applier_run None (applier_at 1) shuffled)) = [1, 2, 3]"
proof -
  have r: "recv_seqs 0 shuffled = {1, 2, 3, 5}"
    by (auto simp: recv_seqs_def shuffled_def)
  obtain o2 ds where run: "applier_run None (applier_at 1) shuffled = (o2, ds)" by fastforce
  have "map unat (seqs_of 0 ds) =
      [unat (nextSeq (applier_at 1) 0) ..< unat (nextSeq o2 0)]"
    by (rule Receive_reorders [OF _ _ _ _ _ run, THEN conjunct1])
      (simp_all add: r, simp_all add: shuffled_def is_recv_def applier_eval)
  moreover have "nextSeq (applier_at 1) 0 = 1" by (simp add: applier_eval)
  moreover have "ds = [(0, 1, [11]), (0, 2, [22]), (0, 3, [33])]" using shuffled_run run by simp
  ultimately show ?thesis by (simp add: run)
qed



end
