(* ===== verification/Overlay.thy ===== *)
theory Overlay
  imports Prelude "HOL-Library.Sublist" "HOL-Library.Multiset"
begin

text \<open>
  \<open>overlay/overlay.go\<close>: classification of peers into eager and lazy by round-trip time.

  Counts and durations are \<open>int\<close>; durations are nanoseconds. The flag slices \<open>isEager\<close> and
  \<open>selected\<close> are lists of booleans updated by index. \<open>sort.Slice\<close> leaves the order of peers
  with equal round-trip times open, so the sort is a parameter \<open>sortf\<close> of \<open>Reclassify\<close>, of
  which \<open>rtt_sort\<close> says what the library documents. \<open>Summary\<close> only formats text and is left out.
\<close>

section \<open>Model\<close>

definition rttGapThreshold :: int where
  "rttGapThreshold = 5 * 1000000"

record OverlayConfig =
  MinEagerPeers :: int
  MaxEagerPeers :: int
  MinLazyPeers :: int
  MaxLazyPeers :: int

definition OverlayConfig_withDefaults :: "OverlayConfig \<Rightarrow> OverlayConfig" where
  "OverlayConfig_withDefaults c =
     \<lparr>MinEagerPeers = (if MinEagerPeers c \<le> 0 then 4 else MinEagerPeers c),
      MaxEagerPeers = (if MaxEagerPeers c \<le> 0 then 8 else MaxEagerPeers c),
      MinLazyPeers = (if MinLazyPeers c \<le> 0 then 2 else MinLazyPeers c),
      MaxLazyPeers = (if MaxLazyPeers c \<le> 0 then 6 else MaxLazyPeers c)\<rparr>"

record PeerInfo =
  NodeID :: string
  Addr :: string
  RTT :: int

record OverlayPeer = PeerInfo +
  IsEager :: bool

record Overlay =
  ov_cfg :: OverlayConfig
  self :: string
  eagerPeers :: "OverlayPeer list"
  lazyPeers :: "OverlayPeer list"

definition Overlay_New :: "string \<Rightarrow> OverlayConfig \<Rightarrow> Overlay" where
  "Overlay_New selfNodeID cfg =
     \<lparr>ov_cfg = OverlayConfig_withDefaults cfg, self = selfNodeID, eagerPeers = [], lazyPeers = []\<rparr>"

definition cluster_step :: "PeerInfo list \<Rightarrow> nat list list \<Rightarrow> nat \<Rightarrow> nat list list" where
  "cluster_step peers clusters i =
     (if RTT (peers ! i) - RTT (peers ! (i - 1)) > rttGapThreshold
      then clusters @ [[i]]
      else butlast clusters @ [last clusters @ [i]])"

definition findRTTClusters :: "PeerInfo list \<Rightarrow> nat list list" where
  "findRTTClusters peers =
     (if peers = [] then [] else foldl (cluster_step peers) [[0]] [1..<length peers])"

text \<open>The loop that reserves one slot per cluster, sampled evenly over the clusters, and the loop
  that fills the remaining slots by lowest round-trip time; \<open>selectDiversePeers\<close> and
  \<open>selectEager\<close> both run the two on their own flags and counter.\<close>

definition reserve_slots :: "nat list list \<Rightarrow> nat \<Rightarrow> bool list \<Rightarrow> bool list \<times> int" where
  "reserve_slots clusters reserved flags =
     foldl (\<lambda>(fl, cnt) i.
         let ci = i * length clusters div reserved in (fl[(clusters ! ci) ! 0 := True], cnt + 1))
       (flags, 0) [0..<reserved]"

fun fill_slots :: "int \<Rightarrow> nat list \<Rightarrow> bool list \<times> int \<Rightarrow> bool list \<times> int" where
  "fill_slots limit [] (fl, cnt) = (fl, cnt)"
| "fill_slots limit (i # is) (fl, cnt) =
     (if cnt \<ge> limit then (fl, cnt)
      else if \<not> fl ! i then fill_slots limit is (fl[i := True], cnt + 1)
      else fill_slots limit is (fl, cnt))"

definition choose_spread :: "nat list list \<Rightarrow> int \<Rightarrow> nat \<Rightarrow> bool list" where
  "choose_spread clusters limit n =
     (let reserved = (if limit > int (length clusters) then int (length clusters) else limit)
      in fst (fill_slots limit [0..<n] (reserve_slots clusters (nat reserved) (replicate n False))))"

definition selectDiversePeers :: "PeerInfo list \<Rightarrow> int \<Rightarrow> PeerInfo list" where
  "selectDiversePeers peers totalMax =
     (let clusters = findRTTClusters peers in
      if length clusters \<le> 1 then take (nat totalMax) peers
      else
        (let selected = choose_spread clusters totalMax (length peers)
         in map fst (filter snd (zip peers selected))))"

fun gap_loop :: "PeerInfo list \<Rightarrow> nat list \<Rightarrow> int \<times> int \<Rightarrow> int \<times> int" where
  "gap_loop peers [] (maxGap, gapIdx) = (maxGap, gapIdx)"
| "gap_loop peers (i # is) (maxGap, gapIdx) =
     (let gap = RTT (peers ! i) - RTT (peers ! (i - 1))
      in gap_loop peers is (if gap > maxGap then (gap, int i) else (maxGap, gapIdx)))"

definition findRTTGap :: "OverlayConfig \<Rightarrow> PeerInfo list \<Rightarrow> int" where
  "findRTTGap cfg peers =
     (if int (length peers) \<le> MinEagerPeers cfg + MinLazyPeers cfg
      then min (MinEagerPeers cfg) (int (length peers))
      else
        (let lo = (if MinEagerPeers cfg < 1 then 1 else MinEagerPeers cfg);
             hi = int (length peers) - MinLazyPeers cfg;
             hi = (if hi > int (length peers) then int (length peers) else hi);
             (maxGap, gapIdx) = gap_loop peers [nat lo..<nat hi] (0, MinEagerPeers cfg)
         in if maxGap < rttGapThreshold
            then (if int (length peers) \<le> MaxEagerPeers cfg then int (length peers) else MaxEagerPeers cfg)
            else gapIdx))"

text \<open>The number of eager peers among peers of a single cluster.\<close>

definition single_cluster_count :: "OverlayConfig \<Rightarrow> PeerInfo list \<Rightarrow> int" where
  "single_cluster_count cfg peers =
     (let n = int (length peers);
          gapIdx = findRTTGap cfg peers;
          gapIdx = (if gapIdx < MinEagerPeers cfg then MinEagerPeers cfg else gapIdx);
          gapIdx = (if gapIdx > MaxEagerPeers cfg then MaxEagerPeers cfg else gapIdx);
          gapIdx = (if gapIdx > n then n else gapIdx);
          gapIdx = (if n - gapIdx < MinLazyPeers cfg \<and> n > MinEagerPeers cfg + MinLazyPeers cfg
                    then n - MinLazyPeers cfg else gapIdx)
      in if gapIdx < 0 then 0 else gapIdx)"

text \<open>The number of eager slots when there are several clusters.\<close>

definition eager_budget :: "OverlayConfig \<Rightarrow> nat \<Rightarrow> int" where
  "eager_budget cfg n =
     (let maxEager = MaxEagerPeers cfg;
          lazyBudget = int n - MinLazyPeers cfg;
          maxEager = (if lazyBudget < maxEager then lazyBudget else maxEager)
      in if maxEager < 0 then 0 else maxEager)"

definition selectEager :: "OverlayConfig \<Rightarrow> PeerInfo list \<Rightarrow> bool list" where
  "selectEager cfg peers =
     (let clusters = findRTTClusters peers in
      if length clusters \<le> 1
      then foldl (\<lambda>fl i. fl[i := True]) (replicate (length peers) False)
             [0..<nat (single_cluster_count cfg peers)]
      else choose_spread clusters (eager_budget cfg (length peers)) (length peers))"

definition classify_peer :: "PeerInfo \<times> bool \<Rightarrow> OverlayPeer" where
  "classify_peer pe = \<lparr>NodeID = NodeID (fst pe), Addr = Addr (fst pe), RTT = RTT (fst pe), IsEager = snd pe\<rparr>"

text \<open>The peers that are classified: self removed, sorted, and capped.\<close>

definition cap_peers :: "OverlayConfig \<Rightarrow> PeerInfo list \<Rightarrow> PeerInfo list" where
  "cap_peers cfg peers =
     (let totalMax = MaxEagerPeers cfg + MaxLazyPeers cfg
      in if int (length peers) > totalMax then selectDiversePeers peers totalMax else peers)"

definition Reclassify ::
  "(PeerInfo list \<Rightarrow> PeerInfo list) \<Rightarrow> Overlay \<Rightarrow> PeerInfo list \<Rightarrow> Overlay" where
  "Reclassify sortf ov peers =
     (let filtered = filter (\<lambda>p. NodeID p \<noteq> self ov) peers in
      if filtered = [] then ov\<lparr>eagerPeers := [], lazyPeers := []\<rparr>
      else
        (let peers = cap_peers (ov_cfg ov) (sortf filtered);
             isEager = selectEager (ov_cfg ov) peers;
             ops = map classify_peer (zip peers isEager)
         in ov\<lparr>eagerPeers := filter IsEager ops, lazyPeers := filter (\<lambda>p. \<not> IsEager p) ops\<rparr>))"

definition EagerPeers :: "Overlay \<Rightarrow> OverlayPeer list" where
  "EagerPeers ov = eagerPeers ov"

definition LazyPeers :: "Overlay \<Rightarrow> OverlayPeer list" where
  "LazyPeers ov = lazyPeers ov"

definition AllPeers :: "Overlay \<Rightarrow> OverlayPeer list" where
  "AllPeers ov = eagerPeers ov @ lazyPeers ov"

definition RandomPeers :: "Overlay \<Rightarrow> nat \<Rightarrow> OverlayPeer list" where
  "RandomPeers ov n = (if length (AllPeers ov) \<le> n then AllPeers ov else take n (AllPeers ov))"

definition PeerCount :: "Overlay \<Rightarrow> nat" where
  "PeerCount ov = length (eagerPeers ov) + length (lazyPeers ov)"

text \<open>What \<open>sort.Slice\<close> promises.\<close>

definition rtt_sort :: "(PeerInfo list \<Rightarrow> PeerInfo list) \<Rightarrow> bool" where
  "rtt_sort sortf \<longleftrightarrow> (\<forall>ps. mset (sortf ps) = mset ps \<and> sorted (map RTT (sortf ps)))"

text \<open>What \<open>withDefaults\<close> establishes.\<close>

definition cfg_ok :: "OverlayConfig \<Rightarrow> bool" where
  "cfg_ok c \<longleftrightarrow> MinEagerPeers c > 0 \<and> MaxEagerPeers c > 0 \<and> MinLazyPeers c > 0 \<and> MaxLazyPeers c > 0"

lemma cfg_ok_withDefaults [simp]: "cfg_ok (OverlayConfig_withDefaults c)"
  by (simp add: cfg_ok_def OverlayConfig_withDefaults_def)

section \<open>Clusters\<close>

text \<open>The first index of each cluster: index 0 and every index after a gap.\<close>

definition starts_cluster :: "PeerInfo list \<Rightarrow> nat \<Rightarrow> bool" where
  "starts_cluster peers i \<longleftrightarrow> i = 0 \<or> RTT (peers ! i) - RTT (peers ! (i - 1)) > rttGapThreshold"

lemma concat_butlast_snoc: "xs \<noteq> [] \<Longrightarrow> concat (butlast xs @ [last xs @ ys]) = concat xs @ ys"
  by (cases xs rule: rev_cases) simp_all

lemma map_hd_butlast_snoc:
  "xs \<noteq> [] \<Longrightarrow> last xs \<noteq> [] \<Longrightarrow> map hd (butlast xs @ [last xs @ ys]) = map hd xs"
  by (cases xs rule: rev_cases) simp_all

lemma clusters_upto:
  assumes "1 \<le> n"
  shows "let cs = foldl (cluster_step peers) [[0]] [1..<n] in
    cs \<noteq> [] \<and> concat cs = [0..<n] \<and> (\<forall>c \<in> set cs. c \<noteq> []) \<and>
    map hd cs = filter (starts_cluster peers) [0..<n]"
  using assms
proof (induction n rule: nat_induct_at_least)
  case base
  then show ?case by (simp add: starts_cluster_def)
next
  case (Suc n)
  let ?cs = "foldl (cluster_step peers) [[0]] [1..<n]"
  have ih: "?cs \<noteq> []" "concat ?cs = [0..<n]" "\<forall>c \<in> set ?cs. c \<noteq> []"
    "map hd ?cs = filter (starts_cluster peers) [0..<n]"
    using Suc.IH by (simp_all add: Let_def)
  have step: "foldl (cluster_step peers) [[0]] [1..<Suc n] = cluster_step peers ?cs n"
    using Suc.hyps by simp
  have "last ?cs \<noteq> []" using ih(1,3) last_in_set by blast
  then show ?case
    unfolding step Let_def
    using ih Suc.hyps concat_butlast_snoc [OF ih(1), of "[n]"] map_hd_butlast_snoc [OF ih(1), of "[n]"]
    by (auto simp: cluster_step_def starts_cluster_def dest: in_set_butlastD)
qed

lemma clusters_nonempty [simp]: "findRTTClusters peers = [] \<longleftrightarrow> peers = []"
  using clusters_upto [of "length peers" peers]
  by (auto simp: findRTTClusters_def Let_def Suc_le_eq)

lemma concat_clusters: "concat (findRTTClusters peers) = [0..<length peers]"
  using clusters_upto [of "length peers" peers]
  by (auto simp: findRTTClusters_def Let_def Suc_le_eq)

lemma cluster_nonempty: "c \<in> set (findRTTClusters peers) \<Longrightarrow> c \<noteq> []"
  using clusters_upto [of "length peers" peers]
  by (auto simp: findRTTClusters_def Let_def Suc_le_eq split: if_splits)

lemma cluster_heads:
  "map hd (findRTTClusters peers) = filter (starts_cluster peers) [0..<length peers]"
  using clusters_upto [of "length peers" peers]
  by (auto simp: findRTTClusters_def Let_def Suc_le_eq)

lemma head_less:
  assumes "c \<in> set (findRTTClusters peers)"
  shows "hd c < length peers"
proof -
  have "hd c \<in> set (concat (findRTTClusters peers))"
    using assms hd_in_set [OF cluster_nonempty [OF assms]] by auto
  then show ?thesis by (simp add: concat_clusters)
qed

lemma heads_distinct: "distinct (map hd (findRTTClusters peers))"
  by (simp add: cluster_heads)

lemma clusters_le_length: "length (findRTTClusters peers) \<le> length peers"
proof -
  have "length (map hd (findRTTClusters peers)) \<le> length peers"
    unfolding cluster_heads by (metis length_filter_le length_upt minus_nat.diff_0)
  then show ?thesis by simp
qed

section \<open>Even sampling of the clusters\<close>

lemma sample_less: "i < r \<Longrightarrow> r \<le> L \<Longrightarrow> i * L div r < (L :: nat)"
  by (simp add: div_less_iff_less_mult)

lemma sample_strict:
  assumes "i < j" and "j < r" and "r \<le> L"
  shows "i * L div r < j * L div (r :: nat)"
proof -
  have "(i * L + r) div r \<le> j * L div r"
  proof (rule div_le_mono)
    have "i * L + r \<le> Suc i * L" using assms(3) by simp
    also have "\<dots> \<le> j * L" using assms(1) by (intro mult_le_mono1) simp
    finally show "i * L + r \<le> j * L" .
  qed
  moreover have "(i * L + r) div r = i * L div r + 1" using assms by (intro div_add_self2) simp
  ultimately show ?thesis by simp
qed

lemma sample_inj: "r \<le> L \<Longrightarrow> inj_on (\<lambda>i. i * L div r) {..<r :: nat}"
  by (intro linorder_inj_onI) (use sample_strict in fastforce)+

text \<open>The peers reserved when \<open>r\<close> of the clusters are sampled.\<close>

definition sampled :: "nat list list \<Rightarrow> nat \<Rightarrow> nat set" where
  "sampled clusters r = (\<lambda>i. hd (clusters ! (i * length clusters div r))) ` {..<r}"

lemma card_sampled:
  assumes "r \<le> length (findRTTClusters peers)"
  shows "card (sampled (findRTTClusters peers) r) = r"
proof -
  let ?cs = "findRTTClusters peers"
  have inj: "inj_on (\<lambda>k. hd (?cs ! k)) {..<length ?cs}"
    using heads_distinct [of peers] by (auto simp: inj_on_def distinct_conv_nth)
  have "inj_on ((\<lambda>k. hd (?cs ! k)) \<circ> (\<lambda>i. i * length ?cs div r)) {..<r}"
    using assms sample_less
    by (intro comp_inj_on sample_inj inj_on_subset [OF inj]) auto
  then show ?thesis by (simp add: sampled_def card_image comp_def)
qed

lemma sampled_all: "sampled clusters (length clusters) = hd ` set clusters"
  by (force simp: sampled_def set_conv_nth)

lemma sampled_nearest:
  assumes "0 < r" and "peers \<noteq> []"
  shows "0 \<in> sampled (findRTTClusters peers) r"
proof -
  have "hd (map hd (findRTTClusters peers)) = 0"
    using assms(2) by (simp add: cluster_heads upt_conv_Cons starts_cluster_def)
  then have "hd (findRTTClusters peers ! 0) = 0" using assms(2) by (simp add: hd_conv_nth hd_map)
  then show ?thesis using assms(1) by (force simp: sampled_def)
qed

lemma sampled_subset:
  assumes "r \<le> length (findRTTClusters peers)"
  shows "sampled (findRTTClusters peers) r \<subseteq> {..<length peers}"
  using assms sample_less by (auto simp: sampled_def intro!: head_less nth_mem)

section \<open>The flags\<close>

definition on :: "bool list \<Rightarrow> nat set" where
  "on fl = {k. k < length fl \<and> fl ! k}"

lemma on_replicate [simp]: "on (replicate n False) = {}"
  by (simp add: on_def)

lemma on_update [simp]: "i < length fl \<Longrightarrow> on (fl[i := True]) = insert i (on fl)"
  by (auto simp: on_def nth_list_update)

lemma finite_on [simp]: "finite (on fl)"
  by (rule finite_subset [of _ "{..<length fl}"]) (auto simp: on_def)

lemma on_bound: "on fl \<subseteq> {..<length fl}"
  by (auto simp: on_def)

lemma length_filter_on:
  "length xs = length fl \<Longrightarrow> length (filter snd (zip xs fl)) = card (on fl)"
proof -
  assume len: "length xs = length fl"
  have "length (filter snd (zip xs fl)) = card {i. i < length (zip xs fl) \<and> snd (zip xs fl ! i)}"
    by (rule length_filter_conv_card)
  also have "{i. i < length (zip xs fl) \<and> snd (zip xs fl ! i)} = on fl"
    using len by (auto simp: on_def)
  finally show ?thesis .
qed

lemma foldl_flags:
  "\<forall>i \<in> set is. f i < length fl \<Longrightarrow>
   length (fst (foldl (\<lambda>(fl, c) i. (fl[f i := True], c + 1)) (fl, c) is)) = length fl \<and>
   on (fst (foldl (\<lambda>(fl, c) i. (fl[f i := True], c + 1)) (fl, c) is)) = on fl \<union> f ` set is \<and>
   snd (foldl (\<lambda>(fl, c) i. (fl[f i := True], c + 1)) (fl, c :: int) is) = c + int (length is)"
  by (induction "is" arbitrary: fl c) auto

lemma reserve_slots:
  assumes "r \<le> length (findRTTClusters peers)" and "length fl = length peers"
  shows "length (fst (reserve_slots (findRTTClusters peers) r fl)) = length peers \<and>
    on (fst (reserve_slots (findRTTClusters peers) r fl)) = on fl \<union> sampled (findRTTClusters peers) r \<and>
    snd (reserve_slots (findRTTClusters peers) r fl) = int r"
proof -
  let ?cs = "findRTTClusters peers"
  let ?f = "\<lambda>i. (?cs ! (i * length ?cs div r)) ! 0"
  have hd: "?f i = hd (?cs ! (i * length ?cs div r))" "?f i < length peers" if "i < r" for i
  proof -
    have "?cs ! (i * length ?cs div r) \<in> set ?cs" using that assms(1) sample_less by simp
    then show "?f i = hd (?cs ! (i * length ?cs div r))" "?f i < length peers"
      using cluster_nonempty head_less by (force simp: hd_conv_nth)+
  qed
  then have "?f ` {0..<r} = sampled ?cs r" by (auto simp: sampled_def image_def)
  then show ?thesis
    using foldl_flags [of "[0..<r]" ?f fl 0] hd assms(2)
    by (simp add: reserve_slots_def Let_def)
qed

text \<open>The filling loop: it stops at the limit or runs out of peers, and takes peers in order.\<close>

text \<open>What filling the slots \<open>is\<close> up to the limit gives.\<close>

definition filled :: "int \<Rightarrow> nat list \<Rightarrow> bool list \<Rightarrow> int \<Rightarrow> bool list \<Rightarrow> int \<Rightarrow> bool" where
  "filled limit is fl c fl' c' \<longleftrightarrow> length fl' = length fl \<and> on fl \<subseteq> on fl' \<and> on fl' \<subseteq> on fl \<union> set is \<and>
    c' - c = int (card (on fl')) - int (card (on fl)) \<and> c' \<le> limit \<and>
    (c' = limit \<or> set is \<subseteq> on fl') \<and> (\<forall>k \<in> on fl' - on fl. \<forall>j \<in> set is. j < k \<longrightarrow> j \<in> on fl')"

lemma filled_set:
  assumes "filled limit is (fl[i := True]) (c + 1) fl' c'" and "i < length fl" "i \<notin> on fl" and "sorted (i # is)"
  shows "filled limit (i # is) fl c fl' c'"
proof -
  have f: "length fl' = length fl" "insert i (on fl) \<subseteq> on fl'" "on fl' \<subseteq> insert i (on fl) \<union> set is"
    "c' - (c + 1) = int (card (on fl')) - int (card (insert i (on fl)))" "c' \<le> limit" "c' = limit \<or> set is \<subseteq> on fl'"
    and low: "\<forall>k \<in> on fl' - insert i (on fl). \<forall>j \<in> set is. j < k \<longrightarrow> j \<in> on fl'"
    using assms(1) [unfolded filled_def on_update [OF assms(2)] length_list_update] by - (elim conjE, assumption)+
  have "j \<in> on fl'" if k: "k \<in> on fl' - on fl" and j: "j \<in> set (i # is)" and less: "j < k" for k j
  proof -
    have "i \<le> j" using assms(4) j by auto
    then have "k \<notin> insert i (on fl)" using k less by simp
    then show ?thesis using low [rule_format, of k j] k j less f(2) by (cases "j = i") simp_all
  qed
  moreover have "c' - c = int (card (on fl')) - int (card (on fl))"
    using f(4) card_insert_disjoint [OF finite_on assms(3)] by linarith
  ultimately show ?thesis using f by (simp add: filled_def)
qed

lemma filled_skip:
  assumes f: "filled limit is fl c fl' c'" and i: "i \<in> on fl"
  shows "filled limit (i # is) fl c fl' c'"
proof -
  have "i \<in> on fl'" using assms by (auto simp: filled_def)
  then show ?thesis using f by (auto simp: filled_def)
qed

lemma fill_slots_filled:
  assumes "sorted is" and "\<forall>i \<in> set is. i < length fl" and "c \<le> limit"
    and "fill_slots limit is (fl, c) = (fl', c')"
  shows "filled limit is fl c fl' c'"
  using assms
proof (induction limit "is" "(fl, c)" arbitrary: fl c rule: fill_slots.induct)
  case (1 limit fl c)
  then show ?case by (simp add: filled_def)
next
  case (2 limit i "is" fl c)
  consider (full) "c \<ge> limit" | (set) "c < limit" "\<not> fl ! i" | (skip) "c < limit" "fl ! i"
    by linarith
  then show ?case
  proof cases
    case full
    then show ?thesis using "2.prems" by (auto simp: filled_def)
  next
    case set
    have i: "i < length fl" "i \<notin> on fl" using "2.prems"(2) set by (simp_all add: on_def)
    have st: "\<not> limit \<le> c" "\<not> fl ! i" "sorted is" "\<forall>j \<in> set is. j < length (fl[i := True])" "c + 1 \<le> limit"
      "fill_slots limit is (fl[i := True], c + 1) = (fl', c')" using "2.prems" set by simp_all
    show ?thesis by (rule filled_set [OF "2.hyps"(1) [OF st] i "2.prems"(1)])
  next
    case skip
    have i: "i \<in> on fl" using "2.prems"(2) skip by (simp add: on_def)
    have st: "\<not> limit \<le> c" "\<not> \<not> fl ! i" "sorted is" "\<forall>j \<in> set is. j < length fl" "c \<le> limit"
      "fill_slots limit is (fl, c) = (fl', c')" using "2.prems" skip by simp_all
    show ?thesis by (rule filled_skip [OF "2.hyps"(2) [OF st] i])
  qed
qed

lemmas fill_slots = fill_slots_filled [unfolded filled_def]

lemma choose_spread:
  assumes "0 \<le> limit" and "peers \<noteq> []"
  defines "fl \<equiv> choose_spread (findRTTClusters peers) limit (length peers)"
    and "r \<equiv> min (nat limit) (length (findRTTClusters peers))"
  shows "length fl = length peers" and "card (on fl) = min (nat limit) (length peers)"
    and "sampled (findRTTClusters peers) r \<subseteq> on fl"
    and "\<forall>k \<in> on fl - sampled (findRTTClusters peers) r. \<forall>j < k. j \<in> on fl"
proof -
  let ?cs = "findRTTClusters peers"
  obtain fl0 c0 where r0: "reserve_slots ?cs r (replicate (length peers) False) = (fl0, c0)" by fastforce
  have "nat (if limit > int (length ?cs) then int (length ?cs) else limit) = r"
    using assms(1) by (simp add: r_def)
  then have "fl = fst (fill_slots limit [0..<length peers] (fl0, c0))"
    using r0 by (simp add: fl_def choose_spread_def Let_def)
  then obtain c where f0: "fill_slots limit [0..<length peers] (fl0, c0) = (fl, c)"
    by (metis prod.collapse)
  have r: "r \<le> length ?cs" "int r \<le> limit" using assms(1) by (auto simp: r_def)
  have res: "length fl0 = length peers" "on fl0 = sampled ?cs r" "c0 = int r"
    using reserve_slots [OF r(1), of "replicate (length peers) False"] r0 by simp_all
  have pre: "sorted [0..<length peers]" "\<forall>i \<in> set [0..<length peers]. i < length fl0" "c0 \<le> limit"
    using res r by simp_all
  note fil = fill_slots [OF pre f0, THEN conjunct1] fill_slots [OF pre f0, THEN conjunct2]
  note fil = fil(1) fil(2) [THEN conjunct1] fil(2) [THEN conjunct2, THEN conjunct2]
  show "length fl = length peers" "sampled ?cs r \<subseteq> on fl" using fil(1,2) res by simp_all
  have sub: "on fl \<subseteq> {..<length peers}" using on_bound [of fl] fil(1) res(1) by simp
  have c: "c = int (card (on fl))" "c \<le> limit" "c = limit \<or> {0..<length peers} \<subseteq> on fl"
    using fil(3) res card_sampled [OF r(1)] by (elim conjE, simp)+
  have "card (on fl) \<le> length peers" using card_mono [OF _ sub] by simp
  moreover have "card (on fl) = length peers" if "{0..<length peers} \<subseteq> on fl"
  proof -
    have "on fl = {..<length peers}" using that sub by auto
    then show ?thesis by simp
  qed
  ultimately show "card (on fl) = min (nat limit) (length peers)"
    using c by (auto simp: min_def)
  show "\<forall>k \<in> on fl - sampled ?cs r. \<forall>j < k. j \<in> on fl"
  proof (intro ballI allI impI)
    fix k j
    assume k: "k \<in> on fl - sampled ?cs r" and "j < k"
    then have "j \<in> set [0..<length peers]" using sub by force
    with k \<open>j < k\<close> show "j \<in> on fl"
      using fil(3) [THEN conjunct2, THEN conjunct2, THEN conjunct2, rule_format, of k j] res(2) by blast
  qed
qed

section \<open>Selecting by flags\<close>

lemma on_Cons: "{j. Suc j \<in> on (b # fl)} = on fl" "0 \<in> on (b # fl) \<longleftrightarrow> b"
  by (auto simp: on_def)

lemma filter_zip_nths:
  "length xs = length fl \<Longrightarrow> map fst (filter snd (zip xs fl)) = nths xs (on fl)"
  by (induction xs fl rule: list_induct2) (simp_all add: nths_Cons on_Cons)

lemma filter_zip_nths_not:
  "length xs = length fl \<Longrightarrow> map fst (filter (\<lambda>x. \<not> snd x) (zip xs fl)) = nths xs (- on fl)"
proof (induction xs fl rule: list_induct2)
  case (Cons x xs b fl)
  have "{j. Suc j \<in> - on (b # fl)} = - on fl" using on_Cons(1) [of b fl] by auto
  then show ?case using Cons by (simp add: nths_Cons on_Cons(2))
qed simp

lemma length_nths_on: "length xs = length fl \<Longrightarrow> length (nths xs (on fl)) = card (on fl)"
  by (metis filter_zip_nths length_filter_on length_map)

lemma nth_in_nths: "k < length xs \<Longrightarrow> k \<in> A \<Longrightarrow> xs ! k \<in> set (nths xs A)"
  by (auto simp: set_nths)

lemma sorted_nths: "sorted xs \<Longrightarrow> sorted (nths xs A)"
  by (induction xs arbitrary: A) (auto simp: nths_Cons dest: in_set_nthsD)

lemma map_nths: "map f (nths xs A) = nths (map f xs) A"
  by (simp add: nths_def zip_map1 filter_map comp_def split_def)

lemma mset_nths_compl: "mset (nths xs A) + mset (nths xs (- A)) = mset xs"
proof (induction xs arbitrary: A)
  case (Cons x xs)
  have "{j. Suc j \<in> - A} = - {j. Suc j \<in> A}" by auto
  then show ?case using Cons [of "{j. Suc j \<in> A}"] by (auto simp: nths_Cons)
qed simp

lemma selectDiversePeers_eq:
  assumes "0 < totalMax" and "int (length peers) > totalMax"
  shows "\<exists>A. selectDiversePeers peers totalMax = nths peers A \<and>
    length (selectDiversePeers peers totalMax) = nat totalMax \<and> 0 \<in> A \<and>
    (int (length (findRTTClusters peers)) \<le> totalMax \<longrightarrow>
      (\<forall>c \<in> set (findRTTClusters peers). hd c \<in> A))"
proof (cases "length (findRTTClusters peers) \<le> 1")
  case True
  have ne: "peers \<noteq> []" using assms by auto
  then have "0 \<in> hd ` set (findRTTClusters peers)"
    using sampled_nearest [of "length (findRTTClusters peers)" peers]
    unfolding sampled_all by simp
  moreover have "\<forall>c \<in> set (findRTTClusters peers). \<forall>d \<in> set (findRTTClusters peers). c = d"
    using True ne by (auto simp: le_Suc_eq length_Suc_conv)
  ultimately have "\<forall>c \<in> set (findRTTClusters peers). hd c = 0" by (metis imageE)
  then show ?thesis
    using True assms ne
    by (intro exI [of _ "{..<nat totalMax}"]) (simp add: selectDiversePeers_def nths_upt_eq_take)
next
  case False
  let ?fl = "choose_spread (findRTTClusters peers) totalMax (length peers)"
  have ne: "peers \<noteq> []" using assms by auto
  note cs = choose_spread [of totalMax peers, OF _ ne]
  have len: "length peers = length ?fl" using cs(1) assms by simp
  have eq: "selectDiversePeers peers totalMax = nths peers (on ?fl)"
    using False by (simp add: selectDiversePeers_def Let_def filter_zip_nths [OF len])
  have "length (nths peers (on ?fl)) = nat totalMax"
    using cs(2) assms length_nths_on [OF len] by simp
  moreover have "0 \<in> on ?fl"
    using cs(3) assms False sampled_nearest [OF _ ne, of "min (nat totalMax) (length (findRTTClusters peers))"]
    using ne by (auto simp: not_le)
  moreover have "hd c \<in> on ?fl"
    if "int (length (findRTTClusters peers)) \<le> totalMax" "c \<in> set (findRTTClusters peers)" for c
  proof -
    have "min (nat totalMax) (length (findRTTClusters peers)) = length (findRTTClusters peers)"
      using that(1) by simp
    then show ?thesis using cs(3) assms that(2) by (auto simp: sampled_all)
  qed
  ultimately show ?thesis using eq by auto
qed

section \<open>Classification\<close>

lemma single_cluster_count_bounds:
  assumes "cfg_ok cfg" and "peers \<noteq> []"
  shows "0 < single_cluster_count cfg peers \<and> single_cluster_count cfg peers \<le> int (length peers) \<and>
    single_cluster_count cfg peers \<le> MaxEagerPeers cfg \<and>
    (int (length peers) > MinEagerPeers cfg + MinLazyPeers cfg \<longrightarrow>
      single_cluster_count cfg peers \<le> int (length peers) - MinLazyPeers cfg)"
proof -
  have "0 < int (length peers)" using assms(2) by simp
  then show ?thesis using assms(1) unfolding single_cluster_count_def Let_def cfg_ok_def by auto
qed

lemma foldl_prefix:
  "n \<le> length fl \<Longrightarrow> length (foldl (\<lambda>fl i. fl[i := True]) fl [0..<n]) = length fl \<and>
   on (foldl (\<lambda>fl i. fl[i := True]) fl [0..<n]) = on fl \<union> {..<n}"
  by (induction n) (auto simp: lessThan_Suc)

lemma selectEager_single:
  assumes "cfg_ok cfg" and "peers \<noteq> []" and "length (findRTTClusters peers) \<le> 1"
  shows "length (selectEager cfg peers) = length peers \<and>
    on (selectEager cfg peers) = {..<nat (single_cluster_count cfg peers)}"
proof -
  have "nat (single_cluster_count cfg peers) \<le> length (replicate (length peers) False)"
    using single_cluster_count_bounds [OF assms(1,2)] by (simp add: nat_le_iff)
  note foldl_prefix [OF this]
  then show ?thesis using assms(3) by (simp add: selectEager_def Let_def)
qed

lemma eager_budget_bounds:
  assumes "cfg_ok cfg"
  shows "0 \<le> eager_budget cfg n" and "eager_budget cfg n \<le> MaxEagerPeers cfg"
    and "eager_budget cfg n \<le> int n" and "eager_budget cfg n = 0 \<longleftrightarrow> int n \<le> MinLazyPeers cfg"
  using assms by (auto simp: eager_budget_def Let_def cfg_ok_def)

lemma selectEager_many:
  assumes "cfg_ok cfg" and "\<not> length (findRTTClusters peers) \<le> 1"
  defines "b \<equiv> eager_budget cfg (length peers)"
    and "r \<equiv> min (nat (eager_budget cfg (length peers))) (length (findRTTClusters peers))"
  shows "length (selectEager cfg peers) = length peers" and "card (on (selectEager cfg peers)) = nat b"
    and "sampled (findRTTClusters peers) r \<subseteq> on (selectEager cfg peers)"
    and "\<forall>k \<in> on (selectEager cfg peers) - sampled (findRTTClusters peers) r. \<forall>j < k. j \<in> on (selectEager cfg peers)"
proof -
  have ne: "peers \<noteq> []" using assms(2) by (auto simp: findRTTClusters_def)
  have eq: "selectEager cfg peers = choose_spread (findRTTClusters peers) b (length peers)"
    using assms(2) by (simp add: selectEager_def b_def Let_def)
  note b = eager_budget_bounds [OF assms(1), of "length peers"]
  note cs = choose_spread [OF b(1) ne]
  show "length (selectEager cfg peers) = length peers" using cs(1) by (simp add: eq b_def)
  show "card (on (selectEager cfg peers)) = nat b" using cs(2) b by (simp add: eq b_def)
  show "sampled (findRTTClusters peers) r \<subseteq> on (selectEager cfg peers)"
    using cs(3) unfolding eq b_def r_def .
  show "\<forall>k \<in> on (selectEager cfg peers) - sampled (findRTTClusters peers) r.
      \<forall>j < k. j \<in> on (selectEager cfg peers)"
    using cs(4) unfolding eq b_def r_def .
qed

lemma selectEager_length:
  "cfg_ok cfg \<Longrightarrow> peers \<noteq> [] \<Longrightarrow> length (selectEager cfg peers) = length peers"
  using selectEager_single selectEager_many(1) by blast

text \<open>The number of eager peers.\<close>

definition eager_count :: "OverlayConfig \<Rightarrow> PeerInfo list \<Rightarrow> int" where
  "eager_count cfg peers =
     (if length (findRTTClusters peers) \<le> 1 then single_cluster_count cfg peers
      else eager_budget cfg (length peers))"

lemma card_selectEager:
  assumes "cfg_ok cfg" and "peers \<noteq> []"
  shows "int (card (on (selectEager cfg peers))) = eager_count cfg peers"
  using selectEager_single [OF assms] selectEager_many(2) [OF assms(1)]
    single_cluster_count_bounds [OF assms] eager_budget_bounds(1) [OF assms(1)]
  by (simp add: eager_count_def)

lemma cap_peers_eq:
  assumes "cfg_ok cfg"
  shows "\<exists>A. cap_peers cfg peers = nths peers A \<and>
    int (length (cap_peers cfg peers)) = min (int (length peers)) (MaxEagerPeers cfg + MaxLazyPeers cfg) \<and>
    0 \<in> A \<and>
    (int (length (findRTTClusters peers)) \<le> MaxEagerPeers cfg + MaxLazyPeers cfg \<longrightarrow>
      (\<forall>c \<in> set (findRTTClusters peers). hd c \<in> A))"
proof (cases "int (length peers) > MaxEagerPeers cfg + MaxLazyPeers cfg")
  case True
  moreover have "0 < MaxEagerPeers cfg + MaxLazyPeers cfg" using assms by (simp add: cfg_ok_def)
  ultimately show ?thesis
    using selectDiversePeers_eq [of "MaxEagerPeers cfg + MaxLazyPeers cfg" peers]
    by (auto simp: cap_peers_def)
next
  case False
  then show ?thesis by (intro exI [of _ UNIV]) (simp add: cap_peers_def nths_all)
qed

lemma cap_peers_nonempty:
  assumes "cfg_ok cfg"
  shows "cap_peers cfg peers = [] \<longleftrightarrow> peers = []"
proof -
  have "int (length (cap_peers cfg peers)) = min (int (length peers)) (MaxEagerPeers cfg + MaxLazyPeers cfg)"
    using cap_peers_eq [OF assms] by blast
  then show ?thesis using assms unfolding cfg_ok_def length_0_conv [symmetric] by linarith
qed

text \<open>The classified peers as sub-lists of the capped ones.\<close>

lemma Reclassify_lists:
  fixes sortf ov peers
  defines "ps \<equiv> cap_peers (ov_cfg ov) (sortf (filter (\<lambda>p. NodeID p \<noteq> self ov) peers))"
  defines "E \<equiv> on (selectEager (ov_cfg ov) ps)"
  assumes "rtt_sort sortf" and "cfg_ok (ov_cfg ov)" and "filter (\<lambda>p. NodeID p \<noteq> self ov) peers \<noteq> []"
  shows "eagerPeers (Reclassify sortf ov peers) = map (\<lambda>p. classify_peer (p, True)) (nths ps E)"
    and "lazyPeers (Reclassify sortf ov peers) = map (\<lambda>p. classify_peer (p, False)) (nths ps (- E))"
    and "ps \<noteq> []"
proof -
  let ?f = "filter (\<lambda>p. NodeID p \<noteq> self ov) peers" and ?s = "selectEager (ov_cfg ov) ps"
  have "sortf ?f \<noteq> []" using assms(3,5) unfolding rtt_sort_def by (metis mset_zero_iff_right)
  then show "ps \<noteq> []" using assms(4) by (simp add: ps_def cap_peers_nonempty)
  then have len: "length ps = length ?s" using selectEager_length [OF assms(4)] by simp
  have "filter IsEager (map classify_peer (zip ps ?s)) =
      map (\<lambda>p. classify_peer (p, True)) (map fst (filter snd (zip ps ?s)))"
    by (auto simp: filter_map comp_def classify_peer_def intro!: map_cong filter_cong)
  then show "eagerPeers (Reclassify sortf ov peers) = map (\<lambda>p. classify_peer (p, True)) (nths ps E)"
    using assms(5) unfolding filter_zip_nths [OF len]
    by (simp add: Reclassify_def Let_def ps_def [symmetric] E_def)
  have "filter (\<lambda>p. \<not> IsEager p) (map classify_peer (zip ps ?s)) =
      map (\<lambda>p. classify_peer (p, False)) (map fst (filter (\<lambda>x. \<not> snd x) (zip ps ?s)))"
    by (auto simp: filter_map comp_def classify_peer_def intro!: map_cong filter_cong)
  then show "lazyPeers (Reclassify sortf ov peers) = map (\<lambda>p. classify_peer (p, False)) (nths ps (- E))"
    using assms(5) unfolding filter_zip_nths_not [OF len]
    by (simp add: Reclassify_def Let_def ps_def [symmetric] E_def)
qed

text \<open>The peers a classification looks at, in order of round-trip time.\<close>

definition candidates :: "(PeerInfo list \<Rightarrow> PeerInfo list) \<Rightarrow> Overlay \<Rightarrow> PeerInfo list \<Rightarrow> PeerInfo list" where
  "candidates sortf ov peers = cap_peers (ov_cfg ov) (sortf (filter (\<lambda>p. NodeID p \<noteq> self ov) peers))"

lemma candidates_sorted:
  assumes "rtt_sort sortf" and "cfg_ok (ov_cfg ov)"
  shows "sorted (map RTT (candidates sortf ov peers))"
proof -
  obtain A where "candidates sortf ov peers = nths (sortf (filter (\<lambda>p. NodeID p \<noteq> self ov) peers)) A"
    using cap_peers_eq [OF assms(2)] unfolding candidates_def by blast
  then show ?thesis using assms(1) by (simp add: map_nths sorted_nths rtt_sort_def)
qed

lemma candidates_length:
  assumes "rtt_sort sortf" and "cfg_ok (ov_cfg ov)"
  shows "int (length (candidates sortf ov peers)) =
    min (int (length (filter (\<lambda>p. NodeID p \<noteq> self ov) peers))) (MaxEagerPeers (ov_cfg ov) + MaxLazyPeers (ov_cfg ov))"
proof -
  have "length (sortf (filter (\<lambda>p. NodeID p \<noteq> self ov) peers)) = length (filter (\<lambda>p. NodeID p \<noteq> self ov) peers)"
    using assms(1) unfolding rtt_sort_def by (metis size_mset)
  then show ?thesis
    using cap_peers_eq [OF assms(2), of "sortf (filter (\<lambda>p. NodeID p \<noteq> self ov) peers)"]
    by (auto simp: candidates_def)
qed

lemma candidates_subset:
  assumes "rtt_sort sortf" and "cfg_ok (ov_cfg ov)"
  shows "mset (candidates sortf ov peers) \<subseteq># mset (filter (\<lambda>p. NodeID p \<noteq> self ov) peers)"
proof -
  let ?s = "sortf (filter (\<lambda>p. NodeID p \<noteq> self ov) peers)"
  obtain A where "candidates sortf ov peers = nths ?s A"
    using cap_peers_eq [OF assms(2)] unfolding candidates_def by blast
  moreover have "mset (nths ?s A) \<subseteq># mset ?s"
    unfolding mset_nths_compl [of ?s A, symmetric] by simp
  ultimately show ?thesis using assms(1) by (simp add: rtt_sort_def)
qed

lemma truncate_classify [simp]: "PeerInfo.truncate (classify_peer (p, b)) = p"
  by (simp add: classify_peer_def PeerInfo.defs)

lemma classify_fields [simp]:
  "IsEager (classify_peer (p, b)) = b" "RTT (classify_peer (p, b)) = RTT p"
  "NodeID (classify_peer (p, b)) = NodeID p" "Addr (classify_peer (p, b)) = Addr p"
  by (simp_all add: classify_peer_def)

lemmas Reclassify_nths = Reclassify_lists [folded candidates_def]

lemma Reclassify_empty:
  "filter (\<lambda>p. NodeID p \<noteq> self ov) peers = [] \<Longrightarrow>
   eagerPeers (Reclassify sortf ov peers) = [] \<and> lazyPeers (Reclassify sortf ov peers) = []"
  by (simp add: Reclassify_def)

lemma Reclassify_eager_length:
  assumes "rtt_sort sortf" and "cfg_ok (ov_cfg ov)" and "filter (\<lambda>p. NodeID p \<noteq> self ov) peers \<noteq> []"
  shows "int (length (eagerPeers (Reclassify sortf ov peers))) = eager_count (ov_cfg ov) (candidates sortf ov peers)"
    and "length (eagerPeers (Reclassify sortf ov peers)) + length (lazyPeers (Reclassify sortf ov peers)) =
      length (candidates sortf ov peers)"
proof -
  let ?ps = "candidates sortf ov peers"
  let ?E = "on (selectEager (ov_cfg ov) ?ps)"
  note lists = Reclassify_nths [OF assms]
  have "length ?ps = length (selectEager (ov_cfg ov) ?ps)"
    using selectEager_length [OF assms(2) lists(3)] by simp
  from length_nths_on [OF this]
  show "int (length (eagerPeers (Reclassify sortf ov peers))) = eager_count (ov_cfg ov) ?ps"
    using card_selectEager [OF assms(2) lists(3)] lists(1) by simp
  have "size (mset (nths ?ps ?E) + mset (nths ?ps (- ?E))) = size (mset ?ps)"
    unfolding mset_nths_compl ..
  then show "length (eagerPeers (Reclassify sortf ov peers)) + length (lazyPeers (Reclassify sortf ov peers)) =
      length ?ps"
    using lists(1,2) by simp
qed

section \<open>Properties\<close>

text \<open>The clusters of a list of peers are consecutive non-empty blocks of its indices, in order
  and without omission, and a block starts exactly at index 0 and after each gap larger than
  the threshold.\<close>

theorem findRTTClusters_correct:
  "concat (findRTTClusters peers) = [0..<length peers] \<and> [] \<notin> set (findRTTClusters peers) \<and>
   map hd (findRTTClusters peers) = filter (starts_cluster peers) [0..<length peers]"
  using concat_clusters cluster_nonempty cluster_heads by blast

text \<open>C19: capping the peers returns exactly the allowed number of them, in the same order, keeps the
  nearest one, and keeps the first peer of every cluster when there are enough slots.\<close>

theorem selectDiversePeers_correct:
  assumes "0 < totalMax" and "int (length peers) > totalMax"
  shows "subseq (selectDiversePeers peers totalMax) peers \<and>
    length (selectDiversePeers peers totalMax) = nat totalMax \<and>
    peers ! 0 \<in> set (selectDiversePeers peers totalMax) \<and>
    (int (length (findRTTClusters peers)) \<le> totalMax \<longrightarrow>
      (\<forall>c \<in> set (findRTTClusters peers). peers ! hd c \<in> set (selectDiversePeers peers totalMax)))"
proof -
  obtain A where A: "selectDiversePeers peers totalMax = nths peers A"
      "length (selectDiversePeers peers totalMax) = nat totalMax" "0 \<in> A"
      "int (length (findRTTClusters peers)) \<le> totalMax \<longrightarrow> (\<forall>c \<in> set (findRTTClusters peers). hd c \<in> A)"
    using selectDiversePeers_eq [OF assms] by blast
  have "subseq (selectDiversePeers peers totalMax) peers"
    unfolding A(1) subseq_conv_nths by blast
  moreover have "k < length peers \<Longrightarrow> k \<in> A \<Longrightarrow> peers ! k \<in> set (selectDiversePeers peers totalMax)" for k
    unfolding A(1) by (rule nth_in_nths)
  moreover have "0 < length peers" using assms by auto
  ultimately show ?thesis using A(2,3,4) head_less by blast
qed

text \<open>Eight peers nearby and one in each of two distant regions.\<close>

definition peer_ms :: "string \<Rightarrow> int \<Rightarrow> PeerInfo" where
  "peer_ms n r = \<lparr>NodeID = n, Addr = n, RTT = r * 1000000\<rparr>"

lemma peer_ms_fields [simp]: "NodeID (peer_ms n r) = n" "RTT (peer_ms n r) = r * 1000000"
  by (simp_all add: peer_ms_def)

definition regions :: "PeerInfo list" where
  "regions = [peer_ms ''a'' 1, peer_ms ''b'' 2, peer_ms ''c'' 2, peer_ms ''d'' 3, peer_ms ''e'' 80, peer_ms ''f'' 200]"

lemmas overlay_eval = regions_def findRTTClusters_def cluster_step_def rttGapThreshold_def
  upt_rec Let_def

theorem selectDiversePeers_correct_witness:
  "length (selectDiversePeers regions 4) = 4 \<and> peer_ms ''f'' 200 \<in> set (selectDiversePeers regions 4)"
proof -
  have "[5] \<in> set (findRTTClusters regions)" "int (length (findRTTClusters regions)) \<le> 4"
    by (simp_all add: overlay_eval)
  moreover have "int (length regions) > 4" by (simp add: regions_def)
  ultimately show ?thesis
    using selectDiversePeers_correct [of 4 regions] by (force simp: regions_def)
qed


definition defaultOverlay :: Overlay where
  "defaultOverlay =
     Overlay_New ''self'' \<lparr>MinEagerPeers = 0, MaxEagerPeers = 0, MinLazyPeers = 0, MaxLazyPeers = 0\<rparr>"

lemma defaultOverlay_cfg [simp]:
  "ov_cfg defaultOverlay = \<lparr>MinEagerPeers = 4, MaxEagerPeers = 8, MinLazyPeers = 2, MaxLazyPeers = 6\<rparr>"
  "self defaultOverlay = ''self''"
  by (simp_all add: defaultOverlay_def Overlay_New_def OverlayConfig_withDefaults_def)

lemma rtt_sort_sort_key: "rtt_sort (sort_key RTT)"
  by (simp add: rtt_sort_def)

lemma others_regions: "filter (\<lambda>p. NodeID p \<noteq> ''self'') (peer_ms ''self'' 0 # regions) = regions"
  by (simp add: regions_def)




text \<open>The nearest candidate is eager whenever any is; in one cluster the eager candidates are the
  nearest.\<close>

lemma eager_nearest:
  assumes "cfg_ok cfg" and "ps \<noteq> []" and "eager_count cfg ps > 0"
  shows "0 \<in> on (selectEager cfg ps)"
proof (cases "length (findRTTClusters ps) \<le> 1")
  case True
  then show ?thesis using selectEager_single [OF assms(1,2)] assms(3) by (simp add: eager_count_def)
next
  case False
  let ?r = "min (nat (eager_budget cfg (length ps))) (length (findRTTClusters ps))"
  have "sampled (findRTTClusters ps) ?r \<subseteq> on (selectEager cfg ps)"
    using selectEager_many(3) [OF assms(1), of ps] False by simp
  moreover have "0 < ?r" using False assms(2,3) by (simp add: eager_count_def)
  ultimately show ?thesis using sampled_nearest [OF _ assms(2)] by auto
qed

lemma eager_before_lazy:
  fixes sortf ov peers
  assumes "rtt_sort sortf" and "cfg_ok (ov_cfg ov)" and "filter (\<lambda>p. NodeID p \<noteq> self ov) peers \<noteq> []"
    and one: "length (findRTTClusters (candidates sortf ov peers)) \<le> 1"
    and e: "e \<in> set (eagerPeers (Reclassify sortf ov peers))" and l: "l \<in> set (lazyPeers (Reclassify sortf ov peers))"
  shows "RTT e \<le> RTT l"
proof -
  let ?ps = "candidates sortf ov peers"
  let ?E = "on (selectEager (ov_cfg ov) ?ps)"
  note lists = Reclassify_nths [OF assms(1,2,3)]
  have E: "?E = {..<nat (single_cluster_count (ov_cfg ov) ?ps)}"
    using selectEager_single [OF assms(2) lists(3) one] by blast
  obtain i j where "i < length ?ps" "i \<in> ?E" "e = classify_peer (?ps ! i, True)"
    "j < length ?ps" "j \<notin> ?E" "l = classify_peer (?ps ! j, False)"
    using e l lists(1,2) by (auto simp: set_nths)
  moreover from this have "i \<le> j" unfolding E by auto
  ultimately show ?thesis
    using candidates_sorted [OF assms(1,2), of peers] sorted_nth_mono [of "map RTT ?ps" i j] by simp
qed

text \<open>C21: which peers are eager. With several clusters and an eager slot for each, the first peer of
  every cluster is eager; the nearest peer is eager whenever any is; with one cluster the eager
  peers are the nearest ones.\<close>

theorem Reclassify_coverage:
  fixes sortf ov peers
  assumes "rtt_sort sortf" and "cfg_ok (ov_cfg ov)" and "filter (\<lambda>p. NodeID p \<noteq> self ov) peers \<noteq> []"
  defines "ps \<equiv> candidates sortf ov peers" and "ov' \<equiv> Reclassify sortf ov peers"
  shows "(1 < length (findRTTClusters ps) \<and> length (findRTTClusters ps) \<le> length (eagerPeers ov') \<longrightarrow>
      (\<forall>c \<in> set (findRTTClusters ps). classify_peer (ps ! hd c, True) \<in> set (eagerPeers ov'))) \<and>
    (eagerPeers ov' \<noteq> [] \<longrightarrow> classify_peer (ps ! 0, True) \<in> set (eagerPeers ov')) \<and>
    (length (findRTTClusters ps) \<le> 1 \<longrightarrow>
      (\<forall>e \<in> set (eagerPeers ov'). \<forall>l \<in> set (lazyPeers ov'). RTT e \<le> RTT l))"
proof (intro conjI impI ballI)
  let ?cfg = "ov_cfg ov" and ?cs = "findRTTClusters ps"
  let ?E = "on (selectEager ?cfg ps)"
  let ?r = "min (nat (eager_budget ?cfg (length ps))) (length ?cs)"
  note lists = Reclassify_nths [OF assms(1,2,3), folded ps_def ov'_def]
  note len = Reclassify_eager_length(1) [OF assms(1,2,3), folded ps_def ov'_def]
  have eager: "classify_peer (ps ! k, True) \<in> set (eagerPeers ov')" if "k \<in> ?E" for k
  proof -
    have "k < length ps" using that on_bound selectEager_length [OF assms(2) lists(3)] by fastforce
    then show ?thesis using that lists(1) by (auto intro!: imageI nth_in_nths)
  qed
  have many: "sampled ?cs ?r \<subseteq> ?E" if "1 < length ?cs"
    using selectEager_many(3) [OF assms(2), of ps] that by simp
  show "classify_peer (ps ! hd c, True) \<in> set (eagerPeers ov')"
    if "1 < length ?cs \<and> length ?cs \<le> length (eagerPeers ov')" "c \<in> set ?cs" for c
  proof -
    have "eager_budget ?cfg (length ps) = int (length (eagerPeers ov'))"
      using that len by (simp add: eager_count_def)
    then have "?r = length ?cs" using that by simp
    then have "hd c \<in> ?E" using many that by (auto simp: sampled_all)
    then show ?thesis by (rule eager)
  qed
  show "classify_peer (ps ! 0, True) \<in> set (eagerPeers ov')" if "eagerPeers ov' \<noteq> []"
  proof (rule eager)
    have "eager_count ?cfg ps > 0" using len that by (metis length_greater_0_conv of_nat_0_less_iff)
    then show "0 \<in> ?E" by (rule eager_nearest [OF assms(2) lists(3)])
  qed
  show "RTT e \<le> RTT l"
    if "length ?cs \<le> 1" and "e \<in> set (eagerPeers ov')" and "l \<in> set (lazyPeers ov')" for e l
    using eager_before_lazy [OF assms(1,2,3)] that by (simp add: ps_def ov'_def)
qed

theorem Reclassify_coverage_witness:
  "classify_peer (peer_ms ''f'' 200, True) \<in>
     set (EagerPeers (Reclassify (sort_key RTT) defaultOverlay (peer_ms ''self'' 0 # regions)))"
proof -
  let ?in = "peer_ms ''self'' 0 # regions"
  have cfg: "cfg_ok (ov_cfg defaultOverlay)" by (simp add: cfg_ok_def)
  have fil: "filter (\<lambda>p. NodeID p \<noteq> self defaultOverlay) ?in \<noteq> []"
    unfolding defaultOverlay_cfg others_regions by (simp add: regions_def)
  have ps: "candidates (sort_key RTT) defaultOverlay ?in = regions"
    unfolding candidates_def defaultOverlay_cfg others_regions by (simp add: cap_peers_def regions_def)
  have cs: "findRTTClusters regions = [[0, 1, 2, 3], [4], [5]]" by (simp add: overlay_eval)
  have "int (length (eagerPeers (Reclassify (sort_key RTT) defaultOverlay ?in))) = 4"
    unfolding Reclassify_eager_length(1) [OF rtt_sort_sort_key cfg fil] ps eager_count_def cs
    by (simp add: eager_budget_def Let_def regions_def)
  then show ?thesis
    using Reclassify_coverage [OF rtt_sort_sort_key cfg fil, unfolded ps cs]
    by (simp add: EagerPeers_def regions_def)
qed

text \<open>The gap before a peer.\<close>

definition gap_at :: "PeerInfo list \<Rightarrow> nat \<Rightarrow> int" where
  "gap_at peers i = RTT (peers ! i) - RTT (peers ! (i - 1))"

lemma gap_loop_correct:
  "sorted_wrt (<) is \<Longrightarrow> gap_loop peers is (m, g) = (m', g') \<Longrightarrow>
   (\<forall>i \<in> set is. gap_at peers i \<le> m') \<and> m \<le> m' \<and>
   ((m', g') = (m, g) \<or>
    (\<exists>i \<in> set is. g' = int i \<and> m' = gap_at peers i \<and> m < m' \<and> (\<forall>j \<in> set is. j < i \<longrightarrow> gap_at peers j < m')))"
proof (induction "is" arbitrary: m g)
  case (Cons i "is")
  let ?gap = "gap_at peers i"
  have srt: "sorted_wrt (<) is" and lt: "\<forall>j \<in> set is. i < j" using Cons.prems(1) by simp_all
  show ?case
  proof (cases "?gap > m")
    case True
    then have "gap_loop peers is (?gap, int i) = (m', g')"
      using Cons.prems(2) by (simp add: gap_at_def)
    note ih = Cons.IH [OF srt this]
    then have all: "\<forall>k \<in> set (i # is). gap_at peers k \<le> m'" "m \<le> m'" using True by auto
    from ih have "(m', g') = (?gap, int i) \<or> (\<exists>k \<in> set is. g' = int k \<and> m' = gap_at peers k \<and> ?gap < m' \<and>
      (\<forall>j \<in> set is. j < k \<longrightarrow> gap_at peers j < m'))" by blast
    then show ?thesis
    proof
      assume "(m', g') = (?gap, int i)"
      moreover have "\<not> j < i" if "j \<in> set (i # is)" for j using lt that by auto
      ultimately show ?thesis using all True by auto
    next
      assume "\<exists>k \<in> set is. g' = int k \<and> m' = gap_at peers k \<and> ?gap < m' \<and>
        (\<forall>j \<in> set is. j < k \<longrightarrow> gap_at peers j < m')"
      then obtain k where k: "k \<in> set is" "g' = int k" "m' = gap_at peers k" "?gap < m'"
        "\<forall>j \<in> set is. j < k \<longrightarrow> gap_at peers j < m'" by blast
      have "\<forall>j \<in> set (i # is). j < k \<longrightarrow> gap_at peers j < m'" using k(4,5) by simp
      moreover have "m < m'" using k(4) True by simp
      ultimately show ?thesis using all k(1,2,3) by (metis list.set_intros(2))
    qed
  next
    case False
    then have "gap_loop peers is (m, g) = (m', g')" using Cons.prems(2) by (simp add: gap_at_def)
    note ih = Cons.IH [OF srt this]
    then have all: "\<forall>k \<in> set (i # is). gap_at peers k \<le> m'" "m \<le> m'" using False by auto
    from ih have "(m', g') = (m, g) \<or> (\<exists>k \<in> set is. g' = int k \<and> m' = gap_at peers k \<and> m < m' \<and>
      (\<forall>j \<in> set is. j < k \<longrightarrow> gap_at peers j < m'))" by blast
    moreover have "gap_at peers i < m'" if "m < m'" using that False by simp
    ultimately show ?thesis using all by (metis set_ConsD list.set_intros(2))
  qed
qed simp

lemma single_cluster_gap:
  assumes "length (findRTTClusters peers) \<le> 1" and "0 < i" and "i < length peers"
  shows "gap_at peers i \<le> rttGapThreshold"
proof (rule ccontr)
  assume "\<not> gap_at peers i \<le> rttGapThreshold"
  then have "starts_cluster peers i" by (simp add: starts_cluster_def gap_at_def)
  then have "{0, i} \<subseteq> set (map hd (findRTTClusters peers))"
    using assms(3) by (auto simp: cluster_heads starts_cluster_def)
  then have "card {0, i} \<le> length (findRTTClusters peers)"
    by (metis card_length card_mono finite_set length_map order.trans)
  then show False using assms by simp
qed

text \<open>When there are enough peers, the gap search returns the position of the largest gap, the
  earliest if there are several, provided that gap reaches the threshold; otherwise it returns
  the largest allowed number of eager peers. Since a single cluster has no gap above the
  threshold, the split there is at a gap of exactly the threshold or at the maximum.\<close>

theorem findRTTGap_correct:
  assumes "cfg_ok cfg" and "int (length peers) > MinEagerPeers cfg + MinLazyPeers cfg"
  defines "spots \<equiv> {nat (MinEagerPeers cfg)..<nat (int (length peers) - MinLazyPeers cfg)}"
  shows "((\<forall>i \<in> spots. gap_at peers i < rttGapThreshold) \<and>
      findRTTGap cfg peers = min (int (length peers)) (MaxEagerPeers cfg) \<or>
    (\<exists>i \<in> spots. findRTTGap cfg peers = int i \<and> rttGapThreshold \<le> gap_at peers i \<and>
      (\<forall>j \<in> spots. gap_at peers j \<le> gap_at peers i \<and> (j < i \<longrightarrow> gap_at peers j < gap_at peers i)) \<and>
      (length (findRTTClusters peers) \<le> 1 \<longrightarrow> gap_at peers i = rttGapThreshold)))"
proof -
  let ?is = "[nat (MinEagerPeers cfg)..<nat (int (length peers) - MinLazyPeers cfg)]"
  obtain m g where loop: "gap_loop peers ?is (0, MinEagerPeers cfg) = (m, g)" by fastforce
  have pos: "MinEagerPeers cfg > 0" "MinLazyPeers cfg > 0" using assms(1) by (simp_all add: cfg_ok_def)
  have f: "findRTTGap cfg peers =
      (if m < rttGapThreshold then min (int (length peers)) (MaxEagerPeers cfg) else g)"
    using assms(2) pos loop by (simp add: findRTTGap_def min_def)
  have set_is: "set ?is = spots" by (simp add: spots_def)
  have gl: "\<forall>i \<in> spots. gap_at peers i \<le> m" "(m, g) = (0, MinEagerPeers cfg) \<or>
      (\<exists>i \<in> spots. g = int i \<and> m = gap_at peers i \<and> 0 < m \<and> (\<forall>j \<in> spots. j < i \<longrightarrow> gap_at peers j < m))"
    using gap_loop_correct [OF _ loop, unfolded set_is] by (blast intro: sorted_wrt_upt)+
  show ?thesis
  proof (cases "m < rttGapThreshold")
    case True
    then have "\<forall>i \<in> spots. gap_at peers i < rttGapThreshold"
      using gl(1) by (meson order.strict_trans1)
    then show ?thesis using True f by simp
  next
    case False
    then have "m \<noteq> 0" by (simp add: rttGapThreshold_def)
    then obtain i where i: "i \<in> spots" "g = int i" "m = gap_at peers i"
      "\<forall>j \<in> spots. j < i \<longrightarrow> gap_at peers j < m" "\<forall>j \<in> spots. gap_at peers j \<le> m"
      using gl by blast
    have "0 < i" "i < length peers" using i(1) pos unfolding spots_def atLeastLessThan_iff by linarith+
    then have "gap_at peers i = rttGapThreshold" if "length (findRTTClusters peers) \<le> 1"
      using single_cluster_gap [OF that] False i(3) by (metis not_less order_antisym)
    moreover have "findRTTGap cfg peers = int i" "rttGapThreshold \<le> gap_at peers i"
      using False f i(2,3) by simp_all
    ultimately show ?thesis using i(1,4,5) unfolding i(3) by blast
  qed
qed

theorem findRTTGap_correct_witness:
  "let ps = map (\<lambda>r. peer_ms ''x'' r) [1, 2, 3, 4, 5, 10, 11, 12] in
   findRTTGap (ov_cfg defaultOverlay) ps = 5 \<and> gap_at ps 5 = rttGapThreshold"
proof -
  let ?ps = "map (\<lambda>r. peer_ms ''x'' r) [1, 2, 3, 4, 5, 10, 11, 12]"
  have "cfg_ok (ov_cfg defaultOverlay)" by (simp add: cfg_ok_def)
  moreover have "{4..<6 :: nat} = {4, 5}" by auto
  moreover have "gap_at ?ps 5 = rttGapThreshold" "gap_at ?ps 4 < rttGapThreshold"
    by (simp_all add: gap_at_def rttGapThreshold_def)
  ultimately show ?thesis
    using findRTTGap_correct [of "ov_cfg defaultOverlay" ?ps] by (simp add: Let_def)
qed

end
