(* ===== verification/Transport.thy ===== *)
theory Transport
  imports Prelude "HOL-Library.AList"
begin

text \<open>
  \<open>transport/transport.go\<close> and \<open>transport/dispatch.go\<close>: the table of application connections and the
  dispatch of inbound streams and datagrams by their first byte.

  A QUIC connection is a number; what quic-go and the resolver do with it is the record
  \<open>quic_net\<close>, a parameter of the operations. The table \<open>appConns\<close> is an association list from
  addresses to connections; \<open>closedConns\<close> are the connections this side closed and \<open>loops\<close> those
  on which the three accept goroutines were started. Handlers are values of a type \<open>'h\<close>: the
  model says which handler is called with which bytes.
\<close>

section \<open>Model\<close>

definition MsgTypeEagerGossip :: byte where "MsgTypeEagerGossip = 0x02"
definition StreamTypeLazyBatch :: byte where "StreamTypeLazyBatch = 0x11"
definition StreamTypeRepair :: byte where "StreamTypeRepair = 0x16"
definition StreamTypeRelay :: byte where "StreamTypeRelay = 0x40"
definition MsgTypeAddrReflect :: byte where "MsgTypeAddrReflect = 0x30"

lemmas type_bytes = MsgTypeEagerGossip_def StreamTypeLazyBatch_def StreamTypeRepair_def
  StreamTypeRelay_def MsgTypeAddrReflect_def

type_synonym conn = nat

record 'h Transport =
  appConns :: "(string \<times> conn) list"
  closedConns :: "conn list"
  loops :: "conn list"
  tr_closed :: bool
  onEagerGossip :: "'h option"
  onLazyBatch :: "'h option"
  onRepair :: "'h option"
  bidiHandlers :: "byte \<rightharpoonup> 'h"
  uniHandlers :: "byte \<rightharpoonup> 'h"
  datagramHandlers :: "byte \<rightharpoonup> 'h"

text \<open>The network: whether an address resolves, what dialling it gives, and on a connection whether
  it is still up, its remote address, whether a stream opens and whether a datagram is sent.\<close>

record quic_net =
  resolves :: "string \<Rightarrow> bool"
  dials :: "string \<Rightarrow> conn option"
  alive :: "conn \<Rightarrow> bool"
  remoteAddr :: "conn \<Rightarrow> string"
  opensStream :: "conn \<Rightarrow> bool"
  opensUniStream :: "conn \<Rightarrow> bool"
  sends :: "conn \<Rightarrow> bytes \<Rightarrow> bool"

datatype transport_error = TLSRequired | ListenUDPFailed | ListenFailed

record TransportConfig =
  tc_TLS :: bool
  tc_ALPN :: string

definition alpn_of :: "TransportConfig \<Rightarrow> string" where
  "alpn_of cfg = (if tc_ALPN cfg = '''' then ''gossip-mesh/1'' else tc_ALPN cfg)"

definition emptyTransport :: "'h Transport" where
  "emptyTransport = \<lparr>appConns = [], closedConns = [], loops = [], tr_closed = False, onEagerGossip = None,
     onLazyBatch = None, onRepair = None, bidiHandlers = Map.empty, uniHandlers = Map.empty,
     datagramHandlers = Map.empty\<rparr>"

definition Transport_New :: "bool \<Rightarrow> (string \<Rightarrow> bool) \<Rightarrow> TransportConfig \<Rightarrow> transport_error + 'h Transport" where
  "Transport_New listenUDP listen cfg =
     (if \<not> tc_TLS cfg then Inl TLSRequired
      else if \<not> listenUDP then Inl ListenUDPFailed
      else if \<not> listen (alpn_of cfg) then Inl ListenFailed
      else Inr emptyTransport)"

definition SetHandlers :: "'h Transport \<Rightarrow> 'h option \<Rightarrow> 'h option \<Rightarrow> 'h option \<Rightarrow> 'h Transport" where
  "SetHandlers t eager lazy repair = t\<lparr>onEagerGossip := eager, onLazyBatch := lazy, onRepair := repair\<rparr>"

definition RegisterBidiHandler :: "'h Transport \<Rightarrow> byte \<Rightarrow> 'h \<Rightarrow> 'h Transport" where
  "RegisterBidiHandler t typeByte h = t\<lparr>bidiHandlers := (bidiHandlers t)(typeByte \<mapsto> h)\<rparr>"

definition RegisterUniHandler :: "'h Transport \<Rightarrow> byte \<Rightarrow> 'h \<Rightarrow> 'h Transport" where
  "RegisterUniHandler t typeByte h = t\<lparr>uniHandlers := (uniHandlers t)(typeByte \<mapsto> h)\<rparr>"

definition RegisterDatagramHandler :: "'h Transport \<Rightarrow> byte \<Rightarrow> 'h \<Rightarrow> 'h Transport" where
  "RegisterDatagramHandler t typeByte h = t\<lparr>datagramHandlers := (datagramHandlers t)(typeByte \<mapsto> h)\<rparr>"

subsection \<open>Connections\<close>

definition conn_err :: "quic_net \<Rightarrow> 'h Transport \<Rightarrow> conn \<Rightarrow> bool" where
  "conn_err net t c \<longleftrightarrow> c \<in> set (closedConns t) \<or> \<not> alive net c"

definition store_conn :: "'h Transport \<Rightarrow> string \<Rightarrow> conn \<Rightarrow> 'h Transport" where
  "store_conn t addr c = t\<lparr>appConns := AList.update addr c (appConns t)\<rparr>"

definition delete_conn :: "'h Transport \<Rightarrow> string \<Rightarrow> 'h Transport" where
  "delete_conn t addr = t\<lparr>appConns := AList.delete addr (appConns t)\<rparr>"

definition compare_and_delete :: "'h Transport \<Rightarrow> string \<Rightarrow> conn \<Rightarrow> 'h Transport" where
  "compare_and_delete t addr c =
     (if map_of (appConns t) addr = Some c then delete_conn t addr else t)"

definition close_conn :: "'h Transport \<Rightarrow> conn \<Rightarrow> 'h Transport" where
  "close_conn t c = t\<lparr>closedConns := c # closedConns t\<rparr>"

definition startAcceptLoop :: "'h Transport \<Rightarrow> conn \<Rightarrow> 'h Transport" where
  "startAcceptLoop t c = (if tr_closed t then t else t\<lparr>loops := c # loops t\<rparr>)"

definition GetConnection :: "quic_net \<Rightarrow> 'h Transport \<Rightarrow> string \<Rightarrow> conn option \<times> 'h Transport" where
  "GetConnection net t addr =
     (case map_of (appConns t) addr of
        None \<Rightarrow> (None, t)
      | Some c \<Rightarrow> if conn_err net t c then (None, delete_conn t addr) else (Some c, t))"

definition AddConnection :: "quic_net \<Rightarrow> 'h Transport \<Rightarrow> conn \<Rightarrow> 'h Transport" where
  "AddConnection net t c = startAcceptLoop (store_conn t (remoteAddr net c) c) c"

text \<open>The part of \<open>getOrDial\<close> after the dial.\<close>

definition dial_finish :: "quic_net \<Rightarrow> 'h Transport \<Rightarrow> string \<Rightarrow> conn \<Rightarrow> conn \<times> 'h Transport" where
  "dial_finish net t addr c =
     (case map_of (appConns t) addr of
        None \<Rightarrow> (c, startAcceptLoop (store_conn t addr c) c)
      | Some existing \<Rightarrow>
          if \<not> conn_err net t existing then (existing, close_conn t c)
          else (c, startAcceptLoop (store_conn t addr c) c))"

text \<open>\<open>meanwhile\<close> is what other goroutines do to the transport while the dial is under way.\<close>

definition getOrDial ::
  "quic_net \<Rightarrow> ('h Transport \<Rightarrow> 'h Transport) \<Rightarrow> 'h Transport \<Rightarrow> string \<Rightarrow> conn option \<times> 'h Transport" where
  "getOrDial net meanwhile t addr =
     (case GetConnection net t addr of
        (Some c, t1) \<Rightarrow> (Some c, t1)
      | (None, t1) \<Rightarrow>
          if \<not> resolves net addr then (None, t1)
          else (case dials net addr of
                  None \<Rightarrow> (None, meanwhile t1)
                | Some c \<Rightarrow> (let (c', t2) = dial_finish net (meanwhile t1) addr c in (Some c', t2))))"

definition SendDatagram ::
  "quic_net \<Rightarrow> ('h Transport \<Rightarrow> 'h Transport) \<Rightarrow> 'h Transport \<Rightarrow> string \<Rightarrow> bytes \<Rightarrow> bool \<times> 'h Transport" where
  "SendDatagram net meanwhile t addr payload =
     (case getOrDial net meanwhile t addr of
        (None, t1) \<Rightarrow> (False, t1)
      | (Some c, t1) \<Rightarrow> (sends net c payload, t1))"

definition open_on :: "(conn \<Rightarrow> bool) \<Rightarrow> string \<Rightarrow> conn option \<times> 'h Transport \<Rightarrow> conn option \<times> 'h Transport" where
  "open_on opens addr r =
     (case r of
        (None, t1) \<Rightarrow> (None, t1)
      | (Some c, t1) \<Rightarrow>
          if opens c then (Some c, t1)
          else (None, close_conn (compare_and_delete t1 addr c) c))"

text \<open>Opening a stream gives the connection it was opened on.\<close>

definition OpenStream ::
  "quic_net \<Rightarrow> ('h Transport \<Rightarrow> 'h Transport) \<Rightarrow> 'h Transport \<Rightarrow> string \<Rightarrow> conn option \<times> 'h Transport" where
  "OpenStream net meanwhile t addr = open_on (opensStream net) addr (getOrDial net meanwhile t addr)"

definition OpenUniStream ::
  "quic_net \<Rightarrow> ('h Transport \<Rightarrow> 'h Transport) \<Rightarrow> 'h Transport \<Rightarrow> string \<Rightarrow> conn option \<times> 'h Transport" where
  "OpenUniStream net meanwhile t addr = open_on (opensUniStream net) addr (getOrDial net meanwhile t addr)"

definition Shutdown :: "'h Transport \<Rightarrow> 'h Transport" where
  "Shutdown t =
     foldl (\<lambda>t (addr, c). delete_conn (close_conn t c) addr) (t\<lparr>tr_closed := True\<rparr>) (appConns t)"

text \<open>The accept loop on the listener, over the results of its \<open>Accept\<close> calls.\<close>

fun acceptLoop :: "quic_net \<Rightarrow> 'h Transport \<Rightarrow> conn option list \<Rightarrow> 'h Transport" where
  "acceptLoop net t [] = t"
| "acceptLoop net t (None # rs) = (if tr_closed t then t else acceptLoop net t rs)"
| "acceptLoop net t (Some c # rs) =
     acceptLoop net (startAcceptLoop (store_conn t (remoteAddr net c) c) c) rs"

text \<open>The pool is the list of its addresses; the function called for each does nothing.\<close>

definition StartAcceptLoopAll :: "string list option \<Rightarrow> 'h Transport \<Rightarrow> 'h Transport" where
  "StartAcceptLoopAll memberlistPool t =
     (case memberlistPool of None \<Rightarrow> t | Some addrs \<Rightarrow> foldl (\<lambda>t addr. t) t addrs)"

subsection \<open>Dispatch\<close>

text \<open>The outcome of a dispatch: a handler is called with an address and bytes, nothing is called,
  or the type is unknown and only logged.\<close>

datatype 'h dispatch = Handled 'h string bytes | Dropped | UnknownType byte

definition registered :: "(byte \<rightharpoonup> 'h) \<Rightarrow> byte \<Rightarrow> string \<Rightarrow> bytes \<Rightarrow> 'h dispatch" where
  "registered hs ty from rest =
     (case hs ty of Some h \<Rightarrow> Handled h from rest | None \<Rightarrow> UnknownType ty)"

fun dispatchDatagram :: "'h Transport \<Rightarrow> string \<Rightarrow> bytes \<Rightarrow> 'h dispatch" where
  "dispatchDatagram t from [] = Dropped"
| "dispatchDatagram t from (ty # rest) =
     (if ty = MsgTypeEagerGossip
      then (case onEagerGossip t of Some h \<Rightarrow> Handled h from rest | None \<Rightarrow> Dropped)
      else registered (datagramHandlers t) ty from rest)"

text \<open>The loop over the datagrams of a connection, up to the error that ends it.\<close>

definition receiveDatagrams :: "'h Transport \<Rightarrow> string \<Rightarrow> bytes list \<Rightarrow> 'h dispatch list" where
  "receiveDatagrams t from msgs = map (dispatchDatagram t from) msgs"

text \<open>An inbound stream is its bytes and whether it ends with a clean end of file. The second
  component of the result says whether the dispatcher itself closes the stream.\<close>

fun dispatchBidiStream :: "'h Transport \<Rightarrow> string \<Rightarrow> bytes \<Rightarrow> bool \<Rightarrow> 'h dispatch \<times> bool" where
  "dispatchBidiStream t from [] clean = (Dropped, True)"
| "dispatchBidiStream t from (ty # rest) clean =
     (if ty = StreamTypeRepair
      then (case onRepair t of Some h \<Rightarrow> (Handled h from rest, False) | None \<Rightarrow> (Dropped, True))
      else if ty = MsgTypeEagerGossip
      then (case onEagerGossip t of
              Some h \<Rightarrow> (if clean then Handled h from rest else Dropped, True)
            | None \<Rightarrow> (Dropped, True))
      else (case bidiHandlers t ty of
              Some h \<Rightarrow> (Handled h from rest, False)
            | None \<Rightarrow> (UnknownType ty, True)))"

fun dispatchUniStream :: "'h Transport \<Rightarrow> string \<Rightarrow> bytes \<Rightarrow> 'h dispatch" where
  "dispatchUniStream t from [] = Dropped"
| "dispatchUniStream t from (ty # rest) =
     (if ty = StreamTypeLazyBatch
      then (case onLazyBatch t of Some h \<Rightarrow> Handled h from rest | None \<Rightarrow> Dropped)
      else registered (uniHandlers t) ty from rest)"

text \<open>The accept loops of a connection, over the streams accepted until the error that ends them.\<close>

definition acceptBidiStreams :: "'h Transport \<Rightarrow> string \<Rightarrow> (bytes \<times> bool) list \<Rightarrow> ('h dispatch \<times> bool) list" where
  "acceptBidiStreams t from streams = map (\<lambda>(data, clean). dispatchBidiStream t from data clean) streams"

definition acceptUniStreams :: "'h Transport \<Rightarrow> string \<Rightarrow> bytes list \<Rightarrow> 'h dispatch list" where
  "acceptUniStreams t from streams = map (dispatchUniStream t from) streams"

section \<open>The connection table\<close>

text \<open>Between calls the table has one connection per address, and every stored connection has its
  accept loops unless the transport was shut down.\<close>

definition conns_inv :: "'h Transport \<Rightarrow> bool" where
  "conns_inv t \<longleftrightarrow> distinct (map fst (appConns t)) \<and>
     (\<not> tr_closed t \<longrightarrow> snd ` set (appConns t) \<subseteq> set (loops t))"

lemma store_conn_fields [simp]:
  "map_of (appConns (store_conn t a c)) = (map_of (appConns t))(a \<mapsto> c)"
  "closedConns (store_conn t a c) = closedConns t" "loops (store_conn t a c) = loops t"
  "tr_closed (store_conn t a c) = tr_closed t"
  by (simp_all add: store_conn_def update_conv')

lemma startAcceptLoop_fields [simp]:
  "appConns (startAcceptLoop t c) = appConns t" "closedConns (startAcceptLoop t c) = closedConns t"
  "tr_closed (startAcceptLoop t c) = tr_closed t"
  "loops (startAcceptLoop t c) = (if tr_closed t then loops t else c # loops t)"
  by (simp_all add: startAcceptLoop_def)

lemma delete_conn_fields [simp]:
  "map_of (appConns (delete_conn t a)) = (map_of (appConns t))(a := None)"
  "closedConns (delete_conn t a) = closedConns t" "loops (delete_conn t a) = loops t"
  "tr_closed (delete_conn t a) = tr_closed t"
  by (simp_all add: delete_conn_def delete_conv')

lemma close_conn_fields [simp]:
  "appConns (close_conn t c) = appConns t" "loops (close_conn t c) = loops t"
  "tr_closed (close_conn t c) = tr_closed t" "closedConns (close_conn t c) = c # closedConns t"
  by (simp_all add: close_conn_def)

lemma conns_inv_close [simp]: "conns_inv (close_conn t c) = conns_inv t"
  by (simp add: conns_inv_def)

lemma conns_inv_store [inv_intro]: "conns_inv t \<Longrightarrow> conns_inv (startAcceptLoop (store_conn t a c) c)"
  using subsetD [OF set_alist_update [of a c "appConns t"]]
  by (force simp: conns_inv_def store_conn_def distinct_update)

lemma conns_inv_delete [inv_intro]: "conns_inv t \<Longrightarrow> conns_inv (delete_conn t a)"
  by (auto simp: conns_inv_def delete_conn_def AList.delete_eq distinct_map inj_on_def)

lemma conns_inv_GetConnection [inv_intro]: "conns_inv t \<Longrightarrow> conns_inv (snd (GetConnection net t a))"
  by (auto simp: GetConnection_def split: option.splits intro: inv_intro)

lemma conns_inv_dial_finish [inv_intro]: "conns_inv t \<Longrightarrow> conns_inv (snd (dial_finish net t a c))"
  by (auto simp: dial_finish_def split: option.splits intro: inv_intro)

lemma conns_inv_getOrDial [inv_intro]:
  assumes "conns_inv t" and "\<And>u. conns_inv u \<Longrightarrow> conns_inv (mw u)"
  shows "conns_inv (snd (getOrDial net mw t a))"
proof (cases "GetConnection net t a")
  case (Pair r t1)
  then have t1: "conns_inv t1" using conns_inv_GetConnection [OF assms(1), of net a] by simp
  then have "conns_inv (snd (dial_finish net (mw t1) a c))" for c by (intro inv_intro assms(2))
  then show ?thesis using Pair t1 assms(2) by (simp add: getOrDial_def split_def Let_def split: option.splits)
qed

lemma conns_inv_open_on [inv_intro]: "conns_inv (snd r) \<Longrightarrow> conns_inv (snd (open_on f a r))"
  by (auto simp: open_on_def compare_and_delete_def split: option.splits prod.splits intro: inv_intro)

lemma GetConnection_cases:
  assumes "GetConnection net t a = (r, t1)"
  obtains (hit) c where "r = Some c" "t1 = t" "map_of (appConns t) a = Some c" "\<not> conn_err net t c"
  | (miss) "r = None" "map_of (appConns t1) a = None" "closedConns t1 = closedConns t"
proof (cases "map_of (appConns t) a")
  case None
  then show thesis using assms miss by (simp add: GetConnection_def)
next
  case (Some c)
  show thesis
  proof (cases "conn_err net t c")
    case True
    then have "r = None" "t1 = delete_conn t a" using assms Some by (simp_all add: GetConnection_def)
    then show thesis using miss by simp
  next
    case False
    then have "r = Some c" "t1 = t" using assms Some by (simp_all add: GetConnection_def)
    then show thesis using hit Some False by blast
  qed
qed

lemma dial_finish_stored:
  "dial_finish net t a c = (c', t') \<Longrightarrow> map_of (appConns t') a = Some c'"
  by (auto simp: dial_finish_def split: option.splits if_splits)

lemma dial_finish_live:
  "dial_finish net t a c = (c', t') \<Longrightarrow> \<not> conn_err net t c \<Longrightarrow> map_of (appConns t) a \<noteq> Some c \<Longrightarrow>
   \<not> conn_err net t' c'"
  by (auto simp: dial_finish_def conn_err_def split: option.splits if_splits)

text \<open>What can happen to a transport: its operations in any order, each dial with other operations
  going on meanwhile.\<close>

inductive tr_steps :: "'h Transport \<Rightarrow> 'h Transport \<Rightarrow> bool" where
  tr_refl: "tr_steps t t"
| tr_set: "tr_steps t u \<Longrightarrow> tr_steps t (SetHandlers u e l r)"
| tr_bidi: "tr_steps t u \<Longrightarrow> tr_steps t (RegisterBidiHandler u ty h)"
| tr_uni: "tr_steps t u \<Longrightarrow> tr_steps t (RegisterUniHandler u ty h)"
| tr_dgram: "tr_steps t u \<Longrightarrow> tr_steps t (RegisterDatagramHandler u ty h)"
| tr_get: "tr_steps t u \<Longrightarrow> tr_steps t (snd (GetConnection net u a))"
| tr_add: "tr_steps t u \<Longrightarrow> tr_steps t (AddConnection net u c)"
| tr_send: "tr_steps t u \<Longrightarrow> \<forall>v. tr_steps v (mw v) \<Longrightarrow> tr_steps t (snd (SendDatagram net mw u a m))"
| tr_open: "tr_steps t u \<Longrightarrow> \<forall>v. tr_steps v (mw v) \<Longrightarrow> tr_steps t (snd (OpenStream net mw u a))"
| tr_openuni: "tr_steps t u \<Longrightarrow> \<forall>v. tr_steps v (mw v) \<Longrightarrow> tr_steps t (snd (OpenUniStream net mw u a))"
| tr_accept: "tr_steps t u \<Longrightarrow> tr_steps t (acceptLoop net u rs)"
| tr_shutdown: "tr_steps t u \<Longrightarrow> tr_steps t (Shutdown u)"

lemma SendDatagram_state: "snd (SendDatagram net mw t a m) = snd (getOrDial net mw t a)"
  by (simp add: SendDatagram_def split: prod.splits option.splits)

lemma handler_fields [simp]:
  "appConns (SetHandlers t e l r) = appConns t" "loops (SetHandlers t e l r) = loops t"
  "tr_closed (SetHandlers t e l r) = tr_closed t"
  "appConns (RegisterBidiHandler t ty h) = appConns t" "loops (RegisterBidiHandler t ty h) = loops t"
  "tr_closed (RegisterBidiHandler t ty h) = tr_closed t"
  "appConns (RegisterUniHandler t ty h) = appConns t" "loops (RegisterUniHandler t ty h) = loops t"
  "tr_closed (RegisterUniHandler t ty h) = tr_closed t"
  "appConns (RegisterDatagramHandler t ty h) = appConns t" "loops (RegisterDatagramHandler t ty h) = loops t"
  "tr_closed (RegisterDatagramHandler t ty h) = tr_closed t"
  by (simp_all add: SetHandlers_def RegisterBidiHandler_def RegisterUniHandler_def RegisterDatagramHandler_def)

lemma conns_inv_accept [inv_intro]: "conns_inv t \<Longrightarrow> conns_inv (acceptLoop net t rs)"
  by (induction net t rs rule: acceptLoop.induct) (auto intro: inv_intro)

lemma Shutdown_fold:
  fixes t :: "'h Transport"
  defines "f \<equiv> \<lambda>t :: 'h Transport. \<lambda>(a, c). delete_conn (close_conn t c) a"
  shows "conns_inv t \<Longrightarrow> conns_inv (foldl f t cs)"
    and "tr_closed (foldl f t cs) = tr_closed t" and "loops (foldl f t cs) = loops t"
    and "set (closedConns (foldl f t cs)) = snd ` set cs \<union> set (closedConns t)"
    and "set (appConns (foldl f t cs)) = {x \<in> set (appConns t). fst x \<notin> fst ` set cs}"
proof -
  have f: "f t (a, c) = delete_conn (close_conn t c) a" for t a c by (simp add: f_def)
  show "conns_inv t \<Longrightarrow> conns_inv (foldl f t cs)"
    by (induction cs arbitrary: t) (auto simp: f conns_inv_delete)
  show "tr_closed (foldl f t cs) = tr_closed t" "loops (foldl f t cs) = loops t"
    by (induction cs arbitrary: t) (auto simp: f)
  show "set (closedConns (foldl f t cs)) = snd ` set cs \<union> set (closedConns t)"
    by (induction cs arbitrary: t) (auto simp: f)
  show "set (appConns (foldl f t cs)) = {x \<in> set (appConns t). fst x \<notin> fst ` set cs}"
    by (induction cs arbitrary: t) (auto simp: f delete_conn_def AList.delete_eq)
qed

lemma conns_inv_Shutdown [inv_intro]: "conns_inv t \<Longrightarrow> conns_inv (Shutdown t)"
  unfolding Shutdown_def by (rule Shutdown_fold(1)) (simp add: conns_inv_def)

lemma Shutdown_fields [simp]:
  "tr_closed (Shutdown t)" "loops (Shutdown t) = loops t" "appConns (Shutdown t) = []"
  "set (closedConns (Shutdown t)) = snd ` set (appConns t) \<union> set (closedConns t)"
proof -
  show "tr_closed (Shutdown t)" "loops (Shutdown t) = loops t"
    "set (closedConns (Shutdown t)) = snd ` set (appConns t) \<union> set (closedConns t)"
    by (simp_all add: Shutdown_def Shutdown_fold)
  have "set (appConns (Shutdown t)) = {}"
    using Shutdown_fold(5) [of "t\<lparr>tr_closed := True\<rparr>" "appConns t"]
    by (auto simp: Shutdown_def)
  then show "appConns (Shutdown t) = []" by simp
qed

lemma tr_steps_inv: "tr_steps t u \<Longrightarrow> conns_inv t \<Longrightarrow> conns_inv u"
proof (induction rule: tr_steps.induct)
  case (tr_add t u net c)
  then show ?case by (simp add: AddConnection_def inv_intro)
next
  case (tr_send t u mw net a m)
  then show ?case by (simp add: SendDatagram_state inv_intro)
next
  case (tr_open t u mw net a)
  then show ?case by (simp add: OpenStream_def inv_intro)
next
  case (tr_openuni t u mw net a)
  then show ?case by (simp add: OpenUniStream_def inv_intro)
qed (simp_all add: inv_intro, simp_all add: conns_inv_def)

text \<open>Once the transport is closed no accept loop is started any more.\<close>

definition quiet :: "'h Transport \<Rightarrow> 'h Transport \<Rightarrow> bool" where
  "quiet t u \<longleftrightarrow> (tr_closed t \<longrightarrow> tr_closed u \<and> loops u = loops t)"

lemma quiet_trans: "quiet t u \<Longrightarrow> quiet u v \<Longrightarrow> quiet t v"
  by (simp add: quiet_def)

lemma quiet_dial_finish: "quiet t (snd (dial_finish net t a c))"
  by (simp add: dial_finish_def quiet_def split: option.splits)

lemma quiet_getOrDial:
  assumes "\<forall>v. quiet v (mw v)"
  shows "quiet t (snd (getOrDial net mw t a))"
proof (cases "GetConnection net t a")
  case (Pair r t1)
  then have t1: "quiet t t1"
    by (auto simp: GetConnection_def quiet_def split: option.splits if_splits)
  then have mw: "quiet t (mw t1)" using assms quiet_trans by blast
  then have "quiet t (snd (dial_finish net (mw t1) a c))" for c using quiet_dial_finish quiet_trans by blast
  then show ?thesis using Pair t1 mw by (simp add: getOrDial_def split_def Let_def split: option.splits)
qed

lemma quiet_open_on: "quiet (snd r) (snd (open_on f a r))"
  by (auto simp: open_on_def compare_and_delete_def quiet_def split: option.splits prod.splits)

lemma quiet_accept: "quiet t (acceptLoop net t rs)"
  by (induction net t rs rule: acceptLoop.induct) (auto simp: quiet_def)

lemma tr_steps_quiet: "tr_steps t u \<Longrightarrow> quiet t u"
proof (induction rule: tr_steps.induct)
  case (tr_send t u mw net a m)
  then have "quiet u (snd (getOrDial net mw u a))" using quiet_getOrDial by blast
  then show ?case unfolding SendDatagram_state using tr_send quiet_trans by blast
next
  case (tr_open t u mw net a)
  then have "quiet u (snd (getOrDial net mw u a))" using quiet_getOrDial by blast
  then show ?case unfolding OpenStream_def using tr_open quiet_open_on quiet_trans by blast
next
  case (tr_openuni t u mw net a)
  then have "quiet u (snd (getOrDial net mw u a))" using quiet_getOrDial by blast
  then show ?case unfolding OpenUniStream_def using tr_openuni quiet_open_on quiet_trans by blast
next
  case (tr_accept t u net rs)
  then show ?case using quiet_accept quiet_trans by blast
next
  case (tr_get t u net a)
  then show ?case by (auto simp: quiet_def GetConnection_def split: option.splits)
qed (simp_all add: quiet_def AddConnection_def)

lemma conns_inv_empty [simp]: "conns_inv emptyTransport"
  by (simp add: conns_inv_def emptyTransport_def)

lemma getOrDial_SomeD:
  assumes "getOrDial net mw t a = (Some c, t')"
  obtains (hit) "t' = t" "map_of (appConns t) a = Some c" "\<not> conn_err net t c"
  | (dialled) c0 where "dials net a = Some c0"
      "dial_finish net (mw (snd (GetConnection net t a))) a c0 = (c, t')"
proof -
  obtain r t1 where g: "GetConnection net t a = (r, t1)" by fastforce
  then show thesis
  proof (cases rule: GetConnection_cases)
    case (hit c')
    then show thesis using that(1) assms g by (simp add: getOrDial_def)
  next
    case miss
    then show thesis
      using that(2) assms g
      by (auto simp: getOrDial_def split: if_splits option.splits prod.splits)
  qed
qed

section \<open>Properties\<close>


definition sampleNet :: quic_net where
  "sampleNet = \<lparr>resolves = (\<lambda>_. True), dials = (\<lambda>_. Some 7), alive = (\<lambda>_. True), remoteAddr = (\<lambda>_. ''p:1''),
     opensStream = (\<lambda>_. False), opensUniStream = (\<lambda>_. True), sends = (\<lambda>_ _. True)\<rparr>"

lemmas transport_eval = sampleNet_def getOrDial_def GetConnection_def emptyTransport_def dial_finish_def
  AddConnection_def startAcceptLoop_def store_conn_def conn_err_def close_conn_def Let_def


text \<open>A stream that cannot be opened evicts its connection: the address has no stored connection
  any more and the connection is closed, so the next operation on that address dials again.\<close>

theorem OpenStream_evicts:
  assumes "getOrDial net mw t a = (Some c, t1)"
  shows "(\<not> opensStream net c \<longrightarrow> (\<exists>t2. OpenStream net mw t a = (None, t2) \<and>
      c \<in> set (closedConns t2) \<and> map_of (appConns t2) a = None)) \<and>
    (\<not> opensUniStream net c \<longrightarrow> (\<exists>t2. OpenUniStream net mw t a = (None, t2) \<and>
      c \<in> set (closedConns t2) \<and> map_of (appConns t2) a = None))"
proof -
  from assms have "map_of (appConns t1) a = Some c"
    by (cases rule: getOrDial_SomeD) (auto dest: dial_finish_stored)
  then show ?thesis
    by (simp add: OpenStream_def OpenUniStream_def open_on_def compare_and_delete_def assms)
qed

theorem OpenStream_evicts_witness:
  "let t' = snd (OpenStream sampleNet id (emptyTransport :: unit Transport) ''q:1'') in
   7 \<in> set (closedConns t') \<and> map_of (appConns t') ''q:1'' = None"
proof -
  obtain t1 :: "unit Transport" where "getOrDial sampleNet id emptyTransport ''q:1'' = (Some 7, t1)"
    by (simp add: transport_eval)
  from OpenStream_evicts [OF this] show ?thesis by (auto simp: Let_def sampleNet_def)
qed

text \<open>C23: shutting down. The table is empty and every connection that was in it is closed, and
  whatever operations follow, no accept loop is started.\<close>

theorem Shutdown_final:
  "appConns (Shutdown t) = [] \<and> snd ` set (appConns t) \<subseteq> set (closedConns (Shutdown t)) \<and>
   (tr_steps (Shutdown t) u \<longrightarrow> tr_closed u \<and> loops u = loops t)"
  using tr_steps_quiet [of "Shutdown t" u] by (simp add: quiet_def)

theorem Shutdown_final_witness:
  "let t = AddConnection sampleNet (emptyTransport :: unit Transport) 3;
       u = AddConnection sampleNet (Shutdown t) 5 in
   3 \<in> set (closedConns (Shutdown t)) \<and> loops u = [3]"
proof -
  let ?t = "AddConnection sampleNet (emptyTransport :: unit Transport) 3"
  have "tr_steps (Shutdown ?t) (AddConnection sampleNet (Shutdown ?t) 5)" by (intro tr_add tr_refl)
  moreover have "loops ?t = [3]" "appConns ?t = [(''p:1'', 3)]" by (simp_all add: transport_eval)
  ultimately show ?thesis
    using Shutdown_final [of ?t "AddConnection sampleNet (Shutdown ?t) 5"] by (auto simp: Let_def)
qed

end
