(* ===== verification/Batch.thy ===== *)
theory Batch
  imports SeenTracker
begin

text \<open>
  \<open>engine/batch.go\<close>: the per-peer buffer of lazy entries and the wire format of lazy batches.

  zstd is a parameter: \<open>zenc\<close> stands for \<open>zstdEncoder.EncodeAll\<close> and \<open>zdec\<close> for
  \<open>zstdDecoder.DecodeAll\<close> (\<open>None\<close> for its error). Decoding works on offsets into the data as the
  Go code does; an index that would panic is the error \<open>Panic\<close>.
\<close>

section \<open>Model\<close>

record GossipEntry =
  Topic :: uint16
  Seq :: uint64
  Payload :: bytes

record LazyBatch =
  Entries :: "GossipEntry list"
  SenderHighWaterMarks :: "TopicSeq list"

record LazyBuffer =
  lb_entries :: "GossipEntry list"
  peerSeqs :: "uint16 \<rightharpoonup> uint64"

datatype batch_error =
    ZstdDecompress | BatchTooShort | TruncatedEntry nat | TruncatedPayload nat
  | TruncatedHWMHeader | TruncatedHWM nat | BatchTooLarge nat | ReadError | Panic

definition NewLazyBuffer :: LazyBuffer where
  "NewLazyBuffer = \<lparr>lb_entries = [], peerSeqs = Map.empty\<rparr>"

text \<open>Reading a missing key of a Go map gives the zero value.\<close>

definition peerSeq :: "LazyBuffer \<Rightarrow> uint16 \<Rightarrow> uint64" where
  "peerSeq b topic = (case peerSeqs b topic of None \<Rightarrow> 0 | Some q \<Rightarrow> q)"

definition LazyBuffer_Add :: "LazyBuffer \<Rightarrow> GossipEntry \<Rightarrow> LazyBuffer" where
  "LazyBuffer_Add b entry =
     (if Seq entry > peerSeq b (Topic entry) then b\<lparr>lb_entries := lb_entries b @ [entry]\<rparr> else b)"

definition LazyBuffer_Flush :: "LazyBuffer \<Rightarrow> GossipEntry list \<times> LazyBuffer" where
  "LazyBuffer_Flush b = (lb_entries b, b\<lparr>lb_entries := []\<rparr>)"

definition LazyBuffer_Len :: "LazyBuffer \<Rightarrow> nat" where
  "LazyBuffer_Len b = length (lb_entries b)"

fun UpdatePeerSeqs :: "LazyBuffer \<Rightarrow> TopicSeq list \<Rightarrow> LazyBuffer" where
  "UpdatePeerSeqs b [] = b"
| "UpdatePeerSeqs b (m # marks) =
     UpdatePeerSeqs
       (if TS_Seq m > peerSeq b (TS_Topic m)
        then b\<lparr>peerSeqs := (peerSeqs b)(TS_Topic m \<mapsto> TS_Seq m)\<rparr> else b) marks"

definition encodeEntry :: "GossipEntry \<Rightarrow> bytes" where
  "encodeEntry e = PutUint16 (Topic e) @ PutUint64 (Seq e) @
     PutUint32 (of_nat (length (Payload e))) @ Payload e"

definition encodeMark :: "TopicSeq \<Rightarrow> bytes" where
  "encodeMark m = PutUint16 (TS_Topic m) @ PutUint64 (TS_Seq m)"

definition batch_bytes :: "LazyBatch \<Rightarrow> bytes" where
  "batch_bytes batch =
     PutUint16 (of_nat (length (Entries batch))) @ concat (map encodeEntry (Entries batch)) @
     PutUint16 (of_nat (length (SenderHighWaterMarks batch))) @
     concat (map encodeMark (SenderHighWaterMarks batch))"

definition EncodeLazyBatch :: "(bytes \<Rightarrow> bytes) \<Rightarrow> LazyBatch \<Rightarrow> bytes" where
  "EncodeLazyBatch zenc batch = zenc (batch_bytes batch)"

fun decodeEntries ::
  "bytes \<Rightarrow> nat \<Rightarrow> nat \<Rightarrow> nat \<Rightarrow> batch_error + (GossipEntry list \<times> nat)" where
  "decodeEntries data off i 0 = Inr ([], off)"
| "decodeEntries data off i (Suc n) =
     (if off + 14 > length data then Inl (TruncatedEntry i)
      else case (Uint16 (drop off data), Uint64 (drop (off + 2) data), Uint32 (drop (off + 10) data)) of
        (Some topic, Some seq, Some l) \<Rightarrow>
          (let plen = unat l; off = off + 14 in
           if off + plen > length data then Inl (TruncatedPayload i)
           else (case decodeEntries data (off + plen) (Suc i) n of
                   Inl err \<Rightarrow> Inl err
                 | Inr (es, off') \<Rightarrow>
                     Inr (\<lparr>Topic = topic, Seq = seq, Payload = take plen (drop off data)\<rparr> # es, off')))
      | _ \<Rightarrow> Inl Panic)"

fun decodeMarks :: "bytes \<Rightarrow> nat \<Rightarrow> nat \<Rightarrow> nat \<Rightarrow> batch_error + (TopicSeq list \<times> nat)" where
  "decodeMarks data off i 0 = Inr ([], off)"
| "decodeMarks data off i (Suc n) =
     (if off + 10 > length data then Inl (TruncatedHWM i)
      else case (Uint16 (drop off data), Uint64 (drop (off + 2) data)) of
        (Some topic, Some seq) \<Rightarrow>
          (case decodeMarks data (off + 10) (Suc i) n of
             Inl err \<Rightarrow> Inl err
           | Inr (ms, off') \<Rightarrow> Inr (\<lparr>TS_Topic = topic, TS_Seq = seq\<rparr> # ms, off'))
      | _ \<Rightarrow> Inl Panic)"

definition decode_bytes :: "bytes \<Rightarrow> batch_error + LazyBatch" where
  "decode_bytes data =
     (if length data < 2 then Inl BatchTooShort
      else case Uint16 data of
        None \<Rightarrow> Inl Panic
      | Some entryCount \<Rightarrow>
          (case decodeEntries data 2 0 (unat entryCount) of
             Inl err \<Rightarrow> Inl err
           | Inr (es, off) \<Rightarrow>
               if off + 2 > length data then Inl TruncatedHWMHeader
               else (case Uint16 (drop off data) of
                       None \<Rightarrow> Inl Panic
                     | Some hwmCount \<Rightarrow>
                         (case decodeMarks data (off + 2) 0 (unat hwmCount) of
                            Inl err \<Rightarrow> Inl err
                          | Inr (ms, _) \<Rightarrow> Inr \<lparr>Entries = es, SenderHighWaterMarks = ms\<rparr>))))"

definition DecodeLazyBatch :: "(bytes \<Rightarrow> bytes option) \<Rightarrow> bytes \<Rightarrow> batch_error + LazyBatch" where
  "DecodeLazyBatch zdec compressed =
     (case zdec compressed of None \<Rightarrow> Inl ZstdDecompress | Some data \<Rightarrow> decode_bytes data)"

text \<open>An \<open>io.Writer\<close> is a state and a function that takes the state and the bytes to write and says
  whether the write succeeded. The result is whether \<open>WriteLazyBatch\<close> succeeds.\<close>

definition WriteLazyBatch ::
  "(bytes \<Rightarrow> bytes) \<Rightarrow> ('w \<Rightarrow> bytes \<Rightarrow> bool \<times> 'w) \<Rightarrow> 'w \<Rightarrow> LazyBatch \<Rightarrow> bool \<times> 'w" where
  "WriteLazyBatch zenc write w batch =
     (let compressed = EncodeLazyBatch zenc batch;
          (ok, w1) = write w (PutUint32 (of_nat (length compressed)))
      in if \<not> ok then (False, w1) else write w1 compressed)"

definition maxFrame :: nat where
  "maxFrame = 16 * 1024 * 1024"

text \<open>\<open>ReadLazyBatch\<close> on a stream whose remaining bytes are \<open>s\<close>; the result carries the bytes left.\<close>

definition ReadLazyBatch ::
  "(bytes \<Rightarrow> bytes option) \<Rightarrow> bytes \<Rightarrow> (batch_error + LazyBatch) \<times> bytes" where
  "ReadLazyBatch zdec s =
     (case ReadFull 4 s of
        None \<Rightarrow> (Inl ReadError, [])
      | Some (lenBuf, s1) \<Rightarrow>
          (case Uint32 lenBuf of
             None \<Rightarrow> (Inl Panic, s1)
           | Some sz \<Rightarrow>
               if unat sz > maxFrame then (Inl (BatchTooLarge (unat sz)), s1)
               else (case ReadFull (unat sz) s1 of
                       None \<Rightarrow> (Inl ReadError, [])
                     | Some (compressed, s2) \<Rightarrow> (DecodeLazyBatch zdec compressed, s2))))"

section \<open>The buffer\<close>

lemma peerSeq_UpdatePeerSeqs:
  "peerSeq (UpdatePeerSeqs b marks) t =
     foldl max (peerSeq b t) (map TS_Seq (filter (\<lambda>m. TS_Topic m = t) marks))"
  by (induction b marks rule: UpdatePeerSeqs.induct)
    (auto simp: peerSeq_def max_def not_less split: option.splits)

lemma lb_entries_UpdatePeerSeqs [simp]: "lb_entries (UpdatePeerSeqs b marks) = lb_entries b"
  by (induction b marks rule: UpdatePeerSeqs.induct) auto

lemma LazyBuffer_Adds:
  "foldl LazyBuffer_Add b es =
     b\<lparr>lb_entries := lb_entries b @ filter (\<lambda>e. peerSeq b (Topic e) < Seq e) es\<rparr>"
proof (induction es arbitrary: b)
  case Nil
  then show ?case by simp
next
  case (Cons e es)
  then show ?case by (auto simp: LazyBuffer_Add_def peerSeq_def)
qed

section \<open>Encoding and decoding\<close>

definition entry_fits :: "GossipEntry \<Rightarrow> bool" where
  "entry_fits e \<longleftrightarrow> length (Payload e) < 2 ^ 32"

definition batch_fits :: "LazyBatch \<Rightarrow> bool" where
  "batch_fits b \<longleftrightarrow> length (Entries b) < 2 ^ 16 \<and> length (SenderHighWaterMarks b) < 2 ^ 16 \<and>
     list_all entry_fits (Entries b)"

lemma length_encodeEntry [simp, wire]: "length (encodeEntry e) = 14 + length (Payload e)"
  by (simp add: encodeEntry_def)

lemma length_encodeMark [simp, wire]: "length (encodeMark m) = 10"
  by (simp add: encodeMark_def)

lemma record_eta [simp]:
  "\<lparr>Topic = Topic e, Seq = Seq e, Payload = Payload e\<rparr> = e"
  "\<lparr>TS_Topic = TS_Topic m, TS_Seq = TS_Seq m\<rparr> = m"
  "\<lparr>Entries = Entries b, SenderHighWaterMarks = SenderHighWaterMarks b\<rparr> = b"
  by simp_all

lemma unat_of_nat_32: "n < 2 ^ 32 \<Longrightarrow> unat (of_nat n :: uint32) = n"
  by (simp add: unat_of_nat)

lemma unat_of_nat_16: "n < 2 ^ 16 \<Longrightarrow> unat (of_nat n :: uint16) = n"
  by (simp add: unat_of_nat)

text \<open>One round of each decoding loop, in both directions: it succeeds exactly on an encoded
  element.\<close>

lemma decodeEntries_step:
  assumes "entry_fits e"
  shows "decodeEntries (pre @ encodeEntry e @ rest) (length pre) i (Suc n) =
     (case decodeEntries (pre @ encodeEntry e @ rest) (length (pre @ encodeEntry e)) (Suc i) n of
        Inl err \<Rightarrow> Inl err | Inr (es, off') \<Rightarrow> Inr (e # es, off'))"
proof -
  let ?d = "pre @ encodeEntry e @ rest"
  have l: "unat (of_nat (length (Payload e)) :: uint32) = length (Payload e)"
    using assms unat_of_nat_32 by (simp add: entry_fits_def)
  have "drop (length pre) ?d = PutUint16 (Topic e) @ PutUint64 (Seq e) @
      PutUint32 (of_nat (length (Payload e))) @ Payload e @ rest"
    by (simp add: encodeEntry_def)
  moreover have "drop (length pre + 2) ?d = PutUint64 (Seq e) @
      PutUint32 (of_nat (length (Payload e))) @ Payload e @ rest"
    by (simp add: encodeEntry_def)
  moreover have "drop (length pre + 10) ?d = PutUint32 (of_nat (length (Payload e))) @ Payload e @ rest"
    by (simp add: encodeEntry_def)
  moreover have "drop (length pre + 14) ?d = Payload e @ rest"
    by (simp add: encodeEntry_def)
  ultimately show ?thesis
    by (simp add: l Let_def add.assoc split: sum.split)
qed

lemma decodeMarks_step:
  "decodeMarks (pre @ encodeMark m @ rest) (length pre) i (Suc n) =
     (case decodeMarks (pre @ encodeMark m @ rest) (length (pre @ encodeMark m)) (Suc i) n of
        Inl err \<Rightarrow> Inl err | Inr (ms, off') \<Rightarrow> Inr (m # ms, off'))"
proof -
  let ?d = "pre @ encodeMark m @ rest"
  have "drop (length pre) ?d = PutUint16 (TS_Topic m) @ PutUint64 (TS_Seq m) @ rest"
    "drop (length pre + 2) ?d = PutUint64 (TS_Seq m) @ rest"
    by (simp_all add: encodeMark_def)
  then show ?thesis by (simp split: sum.split)
qed

lemma decodeEntries_encode:
  assumes "list_all entry_fits es"
  shows "decodeEntries (pre @ concat (map encodeEntry es) @ rest) (length pre) i (length es) =
     Inr (es, length (pre @ concat (map encodeEntry es)))"
  using assms
proof (induction es arbitrary: pre i)
  case Nil
  then show ?case by simp
next
  case (Cons e es)
  then show ?case
    using decodeEntries_step [of e pre "concat (map encodeEntry es) @ rest" i "length es"]
      Cons.IH [of "pre @ encodeEntry e" "Suc i"]
    by simp
qed

lemma decodeMarks_encode:
  "decodeMarks (pre @ concat (map encodeMark ms) @ rest) (length pre) i (length ms) =
     Inr (ms, length (pre @ concat (map encodeMark ms)))"
proof (induction ms arbitrary: pre i)
  case Nil
  then show ?case by simp
next
  case (Cons m ms)
  then show ?case
    using decodeMarks_step [of pre m "concat (map encodeMark ms) @ rest" i "length ms"]
      Cons.IH [of "pre @ encodeMark m" "Suc i"]
    by simp
qed

lemma Uint_drop_Some:
  shows "Uint16 (drop a data) = Some t \<Longrightarrow> b = a + 2 \<Longrightarrow> drop a data = PutUint16 t @ drop b data"
    and "Uint32 (drop a data) = Some l \<Longrightarrow> b = a + 4 \<Longrightarrow> drop a data = PutUint32 l @ drop b data"
    and "Uint64 (drop a data) = Some q \<Longrightarrow> b = a + 8 \<Longrightarrow> drop a data = PutUint64 q @ drop b data"
proof -
  have d: "drop (a + n) data = drop n (drop a data)" for n by (simp add: add.commute)
  show "Uint16 (drop a data) = Some t \<Longrightarrow> b = a + 2 \<Longrightarrow> drop a data = PutUint16 t @ drop b data"
    by (auto simp: Uint16_Some d simp del: drop_drop add_2_eq_Suc add_2_eq_Suc')
  show "Uint32 (drop a data) = Some l \<Longrightarrow> b = a + 4 \<Longrightarrow> drop a data = PutUint32 l @ drop b data"
    by (auto simp: Uint32_Some d simp del: drop_drop)
  show "Uint64 (drop a data) = Some q \<Longrightarrow> b = a + 8 \<Longrightarrow> drop a data = PutUint64 q @ drop b data"
    by (auto simp: Uint64_Some d simp del: drop_drop)
qed

lemma Uint_defined:
  "a + 2 \<le> length b \<Longrightarrow> \<exists>v. Uint16 (drop a b) = Some v"
  "a + 4 \<le> length b \<Longrightarrow> \<exists>v. Uint32 (drop a b) = Some v"
  "a + 8 \<le> length b \<Longrightarrow> \<exists>v. Uint64 (drop a b) = Some v"
  by (auto simp: Uint16_def Uint32_def Uint64_def)

lemma decodeEntries_sound:
  "decodeEntries data off i n = Inr (es, off') \<Longrightarrow> off \<le> length data \<Longrightarrow>
   length es = n \<and> list_all entry_fits es \<and> off' \<le> length data \<and>
   drop off data = concat (map encodeEntry es) @ drop off' data"
proof (induction n arbitrary: off i es)
  case 0
  then show ?case by simp
next
  case (Suc n)
  from Suc.prems obtain topic seq l es' where len: "off + 14 \<le> length data"
    and u: "Uint16 (drop off data) = Some topic" "Uint64 (drop (off + 2) data) = Some seq"
      "Uint32 (drop (off + 10) data) = Some l"
    and plen: "off + 14 + unat l \<le> length data"
    and rec: "decodeEntries data (off + 14 + unat l) (Suc i) n = Inr (es', off')"
    and es: "es = \<lparr>Topic = topic, Seq = seq, Payload = take (unat l) (drop (off + 14) data)\<rparr> # es'"
    by (auto simp: Let_def split: if_splits option.splits sum.splits prod.splits)
  note ih = Suc.IH [OF rec plen]
  have pl: "length (take (unat l) (drop (off + 14) data)) = unat l" using plen by simp
  have "drop off data = PutUint16 topic @ drop (off + 2) data"
    and "drop (off + 2) data = PutUint64 seq @ drop (off + 10) data"
    and "drop (off + 10) data = PutUint32 l @ drop (off + 14) data"
    by (rule Uint_drop_Some(1) [OF u(1)], simp) (rule Uint_drop_Some(3) [OF u(2)], simp,
      rule Uint_drop_Some(2) [OF u(3)], simp)
  moreover have "drop (off + 14) data =
      take (unat l) (drop (off + 14) data) @ drop (off + 14 + unat l) data"
    by (metis append_take_drop_id drop_drop add.commute)
  ultimately have "drop off data = encodeEntry (hd es) @ drop (off + 14 + unat l) data"
    using pl by (simp add: es encodeEntry_def)
  then show ?case
    using ih es pl unsigned_less [of l, where ?'a = nat] by (simp add: entry_fits_def)
qed

lemma decodeMarks_sound:
  "decodeMarks data off i n = Inr (ms, off') \<Longrightarrow>
   length ms = n \<and> drop off data = concat (map encodeMark ms) @ drop off' data"
proof (induction n arbitrary: off i ms)
  case 0
  then show ?case by simp
next
  case (Suc n)
  from Suc.prems obtain topic seq ms' where len: "off + 10 \<le> length data"
    and u: "Uint16 (drop off data) = Some topic" "Uint64 (drop (off + 2) data) = Some seq"
    and rec: "decodeMarks data (off + 10) (Suc i) n = Inr (ms', off')"
    and ms: "ms = \<lparr>TS_Topic = topic, TS_Seq = seq\<rparr> # ms'"
    by (auto split: if_splits option.splits sum.splits prod.splits)
  have "drop off data = PutUint16 topic @ drop (off + 2) data"
    and "drop (off + 2) data = PutUint64 seq @ drop (off + 10) data"
    by (rule Uint_drop_Some(1) [OF u(1)], simp) (rule Uint_drop_Some(3) [OF u(2)], simp)
  then have "drop off data = encodeMark (hd ms) @ drop (off + 10) data"
    by (simp add: ms encodeMark_def)
  then show ?case using Suc.IH [OF rec] ms by simp
qed

lemma decodeEntries_no_panic: "decodeEntries data off i n \<noteq> Inl Panic"
proof (induction n arbitrary: off i)
  case 0
  then show ?case by simp
next
  case (Suc n)
  show ?case
  proof (cases "off + 14 > length data")
    case False
    have "\<exists>v. Uint16 (drop off data) = Some v" "\<exists>v. Uint64 (drop (off + 2) data) = Some v"
      "\<exists>v. Uint32 (drop (off + 10) data) = Some v"
      by (intro Uint_defined; use False in linarith)+
    then obtain a b c where "Uint16 (drop off data) = Some a" "Uint64 (drop (off + 2) data) = Some b"
      "Uint32 (drop (off + 10) data) = Some c" by blast
    then show ?thesis using Suc by (auto simp: Let_def split: sum.split)
  qed simp
qed

lemma decodeMarks_no_panic: "decodeMarks data off i n \<noteq> Inl Panic"
proof (induction n arbitrary: off i)
  case 0
  then show ?case by simp
next
  case (Suc n)
  show ?case
  proof (cases "off + 10 > length data")
    case False
    have "\<exists>v. Uint16 (drop off data) = Some v" "\<exists>v. Uint64 (drop (off + 2) data) = Some v"
      by (intro Uint_defined; use False in linarith)+
    then obtain a b where "Uint16 (drop off data) = Some a" "Uint64 (drop (off + 2) data) = Some b"
      by blast
    then show ?thesis using Suc by (auto split: sum.split)
  qed simp
qed

lemma decode_bytes_no_panic: "decode_bytes data \<noteq> Inl Panic"
proof (cases "length data < 2")
  case True
  then show ?thesis by (simp add: decode_bytes_def)
next
  case False
  then obtain c where c: "Uint16 data = Some c" by (auto simp: Uint16_def)
  show ?thesis
  proof (cases "decodeEntries data 2 0 (unat c)")
    case (Inl err)
    then show ?thesis using False c decodeEntries_no_panic [of data 2 0 "unat c"]
      by (simp add: decode_bytes_def)
  next
    case (Inr r)
    obtain es off where r: "r = (es, off)" by fastforce
    show ?thesis
      using False c Inr r decodeMarks_no_panic
      by (auto simp: decode_bytes_def Uint_None split: option.split sum.split)
  qed
qed

lemma decode_bytes_encode:
  assumes "batch_fits b"
  shows "decode_bytes (batch_bytes b @ trail) = Inr b"
proof -
  let ?es = "Entries b" and ?ms = "SenderHighWaterMarks b"
  let ?n = "PutUint16 (of_nat (length ?es))" and ?m = "PutUint16 (of_nat (length ?ms))"
  let ?d = "batch_bytes b @ trail"
  have d1: "?d = ?n @ concat (map encodeEntry ?es) @ (?m @ concat (map encodeMark ?ms) @ trail)"
    by (simp add: batch_bytes_def)
  have d2: "?d = (?n @ concat (map encodeEntry ?es) @ ?m) @ concat (map encodeMark ?ms) @ trail"
    by (simp add: batch_bytes_def)
  have n: "unat (of_nat (length ?es) :: uint16) = length ?es"
    and m: "unat (of_nat (length ?ms) :: uint16) = length ?ms" and f: "list_all entry_fits ?es"
    using assms unat_of_nat_16 by (simp_all add: batch_fits_def)
  have es: "decodeEntries ?d 2 0 (length ?es) = Inr (?es, length (?n @ concat (map encodeEntry ?es)))"
    using decodeEntries_encode [OF f, of ?n] unfolding d1 by simp
  have ms: "decodeMarks ?d (length (?n @ concat (map encodeEntry ?es)) + 2) 0 (length ?ms) =
      Inr (?ms, length (?n @ concat (map encodeEntry ?es) @ ?m @ concat (map encodeMark ?ms)))"
    using decodeMarks_encode [of "?n @ concat (map encodeEntry ?es) @ ?m" ?ms trail 0]
    unfolding d2 by (simp add: add.assoc)
  have "Uint16 ?d = Some (of_nat (length ?es))" unfolding d1 by simp
  moreover have "Uint16 (drop (length (?n @ concat (map encodeEntry ?es))) ?d) = Some (of_nat (length ?ms))"
    unfolding d2 by simp
  moreover have "length ?d \<ge> length (?n @ concat (map encodeEntry ?es)) + 2"
    unfolding d2 by simp
  ultimately show ?thesis
    using es ms n m by (simp add: decode_bytes_def not_less)
qed

lemma decode_bytes_sound:
  assumes "decode_bytes data = Inr b"
  shows "batch_fits b \<and> (\<exists>trail. data = batch_bytes b @ trail)"
proof -
  obtain c d es ms off off' where len: "2 \<le> length data" and c: "Uint16 data = Some c"
    and es: "decodeEntries data 2 0 (unat c) = Inr (es, off)"
    and d: "Uint16 (drop off data) = Some d"
    and ms: "decodeMarks data (off + 2) 0 (unat d) = Inr (ms, off')"
    and b: "b = \<lparr>Entries = es, SenderHighWaterMarks = ms\<rparr>"
    using assms
    by (auto simp: decode_bytes_def not_less split: if_splits option.splits sum.splits prod.splits)
  note s1 = decodeEntries_sound [OF es len] and s2 = decodeMarks_sound [OF ms]
  have "of_nat (length es) = c" "of_nat (length ms) = d" using s1 s2 by simp_all
  moreover have "data = PutUint16 c @ drop 2 data"
    using Uint_drop_Some(1) [of 0 data c 2] c by simp
  moreover have "drop off data = PutUint16 d @ drop (off + 2) data"
    using Uint_drop_Some(1) [OF d] by simp
  ultimately have "data = batch_bytes b @ drop off' data"
    using s1 s2 by (simp add: batch_bytes_def b)
  moreover have "batch_fits b"
    using s1 s2 unsigned_less [of c, where ?'a = nat] unsigned_less [of d, where ?'a = nat]
    by (simp add: batch_fits_def b)
  ultimately show ?thesis by blast
qed

section \<open>Properties\<close>


text \<open>C18: encoding then decoding gives the batch back exactly when the batch fits the wire format.
  The encoder does not check this: it truncates the entry count to 16 bits, so a batch of
  65536 entries or more is not recovered.\<close>

theorem LazyBatch_roundtrip:
  assumes "\<And>d. zdec (zenc d) = Some d"
  shows "DecodeLazyBatch zdec (EncodeLazyBatch zenc b) = Inr b \<longleftrightarrow> batch_fits b"
proof -
  have "DecodeLazyBatch zdec (EncodeLazyBatch zenc b) = decode_bytes (batch_bytes b)"
    by (simp add: DecodeLazyBatch_def EncodeLazyBatch_def assms)
  then show ?thesis using decode_bytes_sound decode_bytes_encode [of b "[]"] by auto
qed

definition sample_batch :: LazyBatch where
  "sample_batch = \<lparr>Entries = [\<lparr>Topic = 1, Seq = 7, Payload = [104, 105]\<rparr>, \<lparr>Topic = 2, Seq = 300, Payload = []\<rparr>],
     SenderHighWaterMarks = [\<lparr>TS_Topic = 1, TS_Seq = 6\<rparr>]\<rparr>"

theorem LazyBatch_roundtrip_witness:
  "DecodeLazyBatch Some (EncodeLazyBatch id sample_batch) = Inr sample_batch \<and>
   DecodeLazyBatch Some (EncodeLazyBatch id \<lparr>Entries = replicate 65536 \<lparr>Topic = 0, Seq = 1, Payload = []\<rparr>,
     SenderHighWaterMarks = []\<rparr>) \<noteq>
     Inr \<lparr>Entries = replicate 65536 \<lparr>Topic = 0, Seq = 1, Payload = []\<rparr>, SenderHighWaterMarks = []\<rparr>"
proof
  show "DecodeLazyBatch Some (EncodeLazyBatch id sample_batch) = Inr sample_batch"
    by (subst LazyBatch_roundtrip) (simp_all add: batch_fits_def entry_fits_def sample_batch_def)
  show "DecodeLazyBatch Some (EncodeLazyBatch id \<lparr>Entries = replicate 65536 \<lparr>Topic = 0, Seq = 1, Payload = []\<rparr>,
      SenderHighWaterMarks = []\<rparr>) \<noteq>
      Inr \<lparr>Entries = replicate 65536 \<lparr>Topic = 0, Seq = 1, Payload = []\<rparr>, SenderHighWaterMarks = []\<rparr>"
    by (subst LazyBatch_roundtrip) (simp_all add: batch_fits_def)
qed

text \<open>Framing. A batch written to a stream is read back from the front of the stream with the
  rest of the stream untouched when its compressed form is at most 16 MiB; a larger one, which
  the writer sends all the same, is refused by the reader.\<close>

theorem ReadLazyBatch_WriteLazyBatch:
  assumes "\<And>d. zdec (zenc d) = Some d" and "batch_fits b"
    and "length (EncodeLazyBatch zenc b) < 2 ^ 32"
    and "WriteLazyBatch zenc (\<lambda>w d. (True, w @ d)) [] b = (ok, frame)"
  shows "ok \<and> ReadLazyBatch zdec (frame @ rest) =
    (if length (EncodeLazyBatch zenc b) \<le> maxFrame then (Inr b, rest)
     else (Inl (BatchTooLarge (length (EncodeLazyBatch zenc b))), EncodeLazyBatch zenc b @ rest))"
proof -
  let ?c = "EncodeLazyBatch zenc b"
  have frame: "ok" "frame = PutUint32 (of_nat (length ?c)) @ ?c"
    using assms(4) by (auto simp: WriteLazyBatch_def Let_def)
  have "ReadFull 4 (frame @ rest) = Some (PutUint32 (of_nat (length ?c)), ?c @ rest)"
    unfolding frame(2) by (simp add: ReadFull_append')
  then show ?thesis
    using frame(1) assms(2,3) LazyBatch_roundtrip [of zdec zenc b] assms(1) unat_of_nat_32
    by (simp add: ReadLazyBatch_def)
qed

theorem ReadLazyBatch_WriteLazyBatch_witness:
  "ReadLazyBatch Some (snd (WriteLazyBatch id (\<lambda>w d. (True, w @ d)) [] sample_batch) @ [1, 2, 3]) =
     (Inr sample_batch, [1, 2, 3])"
proof -
  have len: "length (EncodeLazyBatch id sample_batch) = 44"
    by (simp add: EncodeLazyBatch_def batch_bytes_def sample_batch_def)
  obtain ok frame where w: "WriteLazyBatch id (\<lambda>w d. (True, w @ d)) [] sample_batch = (ok, frame)"
    by fastforce
  have fit: "batch_fits sample_batch" by (simp add: batch_fits_def entry_fits_def sample_batch_def)
  show ?thesis
    using ReadLazyBatch_WriteLazyBatch [OF _ fit _ w, where zdec = Some and rest = "[1, 2, 3]"] len w
    by (simp add: maxFrame_def)
qed

text \<open>Reading a lazy batch never panics: whatever bytes arrive and whatever the decompressor
  does, every slice index of the decoder is in range.\<close>

theorem ReadLazyBatch_no_panic: "fst (ReadLazyBatch zdec s) \<noteq> Inl Panic"
proof -
  have "Uint32 a \<noteq> None" if "ReadFull 4 s = Some (a, r)" for a r
    using that by (simp add: ReadFull_Some Uint_None)
  then show ?thesis
    using decode_bytes_no_panic
    by (auto simp: ReadLazyBatch_def DecodeLazyBatch_def split: option.splits)
qed

text \<open>What a lazy buffer holds. After marks from the peer and then additions, a flush returns
  the added entries that are above the peer's highest known mark for their topic, in order
  after what was buffered before, and leaves the buffer empty.\<close>

theorem LazyBuffer_Flush_content:
  "LazyBuffer_Flush (foldl LazyBuffer_Add (UpdatePeerSeqs b marks) es) =
     (lb_entries b @ filter (\<lambda>e. foldl max (peerSeq b (Topic e))
          (map TS_Seq (filter (\<lambda>m. TS_Topic m = Topic e) marks)) < Seq e) es,
      (UpdatePeerSeqs b marks)\<lparr>lb_entries := []\<rparr>)"
  by (simp add: LazyBuffer_Flush_def LazyBuffer_Adds peerSeq_UpdatePeerSeqs)

end
