(* ===== verification/Repair.thy ===== *)
theory Repair
  imports ApplierOrder Overlay Transport Batch
begin

text \<open>
  \<open>engine/repair.go\<close>: serving entries from a bounded cache and pulling missing entries from peers.

  The cache is an association list; which entry a full cache evicts is up to the iteration order
  of Go's maps, so \<open>CacheEntry\<close> takes the position of the victim as a parameter. A peer as seen by
  \<open>pullFromPeer\<close> is a function from the request written on a new stream to the bytes that come
  back. \<open>RequestRepair\<close> is the callback of the ordered applier, and the locale \<open>gap_repair\<close> is
  interpreted on it here.
\<close>

section \<open>Model\<close>

definition maxRepairCache :: nat where "maxRepairCache = 1024"

record RepairManager =
  cache :: "(TopicSeq \<times> bytes) list"

definition NewRepairManager :: RepairManager where
  "NewRepairManager = \<lparr>cache = []\<rparr>"

definition CacheEntry :: "nat \<Rightarrow> RepairManager \<Rightarrow> GossipEntry \<Rightarrow> RepairManager" where
  "CacheEntry victim r entry =
     (let c = (if length (cache r) \<ge> maxRepairCache
               then AList.delete (fst (cache r ! (victim mod length (cache r)))) (cache r) else cache r)
      in r\<lparr>cache := AList.update \<lparr>TS_Topic = Topic entry, TS_Seq = Seq entry\<rparr> (Payload entry) c\<rparr>)"

text \<open>\<open>write\<close> is the stream's \<open>Write\<close> on the writer state; the result is that state at the end.\<close>

definition HandleRequest :: "('w \<Rightarrow> bytes \<Rightarrow> bool \<times> 'w) \<Rightarrow> RepairManager \<Rightarrow> 'w \<Rightarrow> bytes \<Rightarrow> 'w" where
  "HandleRequest write r w stream =
     (case ReadFull 10 stream of
        None \<Rightarrow> w
      | Some (req, _) \<Rightarrow>
          (case (Uint16 (take 2 req), Uint64 (drop 2 req)) of
             (Some topic, Some seq) \<Rightarrow>
               (case map_of (cache r) \<lparr>TS_Topic = topic, TS_Seq = seq\<rparr> of
                  None \<Rightarrow> snd (write w [0])
                | Some payload \<Rightarrow>
                    (let (ok, w1) = write w [1] in if \<not> ok then w1 else snd (write w1 payload)))
           | _ \<Rightarrow> w))"

text \<open>Opening a stream to an address may fail; writing the request may fail; the reply is the bytes
  read and whether they end cleanly.\<close>

type_synonym repair_net = "string \<Rightarrow> (bytes \<Rightarrow> (bytes \<times> bool) option) option"

datatype pull_result = PullError | PullMiss | PullHit GossipEntry

definition pullFromPeer :: "repair_net \<Rightarrow> OverlayPeer \<Rightarrow> uint16 \<Rightarrow> uint64 \<Rightarrow> pull_result" where
  "pullFromPeer net peer topic seq =
     (case net (Addr peer) of
        None \<Rightarrow> PullError
      | Some exchange \<Rightarrow>
          (case exchange (StreamTypeRepair # PutUint16 topic @ PutUint64 seq) of
             None \<Rightarrow> PullError
           | Some (reply, clean) \<Rightarrow>
               (case reply of
                  [] \<Rightarrow> PullError
                | status # payload \<Rightarrow>
                    if status = 0 then PullMiss
                    else if \<not> clean then PullError
                    else PullHit \<lparr>Topic = topic, Seq = seq, Payload = payload\<rparr>)))"

fun repair_loop ::
  "repair_net \<Rightarrow> OverlayPeer list \<Rightarrow> uint16 \<Rightarrow> uint64 \<Rightarrow> OrderedApplier \<Rightarrow> bool \<times> OrderedApplier \<times> delivery list" where
  "repair_loop net [] topic seq o1 = (False, o1, [])"
| "repair_loop net (peer # peers) topic seq o1 =
     (case pullFromPeer net peer topic seq of
        PullHit entry \<Rightarrow> (True, Receive o1 (Topic entry) (Seq entry) (Payload entry))
      | _ \<Rightarrow> repair_loop net peers topic seq o1)"

definition RequestRepair ::
  "Overlay \<times> repair_net \<Rightarrow> uint16 \<Rightarrow> uint64 \<Rightarrow> OrderedApplier \<Rightarrow> bool \<times> OrderedApplier \<times> delivery list" where
  "RequestRepair env topic missingSeq o1 =
     repair_loop (snd env) (RandomPeers (fst env) 3) topic missingSeq o1"

section \<open>The cache\<close>

definition cache_ok :: "RepairManager \<Rightarrow> bool" where
  "cache_ok r \<longleftrightarrow> distinct (map fst (cache r)) \<and> length (cache r) \<le> maxRepairCache"

lemma length_alist_update: "length (AList.update k v xs) = (if k \<in> fst ` set xs then length xs else Suc (length xs))"
  by (induction xs) auto

lemma length_alist_delete:
  "distinct (map fst xs) \<Longrightarrow> k \<in> fst ` set xs \<Longrightarrow> Suc (length (AList.delete k xs)) = length xs"
proof (induction xs)
  case (Cons x xs)
  show ?case
  proof (cases "fst x = k")
    case True
    then have "AList.delete k xs = xs" using Cons.prems(1) by (intro delete_id) auto
    then show ?thesis using True by (simp add: AList.delete_eq split_def)
  next
    case False
    then show ?thesis using Cons by (auto simp: AList.delete_eq split_def)
  qed
qed simp

lemma cache_ok_CacheEntry [inv_intro]:
  assumes "cache_ok r"
  shows "cache_ok (CacheEntry v r e)"
proof (cases "length (cache r) \<ge> maxRepairCache")
  case True
  let ?k = "fst (cache r ! (v mod length (cache r)))"
  have len: "length (cache r) > 0" using True by (auto simp: maxRepairCache_def)
  then have "?k \<in> fst ` set (cache r)" by simp
  then have "Suc (length (AList.delete ?k (cache r))) = length (cache r)"
    using assms length_alist_delete [of "cache r" ?k] by (simp add: cache_ok_def)
  then show ?thesis
    using assms True
    by (simp add: cache_ok_def CacheEntry_def Let_def distinct_update distinct_delete length_alist_update)
next
  case False
  then show ?thesis
    using assms by (simp add: cache_ok_def CacheEntry_def Let_def distinct_update length_alist_update)
qed

lemma CacheEntry_lookup:
  "map_of (cache (CacheEntry v r e)) k = (if k = \<lparr>TS_Topic = Topic e, TS_Seq = Seq e\<rparr> then Some (Payload e)
     else if length (cache r) \<ge> maxRepairCache \<and> k = fst (cache r ! (v mod length (cache r))) then None
     else map_of (cache r) k)"
  by (simp add: CacheEntry_def Let_def update_conv' delete_conv')

text \<open>A run of cached entries, each with the victim it would evict.\<close>

definition cache_run :: "RepairManager \<Rightarrow> (nat \<times> GossipEntry) list \<Rightarrow> RepairManager" where
  "cache_run r ves = foldl (\<lambda>r (v, e). CacheEntry v r e) r ves"

lemma cache_run_ok: "cache_ok r \<Longrightarrow> cache_ok (cache_run r ves)"
  unfolding cache_run_def
  by (induction ves arbitrary: r) (auto simp: cache_ok_CacheEntry)

lemma cache_run_origin:
  "map_of (cache (cache_run r ves)) k = Some p \<Longrightarrow>
   map_of (cache r) k = Some p \<or> (\<exists>e \<in> snd ` set ves. k = \<lparr>TS_Topic = Topic e, TS_Seq = Seq e\<rparr> \<and> p = Payload e)"
  unfolding cache_run_def
proof (induction ves arbitrary: r)
  case (Cons ve ves)
  obtain v e where ve: "ve = (v, e)" by fastforce
  have "map_of (cache (CacheEntry v r e)) k = Some p \<or>
      (\<exists>e \<in> snd ` set ves. k = \<lparr>TS_Topic = Topic e, TS_Seq = Seq e\<rparr> \<and> p = Payload e)"
    using Cons ve by simp
  then show ?case using ve by (auto simp: CacheEntry_lookup split: if_splits)
qed simp

lemma cache_run_complete:
  "length (cache r) + length ves \<le> maxRepairCache \<Longrightarrow>
   map_of (cache (cache_run r ves)) k = (map_of (cache r) ++
     map_of (rev (map (\<lambda>(v, e). (\<lparr>TS_Topic = Topic e, TS_Seq = Seq e\<rparr>, Payload e)) ves))) k"
  unfolding cache_run_def
proof (induction ves arbitrary: r)
  case (Cons ve ves)
  obtain v e where ve: "ve = (v, e)" by fastforce
  have len: "length (cache (CacheEntry v r e)) + length ves \<le> maxRepairCache"
    using Cons.prems by (simp add: CacheEntry_def Let_def length_alist_update)
  show ?case
    using Cons.IH [OF len] Cons.prems ve
    by (simp add: CacheEntry_lookup map_add_def split: option.splits)
qed simp

section \<open>Pulling\<close>

lemma repair_loop_cases:
  assumes "repair_loop net ps t q o1 = (b, o2, ds)"
  shows "if b then \<exists>p. Receive o1 t q p = (o2, ds) else o2 = o1 \<and> ds = []"
  using assms
proof (induction net ps t q o1 rule: repair_loop.induct)
  case (2 net peer peers t q o1)
  show ?case
  proof (cases "pullFromPeer net peer t q")
    case (PullHit entry)
    then have "Topic entry = t" "Seq entry = q"
      by (auto simp: pullFromPeer_def split: option.splits list.splits if_splits)
    then show ?thesis using 2(3) PullHit by auto
  qed (use 2 in simp_all)
qed simp

interpretation pull: gap_repair RequestRepair
proof
  fix e t q o1 o2 ds
  show "RequestRepair e t q o1 = (False, o2, ds) \<Longrightarrow> o2 = o1 \<and> ds = []"
    unfolding RequestRepair_def using repair_loop_cases [of "snd e" _ t q o1 False o2 ds] by simp
  show "RequestRepair e t q o1 = (True, o2, ds) \<Longrightarrow> \<exists>p. Receive o1 t q p = (o2, ds)"
    unfolding RequestRepair_def using repair_loop_cases [of "snd e" _ t q o1 True o2 ds] by simp
qed

lemma repair_loop_filled:
  "fst (repair_loop net ps t q o1) \<longleftrightarrow> (\<exists>p \<in> set ps. \<exists>e. pullFromPeer net p t q = PullHit e)"
proof (induction ps)
  case (Cons p ps)
  then show ?case by (cases "pullFromPeer net p t q") auto
qed simp

context gap_repair
begin

lemma run_config: "applier_run (Some onGap) o1 es = (o2, ds) \<Longrightarrow> maxGapBuffer o2 = maxGapBuffer o1"
proof (induction es arbitrary: o1 ds)
  case (Cons x es)
  obtain o' ds' where s: "applier_step (Some onGap) o1 x = (o', ds')" by (metis surj_pair)
  have "maxGapBuffer o' = maxGapBuffer o1"
  proof (cases x)
    case (Recv t q p)
    then show ?thesis using s Receive_frame [of o1 t q p o' ds'] by (simp add: same_elsewhere_def)
  next
    case (Wake i e)
    then have "wake_nth (Some (onGap e)) o1 i = (o', ds')" using s by simp
    then show ?thesis
    proof (cases rule: wake_cases)
      case (repaired p)
      then show ?thesis using Receive_frame [OF repaired(3)] by (simp add: same_elsewhere_def)
    next
      case skipped
      then show ?thesis using skipGap_frame [OF skipped(3)] by (simp add: same_elsewhere_def)
    qed simp_all
  qed
  then show ?case using Cons s by (auto split: prod.splits)
qed simp

end

text \<open>A peer that runs this code, behind its transport.\<close>

definition served :: "'h Transport \<Rightarrow> RepairManager \<Rightarrow> bytes \<Rightarrow> (bytes \<times> bool) option" where
  "served t r req =
     (case fst (dispatchBidiStream t ''peer'' req True) of
        Handled h from rest \<Rightarrow> Some (HandleRequest (\<lambda>w d. (True, w @ d)) r [] rest, True)
      | _ \<Rightarrow> Some ([], True))"

lemma served_request:
  assumes "onRepair t = Some h"
  shows "served t r (StreamTypeRepair # PutUint16 topic @ PutUint64 seq) =
    Some (case map_of (cache r) \<lparr>TS_Topic = topic, TS_Seq = seq\<rparr> of None \<Rightarrow> [0] | Some p \<Rightarrow> 1 # p, True)"
proof -
  have "ReadFull 10 (PutUint16 topic @ PutUint64 seq) = Some (PutUint16 topic @ PutUint64 seq, [])"
    by (simp add: ReadFull_def)
  moreover have "Uint16 (PutUint16 topic) = Some topic" "Uint64 (PutUint64 seq) = Some seq"
    using Uint16_Put [of topic "[]"] Uint64_Put [of seq "[]"] by simp_all
  ultimately show ?thesis
    using assms by (simp add: served_def HandleRequest_def split: option.splits)
qed

section \<open>Properties\<close>

text \<open>C25: pulling from a peer that runs this code and whose transport has the repair handler gives
  exactly what is in its cache: a hit with the cached payload, or a miss.\<close>

theorem pullFromPeer_served:
  assumes "onRepair t = Some h" and "net (Addr peer) = Some (served t r)"
  shows "pullFromPeer net peer topic seq =
    (case map_of (cache r) \<lparr>TS_Topic = topic, TS_Seq = seq\<rparr> of
       None \<Rightarrow> PullMiss
     | Some payload \<Rightarrow> PullHit \<lparr>Topic = topic, Seq = seq, Payload = payload\<rparr>)"
  using served_request [OF assms(1)] assms(2) by (simp add: pullFromPeer_def split: option.splits)

definition repairPeer :: OverlayPeer where
  "repairPeer = \<lparr>NodeID = ''b'', Addr = ''b:1'', RTT = 1, IsEager = True\<rparr>"

definition repairTransport :: "unit Transport" where
  "repairTransport = SetHandlers emptyTransport (Some ()) (Some ()) (Some ())"

definition repairCache :: RepairManager where
  "repairCache = CacheEntry 0 NewRepairManager \<lparr>Topic = 4, Seq = 9, Payload = [1, 2]\<rparr>"

theorem pullFromPeer_served_witness:
  "pullFromPeer (\<lambda>_. Some (served repairTransport repairCache)) repairPeer 4 9 =
     PullHit \<lparr>Topic = 4, Seq = 9, Payload = [1, 2]\<rparr>"
  by (subst pullFromPeer_served [of repairTransport "()" _ _ repairCache])
    (simp_all add: repairTransport_def SetHandlers_def repairCache_def CacheEntry_lookup)

text \<open>C26: the repair cache. After any sequence of cached entries, whichever entries are evicted, it
  holds at most 1024, each key once, the last one cached is there, everything in it was cached
  with that payload, and nothing is missing as long as no more than 1024 were cached.\<close>

theorem CacheEntry_run:
  "let r = cache_run NewRepairManager (ves @ [(v, e)]) in
   length (cache r) \<le> maxRepairCache \<and> distinct (map fst (cache r)) \<and>
   map_of (cache r) \<lparr>TS_Topic = Topic e, TS_Seq = Seq e\<rparr> = Some (Payload e) \<and>
   (map_of (cache r) k = Some p \<longrightarrow>
     (\<exists>x \<in> snd ` set (ves @ [(v, e)]). k = \<lparr>TS_Topic = Topic x, TS_Seq = Seq x\<rparr> \<and> p = Payload x)) \<and>
   (length ves < maxRepairCache \<longrightarrow> map_of (cache r) k =
     map_of (rev (map (\<lambda>(v, x). (\<lparr>TS_Topic = Topic x, TS_Seq = Seq x\<rparr>, Payload x)) (ves @ [(v, e)]))) k)"
proof -
  let ?r = "cache_run NewRepairManager (ves @ [(v, e)])"
  have "cache_ok ?r" by (rule cache_run_ok) (simp add: cache_ok_def NewRepairManager_def)
  moreover have "map_of (cache ?r) \<lparr>TS_Topic = Topic e, TS_Seq = Seq e\<rparr> = Some (Payload e)"
    by (simp add: cache_run_def CacheEntry_lookup)
  moreover note cache_run_origin [of NewRepairManager "ves @ [(v, e)]" k p]
    and cache_run_complete [of NewRepairManager "ves @ [(v, e)]" k]
  ultimately show ?thesis
    unfolding Let_def by (simp add: cache_ok_def NewRepairManager_def)
qed

theorem CacheEntry_run_witness:
  "map_of (cache (cache_run NewRepairManager [(0, \<lparr>Topic = 4, Seq = 9, Payload = [1]\<rparr>), (0, \<lparr>Topic = 5, Seq = 1, Payload = [2]\<rparr>)]))
     \<lparr>TS_Topic = 4, TS_Seq = 9\<rparr> = Some [1]"
  using CacheEntry_run [of "[(0, \<lparr>Topic = 4, Seq = 9, Payload = [1]\<rparr>)]" 0 "\<lparr>Topic = 5, Seq = 1, Payload = [2]\<rparr>"
      "\<lparr>TS_Topic = 4, TS_Seq = 9\<rparr>" "[1]"]
  by (simp add: Let_def maxRepairCache_def)


definition repairEnv :: "Overlay \<times> repair_net" where
  "repairEnv = (\<lparr>ov_cfg = ov_cfg defaultOverlay, self = ''a'', eagerPeers = [repairPeer], lazyPeers = []\<rparr>,
     (\<lambda>_. Some (served repairTransport repairCache)))"

lemma repairEnv_pull: "RequestRepair repairEnv 4 9 o1 = (True, Receive o1 4 9 [1, 2])"
proof -
  have "pullFromPeer (snd repairEnv) repairPeer 4 9 = PullHit \<lparr>Topic = 4, Seq = 9, Payload = [1, 2]\<rparr>"
    using served_request [of repairTransport "()" repairCache 4 9]
    by (simp add: pullFromPeer_def repairEnv_def repairTransport_def SetHandlers_def repairCache_def CacheEntry_lookup)
  then show ?thesis by (simp add: RequestRepair_def RandomPeers_def AllPeers_def repairEnv_def)
qed

definition repairEvents :: "(Overlay \<times> repair_net) applier_event list" where
  "repairEvents = [Recv 4 10 [10], Wake 0 repairEnv, Recv 4 11 [11]]"

lemma repairEvents_run:
  "snd (applier_run (Some RequestRepair) (SetNextSeq NewOrderedApplier 4 9) repairEvents) =
     [(4, 9, [1, 2]), (4, 10, [10]), (4, 11, [11])]"
  "run_fits (Some RequestRepair) (SetNextSeq NewOrderedApplier 4 9) 4 repairEvents"
  by (simp_all add: repairEvents_def applier_eval repairEnv_pull fits_def)


text \<open>Timers. After any run of arrivals and wake-ups from a new applier no slot has two sleeping
  timers, and the flag of a slot is raised exactly while its timer sleeps.\<close>

theorem one_timer_per_slot:
  "let o2 = fst (applier_run (Some RequestRepair) NewOrderedApplier es) in
   distinct (map fst (sleeping o2)) \<and> (gapTimers o2 t = 1 \<longleftrightarrow> t \<in> fst ` set (sleeping o2))"
proof -
  have "timers_inv NewOrderedApplier" by (simp add: timers_inv_def NewOrderedApplier_def)
  then have "timers_inv (fst (applier_run (Some RequestRepair) NewOrderedApplier es))"
    using pull.timers_inv_run by (metis prod.collapse)
  then show ?thesis by (auto simp: timers_inv_def Let_def)
qed

lemma Receive_expected: "Receive o1 t (nextSeq o1 t) p = (o2, ds) \<Longrightarrow> \<exists>ds'. ds = (t, nextSeq o1 t, p) # ds'"
  by (auto simp: Receive_def Let_def split: prod.splits)


definition gapApplier :: OrderedApplier where
  "gapApplier = fst (Receive (SetNextSeq NewOrderedApplier 4 9) 4 11 [11])"

lemma gapApplier_fields:
  "nextSeq gapApplier 4 = 9" "pending gapApplier 4 = [(11, [11])]" "sleeping gapApplier = [(4, 9)]"
  by (simp_all add: gapApplier_def applier_eval)


end
