(* ===== verification/Wire.thy ===== *)
theory Wire
  imports Transport "HOL-Library.Sublist"
begin

text \<open>
  What the engine sees of the network: the send streams and datagrams of \<open>transport/transport.go\<close>
  together with the bytes that quic-go accepts on them.

  The operations an engine component calls are a record \<open>stream_ops\<close> over a state of any type, and
  the locale \<open>uni_streams\<close> says what the sender relies on. \<open>wire\<close> is the instance built from the
  transport model: its state is the transport, the bytes written on each stream so far and the
  datagrams sent, and every outcome that quic-go decides is read from an environment that may
  change from one call to the next.
\<close>

section \<open>The interface\<close>

record 'w stream_ops =
  so_open :: "'w \<Rightarrow> string \<Rightarrow> nat option \<times> 'w"
  so_write :: "'w \<Rightarrow> nat \<Rightarrow> bytes \<Rightarrow> bool \<times> 'w"
  so_close :: "'w \<Rightarrow> nat \<Rightarrow> 'w"
  so_datagram :: "'w \<Rightarrow> string \<Rightarrow> bytes \<Rightarrow> bool \<times> 'w"

text \<open>The bytes on the streams: opening adds an empty stream at the end, a successful write appends
  its bytes, a failed one a prefix of them, and closing changes nothing.\<close>

locale uni_streams =
  fixes ops :: "'w stream_ops" and content :: "'w \<Rightarrow> bytes list"
  assumes open_ok: "so_open ops w a = (Some s, w') \<Longrightarrow> s = length (content w) \<and> content w' = content w @ [[]]"
    and open_fail: "so_open ops w a = (None, w') \<Longrightarrow> content w' = content w"
    and write_ok: "so_write ops w s d = (True, w') \<Longrightarrow> content w' = (content w)[s := content w ! s @ d]"
    and write_fail: "so_write ops w s d = (False, w') \<Longrightarrow>
      \<exists>p. prefix p d \<and> content w' = (content w)[s := content w ! s @ p]"
    and close_keeps: "content (so_close ops w s) = content w"
begin

lemma write_cases:
  assumes "so_write ops w s d = (ok, w')"
  obtains p where "prefix p d" "content w' = (content w)[s := content w ! s @ p]" "ok \<Longrightarrow> p = d"
proof (cases ok)
  case True
  then show thesis using write_ok [of w s d w'] assms that [of d] by simp
next
  case False
  then obtain p where "prefix p d" "content w' = (content w)[s := content w ! s @ p]"
    using write_fail [of w s d w'] assms by auto
  then show thesis using that [of p] False by blast
qed

end

section \<open>The instance\<close>

record 'h wire =
  wr_tick :: nat
  wr_transport :: "'h Transport"
  wr_streams :: "bytes list"
  wr_datagrams :: "(string \<times> bytes) list"

text \<open>At each tick: the network, what other goroutines do to the transport during a dial, and for a
  write whether it succeeds and how many bytes get out if it does not.\<close>

record 'h wire_env =
  we_net :: "nat \<Rightarrow> quic_net"
  we_meanwhile :: "nat \<Rightarrow> 'h Transport \<Rightarrow> 'h Transport"
  we_write :: "nat \<Rightarrow> bool \<times> nat"

definition wire_open :: "'h wire_env \<Rightarrow> 'h wire \<Rightarrow> string \<Rightarrow> nat option \<times> 'h wire" where
  "wire_open env w addr =
     (case OpenUniStream (we_net env (wr_tick w)) (we_meanwhile env (wr_tick w)) (wr_transport w) addr of
        (None, t) \<Rightarrow> (None, w\<lparr>wr_tick := Suc (wr_tick w), wr_transport := t\<rparr>)
      | (Some c, t) \<Rightarrow>
          (Some (length (wr_streams w)),
           w\<lparr>wr_tick := Suc (wr_tick w), wr_transport := t, wr_streams := wr_streams w @ [[]]\<rparr>))"

definition wire_write :: "'h wire_env \<Rightarrow> 'h wire \<Rightarrow> nat \<Rightarrow> bytes \<Rightarrow> bool \<times> 'h wire" where
  "wire_write env w s d =
     (let (ok, k) = we_write env (wr_tick w);
          out = (if ok then d else take k d)
      in (ok, w\<lparr>wr_tick := Suc (wr_tick w), wr_streams := (wr_streams w)[s := wr_streams w ! s @ out]\<rparr>))"

definition wire_datagram :: "'h wire_env \<Rightarrow> 'h wire \<Rightarrow> string \<Rightarrow> bytes \<Rightarrow> bool \<times> 'h wire" where
  "wire_datagram env w addr m =
     (let (ok, t) = SendDatagram (we_net env (wr_tick w)) (we_meanwhile env (wr_tick w)) (wr_transport w) addr m
      in (ok, w\<lparr>wr_tick := Suc (wr_tick w), wr_transport := t,
               wr_datagrams := wr_datagrams w @ (if ok then [(addr, m)] else [])\<rparr>))"

definition wire_ops :: "'h wire_env \<Rightarrow> 'h wire stream_ops" where
  "wire_ops env = \<lparr>so_open = wire_open env, so_write = wire_write env, so_close = (\<lambda>w s. w),
     so_datagram = wire_datagram env\<rparr>"

interpretation wire: uni_streams "wire_ops env" wr_streams for env :: "'h wire_env"
proof
  fix w a s w' d
  show "so_open (wire_ops env) w a = (Some s, w') \<Longrightarrow>
      s = length (wr_streams w) \<and> wr_streams w' = wr_streams w @ [[]]"
    and "so_open (wire_ops env) w a = (None, w') \<Longrightarrow> wr_streams w' = wr_streams w"
    by (auto simp: wire_ops_def wire_open_def split: prod.splits option.splits)
  show "so_write (wire_ops env) w s d = (True, w') \<Longrightarrow> wr_streams w' = (wr_streams w)[s := wr_streams w ! s @ d]"
    by (auto simp: wire_ops_def wire_write_def Let_def split: prod.splits)
  show "so_write (wire_ops env) w s d = (False, w') \<Longrightarrow>
      \<exists>p. prefix p d \<and> wr_streams w' = (wr_streams w)[s := wr_streams w ! s @ p]"
    by (auto simp: wire_ops_def wire_write_def Let_def split: prod.splits intro: take_is_prefix)
  show "wr_streams (so_close (wire_ops env) w s) = wr_streams w" by (simp add: wire_ops_def)
qed

end
