(* ===== verification/EagerStream.thy ===== *)
theory EagerStream
  imports Wire Batch
begin

text \<open>
  \<open>engine/eager_stream.go\<close> and the eager message codec at the end of \<open>engine/engine.go\<close>.

  A writer holds the number of its open stream, if any; \<open>eagerStreamWriter_send\<close> runs on any
  \<open>stream_ops\<close>. \<open>receiveEagerStream\<close> returns the arguments of its calls to the handler, in order.
  The lemmas about a writer are proved in the locale \<open>uni_streams\<close>, and hold of the modelled transport
  through its interpretation.
\<close>

section \<open>Model\<close>

definition StreamTypeEagerStream :: byte where "StreamTypeEagerStream = 0x12"

definition maxDatagramPayload :: nat where "maxDatagramPayload = 1100"

definition encodeEagerMessage :: "GossipEntry \<Rightarrow> bytes" where
  "encodeEagerMessage entry =
     MsgTypeEagerGossip # PutUint16 (Topic entry) @ PutUint64 (Seq entry) @ Payload entry"

datatype eager_error = UnexpectedEOF | EagerPanic

definition decodeEagerMessage :: "bytes \<Rightarrow> eager_error + GossipEntry" where
  "decodeEagerMessage data =
     (if length data < 10 then Inl UnexpectedEOF
      else (case (Uint16 data, Uint64 (drop 2 data)) of
              (Some topic, Some seq) \<Rightarrow> Inr \<lparr>Topic = topic, Seq = seq, Payload = drop 10 data\<rparr>
            | _ \<Rightarrow> Inl EagerPanic))"

record eagerStreamWriter =
  esw_addr :: string
  esw_stream :: "nat option"

text \<open>The part of \<open>send\<close> that makes sure a stream is open: \<open>None\<close> is an error return.\<close>

definition send_open ::
  "'w stream_ops \<Rightarrow> 'w \<Rightarrow> eagerStreamWriter \<Rightarrow> nat option \<times> 'w \<times> eagerStreamWriter" where
  "send_open ops w wr =
     (case esw_stream wr of
        Some s \<Rightarrow> (Some s, w, wr)
      | None \<Rightarrow>
          (case so_open ops w (esw_addr wr) of
             (None, w1) \<Rightarrow> (None, w1, wr)
           | (Some s, w1) \<Rightarrow>
               (let (ok, w2) = so_write ops w1 s [StreamTypeEagerStream] in
                if \<not> ok then (None, so_close ops w2 s, wr)
                else (Some s, w2, wr\<lparr>esw_stream := Some s\<rparr>))))"

definition eagerStreamWriter_send ::
  "'w stream_ops \<Rightarrow> 'w \<Rightarrow> eagerStreamWriter \<Rightarrow> bytes \<Rightarrow> bool \<times> 'w \<times> eagerStreamWriter" where
  "eagerStreamWriter_send ops w wr msg =
     (case send_open ops w wr of
        (None, w1, wr1) \<Rightarrow> (False, w1, wr1)
      | (Some s, w1, wr1) \<Rightarrow>
          (let (ok, w2) = so_write ops w1 s (PutUint32 (of_nat (length msg))) in
           if \<not> ok then (False, so_close ops w2 s, wr1\<lparr>esw_stream := None\<rparr>)
           else
             (let (ok, w3) = so_write ops w2 s msg in
              if \<not> ok then (False, so_close ops w3 s, wr1\<lparr>esw_stream := None\<rparr>)
              else (True, w3, wr1))))"

definition eagerStreamWriter_close ::
  "'w stream_ops \<Rightarrow> 'w \<Rightarrow> eagerStreamWriter \<Rightarrow> 'w \<times> eagerStreamWriter" where
  "eagerStreamWriter_close ops w wr =
     (case esw_stream wr of
        Some s \<Rightarrow> (so_close ops w s, wr\<lparr>esw_stream := None\<rparr>)
      | None \<Rightarrow> (w, wr))"

definition strip_type :: "bytes \<Rightarrow> bytes" where
  "strip_type msg = (if length msg > 0 \<and> msg ! 0 = MsgTypeEagerGossip then drop 1 msg else msg)"

function receiveEagerStream :: "bytes \<Rightarrow> bytes list" where
  "receiveEagerStream r =
     (case ReadFull 4 r of
        None \<Rightarrow> []
      | Some (hdr, r1) \<Rightarrow>
          (case Uint32 hdr of
             None \<Rightarrow> []
           | Some msgLen \<Rightarrow>
               if unat msgLen > maxFrame then []
               else (case ReadFull (unat msgLen) r1 of
                       None \<Rightarrow> []
                     | Some (msg, r2) \<Rightarrow> strip_type msg # receiveEagerStream r2)))"
  by pat_completeness auto
termination
  by (relation "measure length") (auto simp: ReadFull_Some)

declare receiveEagerStream.simps [simp del]

text \<open>A sequence of sends by one writer, with their results.\<close>

fun send_all ::
  "'w stream_ops \<Rightarrow> 'w \<Rightarrow> eagerStreamWriter \<Rightarrow> bytes list \<Rightarrow> bool list \<times> 'w \<times> eagerStreamWriter" where
  "send_all ops w wr [] = ([], w, wr)"
| "send_all ops w wr (m # ms) =
     (let (ok, w1, wr1) = eagerStreamWriter_send ops w wr m;
          (oks, w2, wr2) = send_all ops w1 wr1 ms
      in (ok # oks, w2, wr2))"

text \<open>What arrives from a stream with the given bytes: the transport takes the type byte off.\<close>

fun received :: "bytes \<Rightarrow> bytes list" where
  "received [] = []"
| "received (ty # rest) = (if ty = StreamTypeEagerStream then receiveEagerStream rest else [])"

section \<open>Messages\<close>

lemma length_encodeEagerMessage [simp]: "length (encodeEagerMessage e) = 11 + length (Payload e)"
  by (simp add: encodeEagerMessage_def)

lemma strip_encode [simp]:
  "strip_type (encodeEagerMessage e) = PutUint16 (Topic e) @ PutUint64 (Seq e) @ Payload e"
  by (simp add: strip_type_def encodeEagerMessage_def)

lemma decode_strip_encode [simp]:
  "decodeEagerMessage (PutUint16 (Topic e) @ PutUint64 (Seq e) @ Payload e) = Inr e"
  by (simp add: decodeEagerMessage_def record_eta)

lemma decodeEagerMessage_sound:
  assumes "decodeEagerMessage data = Inr e"
  shows "data = PutUint16 (Topic e) @ PutUint64 (Seq e) @ Payload e"
  using assms
  by (auto simp: decodeEagerMessage_def Uint16_Some Uint64_Some split: if_splits option.splits)

section \<open>Frames\<close>

definition frame :: "bytes \<Rightarrow> bytes" where
  "frame m = PutUint32 (of_nat (length m)) @ m"

lemma Uint32_len: "length m \<le> maxFrame \<Longrightarrow> Uint32 (PutUint32 (of_nat (length m))) = Some (of_nat (length m))"
  using Uint32_Put [of "of_nat (length m)" "[]"] by simp

lemma unat_len: "length m \<le> maxFrame \<Longrightarrow> unat (of_nat (length m) :: uint32) = length m"
  by (rule unat_of_nat_32) (simp add: maxFrame_def)

lemma receive_Nil [simp]: "receiveEagerStream [] = []"
  by (simp add: receiveEagerStream.simps [of "[]"] ReadFull_def)

lemma receive_frame:
  assumes "length m \<le> maxFrame"
  shows "receiveEagerStream (frame m @ r) = strip_type m # receiveEagerStream r"
  using assms
  by (subst receiveEagerStream.simps) (simp add: frame_def ReadFull_append' Uint32_len unat_len)

lemma receive_frames:
  "\<forall>m \<in> set ms. length m \<le> maxFrame \<Longrightarrow>
   receiveEagerStream (concat (map frame ms) @ r) = map strip_type ms @ receiveEagerStream r"
  by (induction ms) (simp_all add: receive_frame)

lemma receive_partial:
  assumes "prefix p (frame m)" and "p \<noteq> frame m" and "length m \<le> maxFrame"
  shows "receiveEagerStream p = []"
proof (cases "length p < 4")
  case True
  then show ?thesis by (simp add: receiveEagerStream.simps [of p] ReadFull_def)
next
  case False
  obtain r where r: "frame m = p @ r" using assms(1) by (auto simp: prefix_def)
  have "take 4 p = PutUint32 (of_nat (length m))"
    using arg_cong [OF r, of "take 4"] False by (simp add: frame_def)
  then have p: "p = PutUint32 (of_nat (length m)) @ drop 4 p" by (metis append_take_drop_id)
  moreover have "m = drop 4 p @ r" using arg_cong [OF r, of "drop 4"] False by (simp add: frame_def)
  ultimately have p: "p = PutUint32 (of_nat (length m)) @ drop 4 p" "m = drop 4 p @ r" by blast+
  have "r \<noteq> []" using assms(2) r by auto
  then have "length (drop 4 p) < length m" using p(2) by (metis length_append length_greater_0_conv less_add_same_cancel1)
  then have none: "ReadFull (length m) (drop 4 p) = None" by (simp add: ReadFull_def)
  have "ReadFull 4 p = Some (PutUint32 (of_nat (length m)), drop 4 p)"
    using p(1) ReadFull_append' [of "PutUint32 (of_nat (length m))" 4 "drop 4 p"] by simp
  then show ?thesis
    using none assms(3) by (simp add: receiveEagerStream.simps [of p] Uint32_len unat_len)
qed

lemma receive_prefix:
  assumes "prefix p (frame m)" and "length m \<le> maxFrame"
  shows "receiveEagerStream p = (if p = frame m then [strip_type m] else [])"
proof (cases "p = frame m")
  case True
  then show ?thesis using True receive_frame [OF assms(2), of "[]"] by simp
next
  case False
  then show ?thesis using receive_partial [OF assms(1) _ assms(2)] by simp
qed

text \<open>The bytes of a stream that a writer has not given up: the type byte and whole frames.\<close>

definition whole_frames :: "bytes \<Rightarrow> bool" where
  "whole_frames c \<longleftrightarrow> (\<exists>ms. c = StreamTypeEagerStream # concat (map frame ms) \<and> (\<forall>m \<in> set ms. length m \<le> maxFrame))"

lemma received_append:
  assumes "whole_frames c" and "prefix p (frame m)" and "length m \<le> maxFrame"
  shows "received (c @ p) = received c @ (if p = frame m then [strip_type m] else [])"
  using assms receive_prefix [OF assms(2,3)] receive_frames [of _ "[]"]
  by (auto simp: whole_frames_def receive_frames)

lemma whole_frames_append: "whole_frames c \<Longrightarrow> length m \<le> maxFrame \<Longrightarrow> whole_frames (c @ frame m)"
proof -
  assume "whole_frames c" and len: "length m \<le> maxFrame"
  then obtain ms where "c = StreamTypeEagerStream # concat (map frame ms)" "\<forall>m \<in> set ms. length m \<le> maxFrame"
    by (auto simp: whole_frames_def)
  then show "whole_frames (c @ frame m)"
    unfolding whole_frames_def using len by (intro exI [of _ "ms @ [m]"]) simp
qed

lemma whole_frames_start: "whole_frames [StreamTypeEagerStream]"
  unfolding whole_frames_def by (intro exI [of _ "[]"]) simp

lemma received_prefix_start: "prefix p [StreamTypeEagerStream] \<Longrightarrow> received p = []"
  by (auto simp: prefix_Cons)

section \<open>A writer on any network\<close>

context uni_streams
begin

text \<open>The writer's stream, if it has one, is the last one opened and holds whole frames.\<close>

definition writer_ok :: "'w \<Rightarrow> eagerStreamWriter \<Rightarrow> bool" where
  "writer_ok w wr \<longleftrightarrow> (\<forall>s. esw_stream wr = Some s \<longrightarrow>
     content w \<noteq> [] \<and> s = length (content w) - 1 \<and> whole_frames (last (content w)))"

definition arrived :: "'w \<Rightarrow> bytes list" where
  "arrived w = concat (map received (content w))"

lemma write_last:
  assumes "so_write ops w s d = (ok, w')" and "content w \<noteq> []" and "s = length (content w) - 1"
  obtains p where "prefix p d" "content w' = butlast (content w) @ [last (content w) @ p]" "ok \<Longrightarrow> p = d"
proof -
  have upd: "(content w)[s := content w ! s @ p] = butlast (content w) @ [last (content w) @ p]" for p
    using assms(2,3) by (cases "content w" rule: rev_cases) simp_all
  from assms(1) show thesis by (rule write_cases) (use upd that in auto)
qed

lemma arrived_last:
  "content w \<noteq> [] \<Longrightarrow> content w' = butlast (content w) @ [c] \<Longrightarrow>
   received c = received (last (content w)) @ ms \<Longrightarrow> arrived w' = arrived w @ ms"
  by (cases "content w" rule: rev_cases) (simp_all add: arrived_def)

lemma send_open_cases:
  assumes "send_open ops w wr = (r, w1, wr1)" and "writer_ok w wr"
  shows "arrived w1 = arrived w \<and> writer_ok w1 wr1 \<and> (\<forall>s. r = Some s \<longrightarrow> esw_stream wr1 = Some s)"
proof (cases "esw_stream wr")
  case (Some s)
  then show ?thesis using assms by (auto simp: send_open_def)
next
  case None
  obtain o1 w0 where op: "so_open ops w (esw_addr wr) = (o1, w0)" by fastforce
  show ?thesis
  proof (cases o1)
    case no: None
    then show ?thesis
      using assms None op open_fail [of w "esw_addr wr" w0]
      by (simp add: send_open_def arrived_def writer_ok_def)
  next
    case s: (Some s)
    then have c0: "s = length (content w)" "content w0 = content w @ [[]]"
      using open_ok [of w "esw_addr wr" s w0] op by simp_all
    obtain ok w2 where wt: "so_write ops w0 s [StreamTypeEagerStream] = (ok, w2)" by fastforce
    obtain p where p: "prefix p [StreamTypeEagerStream]" "content w2 = content w @ [p]" "ok \<Longrightarrow> p = [StreamTypeEagerStream]"
      using write_last [OF wt] c0 by auto
    have arr: "arrived w2 = arrived w" using p(2) received_prefix_start [OF p(1)] by (simp add: arrived_def)
    show ?thesis
    proof (cases ok)
      case True
      then have "r = Some s" "w1 = w2" "wr1 = wr\<lparr>esw_stream := Some s\<rparr>"
        using assms(1) None op s wt by (auto simp: send_open_def)
      then show ?thesis using arr p True c0 whole_frames_start by (simp add: writer_ok_def)
    next
      case False
      then have "r = None" "w1 = so_close ops w2 s" "wr1 = wr"
        using assms(1) None op s wt by (simp_all add: send_open_def)
      then show ?thesis using arr None close_keeps by (simp add: writer_ok_def arrived_def)
    qed
  qed
qed

text \<open>One send: what arrives grows by the message if the send succeeds, and by the message or
  nothing if it fails.\<close>

text \<open>The bytes of a message that its two writes leave at the end of the last stream.\<close>

lemma send_written:
  assumes "content w1 \<noteq> []" "s = length (content w1) - 1"
    and "so_write ops w1 s (PutUint32 (of_nat (length m))) = (True, w2)" and "so_write ops w2 s m = (ok, w3)"
  obtains q where "prefix q (frame m)" "content w3 = butlast (content w1) @ [last (content w1) @ q]" "ok \<Longrightarrow> q = frame m"
proof -
  let ?hdr = "PutUint32 (of_nat (length m)) :: bytes"
  have "content w2 = butlast (content w1) @ [last (content w1) @ ?hdr]"
    using write_last [OF assms(3,1,2)] by (metis (full_types))
  then obtain q where "prefix q m" "content w3 = butlast (content w1) @ [last (content w1) @ ?hdr @ q]" "ok \<Longrightarrow> q = m"
    using write_last [OF assms(4)] assms(2) by (metis append_assoc append_is_Nil_conv butlast_snoc
        last_snoc length_append_singleton length_butlast not_Cons_self2 diff_Suc_1)
  then show thesis by (intro that [of "?hdr @ q"]) (simp_all add: frame_def)
qed

lemma send_arrived:
  assumes "eagerStreamWriter_send ops w wr m = (ok, w', wr')" and "writer_ok w wr" and len: "length m \<le> maxFrame"
  shows "writer_ok w' wr' \<and> (\<exists>f. (ok \<longrightarrow> f) \<and> arrived w' = arrived w @ (if f then [strip_type m] else []))"
proof -
  obtain r w1 wr1 where op: "send_open ops w wr = (r, w1, wr1)" by (metis prod_cases3)
  note o1 = send_open_cases [OF op assms(2)]
  show ?thesis
  proof (cases r)
    case None
    then show ?thesis using assms(1) op o1 by (auto simp: eagerStreamWriter_send_def intro: exI [of _ False])
  next
    case (Some s)
    then have ws: "content w1 \<noteq> []" "s = length (content w1) - 1" "whole_frames (last (content w1))"
      using o1 by (simp_all add: writer_ok_def)
    let ?hdr = "PutUint32 (of_nat (length m)) :: bytes"
    obtain ok2 w2 where w2: "so_write ops w1 s ?hdr = (ok2, w2)" by fastforce
    obtain p where p: "prefix p ?hdr" "content w2 = butlast (content w1) @ [last (content w1) @ p]" "ok2 \<Longrightarrow> p = ?hdr"
      using write_last [OF w2 ws(1,2)] by blast
    have step: "arrived w4 = arrived w @ (if q = frame m then [strip_type m] else [])"
      if "content w4 = butlast (content w1) @ [last (content w1) @ q]" "prefix q (frame m)" for w4 q
      using arrived_last [OF ws(1) that(1) received_append [OF ws(3) that(2) len]] o1 by simp
    show ?thesis
    proof (cases ok2)
      case False
      have "prefix p (frame m)" using p(1) by (simp add: frame_def)
      then have "arrived (so_close ops w2 s) = arrived w @ (if p = frame m then [strip_type m] else [])"
        using step [of "so_close ops w2 s" p] p(2) close_keeps by simp
      then show ?thesis
        using assms(1) op Some w2 False by (auto simp: eagerStreamWriter_send_def writer_ok_def)
    next
      case True
      obtain ok3 w3 where w3: "so_write ops w2 s m = (ok3, w3)" by fastforce
      obtain q where q: "prefix q (frame m)" "content w3 = butlast (content w1) @ [last (content w1) @ q]" "ok3 \<Longrightarrow> q = frame m"
        using send_written [OF ws(1,2) w2 [unfolded eqTrueI [OF True]] w3] by blast
      show ?thesis
      proof (cases ok3)
        case ok: True
        then have e: "w' = w3" "wr' = wr1" "ok" using assms(1) op Some w2 True w3 by (simp_all add: eagerStreamWriter_send_def)
        have c3: "content w3 = butlast (content w1) @ [last (content w1) @ frame m]" using q ok by simp
        have "esw_stream wr1 = Some s" using o1 Some by blast
        then have "writer_ok w3 wr1"
          using ws(2) whole_frames_append [OF ws(3) len] by (simp add: writer_ok_def c3)
        moreover have "arrived w3 = arrived w @ [strip_type m]" using step [OF c3] by simp
        ultimately show ?thesis unfolding e by (intro conjI exI [of _ True]) simp_all
      next
        case ok: False
        then have e: "w' = so_close ops w3 s" "wr' = wr1\<lparr>esw_stream := None\<rparr>" "\<not> ok"
          using assms(1) op Some w2 True w3 by (simp_all add: eagerStreamWriter_send_def)
        have "arrived w' = arrived w @ (if q = frame m then [strip_type m] else [])"
          using step [OF _ q(1), of w'] q(2) close_keeps e(1) by simp
        then show ?thesis using e by (auto simp: writer_ok_def)
      qed
    qed
  qed
qed

lemma send_all_arrived:
  assumes "send_all ops w wr ms = (oks, w', wr')" and "writer_ok w wr" and "\<forall>m \<in> set ms. length m \<le> maxFrame"
  shows "length oks = length ms \<and> (\<exists>fs. list_all2 (\<longrightarrow>) oks fs \<and>
    arrived w' = arrived w @ map (strip_type \<circ> fst) (filter snd (zip ms fs)))"
  using assms
proof (induction ms arbitrary: w wr oks)
  case Nil
  then show ?case by simp
next
  case (Cons m ms)
  obtain ok w1 wr1 where s: "eagerStreamWriter_send ops w wr m = (ok, w1, wr1)" by (metis prod_cases3)
  obtain oks1 where r: "send_all ops w1 wr1 ms = (oks1, w', wr')" and oks: "oks = ok # oks1"
    using Cons.prems(1) s by (auto split: prod.splits)
  obtain f where f: "writer_ok w1 wr1" "ok \<longrightarrow> f" "arrived w1 = arrived w @ (if f then [strip_type m] else [])"
    using send_arrived [OF s Cons.prems(2)] Cons.prems(3) by auto
  then obtain fs where "length oks1 = length ms" "list_all2 (\<longrightarrow>) oks1 fs"
    "arrived w' = arrived w1 @ map (strip_type \<circ> fst) (filter snd (zip ms fs))"
    using Cons.IH [OF r] Cons.prems(3) by auto
  then show ?case using f oks by (intro conjI exI [of _ "f # fs"]) auto
qed

end

section \<open>Properties\<close>

text \<open>The eager decoder inverts the encoder: it returns an entry exactly on the bytes that the
  encoder writes for that entry after the type byte.\<close>

theorem decodeEagerMessage_iff:
  "decodeEagerMessage data = Inr e \<longleftrightarrow> encodeEagerMessage e = MsgTypeEagerGossip # data"
  using decodeEagerMessage_sound [of data e] decode_strip_encode [of e]
  by (auto simp: encodeEagerMessage_def)


definition sampleEnv :: "unit wire_env" where
  "sampleEnv = \<lparr>we_net = (\<lambda>_. sampleNet), we_meanwhile = (\<lambda>_ t. t), we_write = (\<lambda>n. (n \<noteq> 4, 2))\<rparr>"

definition sampleWire :: "unit wire" where
  "sampleWire = \<lparr>wr_tick = 0, wr_transport = emptyTransport, wr_streams = [], wr_datagrams = []\<rparr>"

definition sampleEntries :: "GossipEntry list" where
  "sampleEntries = [\<lparr>Topic = 1, Seq = 1, Payload = [9]\<rparr>, \<lparr>Topic = 1, Seq = 2, Payload = [8]\<rparr>, \<lparr>Topic = 1, Seq = 3, Payload = [7]\<rparr>]"

definition sampleRun :: "bool list \<times> unit wire \<times> eagerStreamWriter" where
  "sampleRun = send_all (wire_ops sampleEnv) sampleWire \<lparr>esw_addr = ''p:1'', esw_stream = None\<rparr>
     (map encodeEagerMessage sampleEntries)"

lemma sampleRun_oks: "fst sampleRun = [True, False, True]"
  by (simp add: sampleRun_def sampleEnv_def sampleWire_def sampleEntries_def wire_ops_def eagerStreamWriter_send_def
      send_open_def wire_open_def wire_write_def OpenUniStream_def open_on_def transport_eval)



definition bigMessage :: bytes where
  "bigMessage = replicate (Suc maxFrame) 0"


end
