(* ===== verification/Engine.thy ===== *)
theory Engine
  imports Repair EagerStream
begin

text \<open>
  \<open>engine/engine.go\<close>: the gossip engine.

  The engine is a record of its components and channels; \<open>localCh\<close> and \<open>deliverCh\<close> are the contents
  of the two buffered channels, \<open>outbox\<close> are the goroutines \<open>go g.sendLazyBatch(...)\<close> that have not
  run yet, and \<open>counters\<close> are the atomic counters, 64-bit and wrapping. Every operation takes and
  returns the engine and the state \<open>w\<close> of the network, which it uses through \<open>stream_ops\<close>. Four
  things are parameters: the operations of the network, the compressor, the victim that each
  eviction from the repair cache picks (\<open>evict\<close>, indexed by the number of entries cached so far) and the
  sort of the overlay. \<open>engine_step\<close> is one step of a node: an arm of the select of \<open>Run\<close>, a
  handler called by the transport, a timer or goroutine that runs, or a call of the application.
  Log output is left out.
\<close>

section \<open>Model\<close>

record EngineStats =
  EagerRecv :: int64
  EagerDup :: int64
  LazyRecv :: int64
  LazyDup :: int64
  LocalEnqueue :: int64
  DeliverDrop :: int64
  DeliverCount :: int64
  EagerSend :: int64
  EagerFail :: int64
  LazySend :: int64
  LazyFail :: int64
  EagerBytesSent :: int64
  LazyBytesSent :: int64
  BytesRecv :: int64

definition zeroStats :: EngineStats where
  "zeroStats = \<lparr>EagerRecv = 0, EagerDup = 0, LazyRecv = 0, LazyDup = 0, LocalEnqueue = 0, DeliverDrop = 0,
     DeliverCount = 0, EagerSend = 0, EagerFail = 0, LazySend = 0, LazyFail = 0, EagerBytesSent = 0,
     LazyBytesSent = 0, BytesRecv = 0\<rparr>"

record EngineConfig =
  LazyBatchInterval :: int
  GapTimeout :: int
  MaxGapBuffer :: int
  DeliverBufferSize :: int

definition EngineConfig_withDefaults :: "EngineConfig \<Rightarrow> EngineConfig" where
  "EngineConfig_withDefaults c =
     \<lparr>LazyBatchInterval = (if LazyBatchInterval c \<le> 0 then 50 * millisecond else LazyBatchInterval c),
      GapTimeout = (if GapTimeout c \<le> 0 then 500 * millisecond else GapTimeout c),
      MaxGapBuffer = (if MaxGapBuffer c \<le> 0 then 64 else MaxGapBuffer c),
      DeliverBufferSize = (if DeliverBufferSize c \<le> 0 then 256 else DeliverBufferSize c)\<rparr>"

record GossipEngine =
  overlay :: Overlay
  seen :: SeenTracker
  applier :: OrderedApplier
  repair :: RepairManager
  ge_cfg :: EngineConfig
  localCh :: "GossipEntry list"
  lazyBuffers :: "string \<rightharpoonup> LazyBuffer"
  eagerStreams :: "string \<rightharpoonup> eagerStreamWriter"
  deliverCh :: "delivery list"
  outbox :: "(string \<times> LazyBatch) list"
  counters :: EngineStats
  evictions :: nat

definition Stats :: "GossipEngine \<Rightarrow> EngineStats" where
  "Stats g = counters g"

text \<open>The handlers the engine registers with the transport.\<close>

datatype engine_handler = OnEagerReceive | OnLazyBatchReceive | OnRepairRequest | OnEagerStream

definition Engine_New ::
  "Overlay \<Rightarrow> engine_handler Transport \<Rightarrow> EngineConfig \<Rightarrow> GossipEngine \<times> engine_handler Transport" where
  "Engine_New ov t cfg =
     (let cfg = EngineConfig_withDefaults cfg;
          o1 = NewOrderedApplier\<lparr>maxGapBuffer := MaxGapBuffer cfg, gapTimeout := GapTimeout cfg\<rparr>;
          t1 = SetHandlers t (Some OnEagerReceive) (Some OnLazyBatchReceive) (Some OnRepairRequest);
          t2 = RegisterUniHandler t1 StreamTypeEagerStream OnEagerStream
      in (\<lparr>overlay = ov, seen = zeroSeenTracker, applier = o1, repair = NewRepairManager, ge_cfg = cfg,
           localCh = [], lazyBuffers = Map.empty, eagerStreams = Map.empty, deliverCh = [], outbox = [],
           counters = zeroStats, evictions = 0\<rparr>, t2))"

text \<open>The callback that the applier delivers to: a send on \<open>deliverCh\<close> that does not block.\<close>

definition deliver_entry :: "GossipEngine \<Rightarrow> delivery \<Rightarrow> GossipEngine" where
  "deliver_entry g d =
     (if int (length (deliverCh g)) < DeliverBufferSize (ge_cfg g)
      then g\<lparr>deliverCh := deliverCh g @ [d],
             counters := (counters g)\<lparr>DeliverCount := DeliverCount (counters g) + 1\<rparr>\<rparr>
      else g\<lparr>counters := (counters g)\<lparr>DeliverDrop := DeliverDrop (counters g) + 1\<rparr>\<rparr>)"

definition apply_receive :: "GossipEngine \<Rightarrow> uint16 \<Rightarrow> uint64 \<Rightarrow> bytes \<Rightarrow> GossipEngine" where
  "apply_receive g topic seq payload =
     (let (o1, ds) = Receive (applier g) topic seq payload
      in foldl deliver_entry (g\<lparr>applier := o1\<rparr>) ds)"

definition cache_entry :: "(nat \<Rightarrow> nat) \<Rightarrow> GossipEngine \<Rightarrow> GossipEntry \<Rightarrow> GossipEngine" where
  "cache_entry evict g entry =
     g\<lparr>repair := CacheEntry (evict (evictions g)) (repair g) entry, evictions := Suc (evictions g)\<rparr>"

definition should_process :: "GossipEngine \<Rightarrow> uint16 \<Rightarrow> uint64 \<Rightarrow> bool \<times> GossipEngine" where
  "should_process g topic seq = (let (b, s) = ShouldProcess (seen g) topic seq in (b, g\<lparr>seen := s\<rparr>))"

subsection \<open>Sending\<close>

definition getEagerStream :: "GossipEngine \<Rightarrow> string \<Rightarrow> eagerStreamWriter \<times> GossipEngine" where
  "getEagerStream g addr =
     (case eagerStreams g addr of
        Some w \<Rightarrow> (w, g)
      | None \<Rightarrow> (let w = \<lparr>esw_addr = addr, esw_stream = None\<rparr>
                in (w, g\<lparr>eagerStreams := (eagerStreams g)(addr \<mapsto> w)\<rparr>)))"

abbreviation count_eager_fail :: "GossipEngine \<Rightarrow> GossipEngine" where
  "count_eager_fail g \<equiv> g\<lparr>counters := (counters g)\<lparr>EagerFail := EagerFail (counters g) + 1\<rparr>\<rparr>"

abbreviation count_eager_send :: "GossipEngine \<Rightarrow> nat \<Rightarrow> GossipEngine" where
  "count_eager_send g n \<equiv> g\<lparr>counters := (counters g)\<lparr>EagerSend := EagerSend (counters g) + 1,
     EagerBytesSent := EagerBytesSent (counters g) + of_nat n\<rparr>\<rparr>"

definition eagerSendTo ::
  "'w stream_ops \<Rightarrow> bytes \<Rightarrow> GossipEngine \<times> 'w \<Rightarrow> OverlayPeer \<Rightarrow> GossipEngine \<times> 'w" where
  "eagerSendTo ops msg gw peer =
     (let (g, w) = gw in
      if length msg > maxDatagramPayload then
        (let (wr, g1) = getEagerStream g (Addr peer);
             (ok, w1, wr1) = eagerStreamWriter_send ops w wr msg;
             g2 = g1\<lparr>eagerStreams := (eagerStreams g1)(Addr peer \<mapsto> wr1)\<rparr>
         in (if ok then count_eager_send g2 (length msg + 5) else count_eager_fail g2, w1))
      else
        (let (ok, w1) = so_datagram ops w (Addr peer) msg
         in (if ok then count_eager_send g (length msg) else count_eager_fail g, w1)))"

definition eagerForward ::
  "'w stream_ops \<Rightarrow> GossipEngine \<Rightarrow> 'w \<Rightarrow> GossipEntry \<Rightarrow> string \<Rightarrow> GossipEngine \<times> 'w" where
  "eagerForward ops g w entry excludeNodeID =
     (let peers = EagerPeers (overlay g); msg = encodeEagerMessage entry
      in foldl (\<lambda>gw peer. if NodeID peer = excludeNodeID then gw else eagerSendTo ops msg gw peer) (g, w) peers)"

definition lazyAdd :: "GossipEntry \<Rightarrow> GossipEngine \<Rightarrow> OverlayPeer \<Rightarrow> GossipEngine" where
  "lazyAdd entry g peer =
     (let buf = (case lazyBuffers g (NodeID peer) of Some b \<Rightarrow> b | None \<Rightarrow> NewLazyBuffer)
      in g\<lparr>lazyBuffers := (lazyBuffers g)(NodeID peer \<mapsto> LazyBuffer_Add buf entry)\<rparr>)"

definition enqueueForLazy :: "GossipEngine \<Rightarrow> GossipEntry \<Rightarrow> string \<Rightarrow> GossipEngine" where
  "enqueueForLazy g entry excludeNodeID =
     (let peers = LazyPeers (overlay g)
      in foldl (\<lambda>g peer. if NodeID peer = excludeNodeID then g else lazyAdd entry g peer) g peers)"

definition flushPeer :: "TopicSeq list \<Rightarrow> GossipEngine \<Rightarrow> OverlayPeer \<Rightarrow> GossipEngine" where
  "flushPeer myMarks g peer =
     (case lazyBuffers g (NodeID peer) of
        None \<Rightarrow> g
      | Some buf \<Rightarrow>
          if LazyBuffer_Len buf = 0 then g
          else (let (entries, buf') = LazyBuffer_Flush buf
                in g\<lparr>lazyBuffers := (lazyBuffers g)(NodeID peer \<mapsto> buf'),
                     outbox := outbox g @ [(Addr peer, \<lparr>Entries = entries, SenderHighWaterMarks = myMarks\<rparr>)]\<rparr>))"

definition flushLazyBatches :: "GossipEngine \<Rightarrow> GossipEngine" where
  "flushLazyBatches g =
     (let peers = LazyPeers (overlay g); myMarks = HighWaterMarks (seen g)
      in foldl (flushPeer myMarks) g peers)"

abbreviation count_lazy_fail :: "GossipEngine \<Rightarrow> GossipEngine" where
  "count_lazy_fail g \<equiv> g\<lparr>counters := (counters g)\<lparr>LazyFail := LazyFail (counters g) + 1\<rparr>\<rparr>"

definition sendLazyBatch ::
  "'w stream_ops \<Rightarrow> (bytes \<Rightarrow> bytes) \<Rightarrow> GossipEngine \<Rightarrow> 'w \<Rightarrow> string \<Rightarrow> LazyBatch \<Rightarrow> GossipEngine \<times> 'w" where
  "sendLazyBatch ops zenc g w addr batch =
     (case so_open ops w addr of
        (None, w1) \<Rightarrow> (count_lazy_fail g, w1)
      | (Some s, w1) \<Rightarrow>
          (let (ok, w2) = so_write ops w1 s [StreamTypeLazyBatch] in
           if \<not> ok then (count_lazy_fail g, so_close ops w2 s)
           else
             (let compressed = EncodeLazyBatch zenc batch;
                  (ok, w3) = so_write ops w2 s (PutUint32 (of_nat (length compressed))) in
              if \<not> ok then (count_lazy_fail g, so_close ops w3 s)
              else
                (let (ok, w4) = so_write ops w3 s compressed in
                 if \<not> ok then (count_lazy_fail g, so_close ops w4 s)
                 else (g\<lparr>counters := (counters g)\<lparr>LazySend := LazySend (counters g) + 1,
                          LazyBytesSent := LazyBytesSent (counters g) + of_nat (1 + 4 + length compressed)\<rparr>\<rparr>,
                       so_close ops w4 s)))))"

subsection \<open>Handlers\<close>

definition handleLocal ::
  "'w stream_ops \<Rightarrow> (nat \<Rightarrow> nat) \<Rightarrow> GossipEngine \<Rightarrow> 'w \<Rightarrow> GossipEntry \<Rightarrow> GossipEngine \<times> 'w" where
  "handleLocal ops evict g w entry =
     (let g1 = g\<lparr>counters := (counters g)\<lparr>LocalEnqueue := LocalEnqueue (counters g) + 1\<rparr>\<rparr>;
          g2 = snd (should_process g1 (Topic entry) (Seq entry));
          g3 = cache_entry evict g2 entry;
          (g4, w4) = eagerForward ops g3 w entry ''''
      in (enqueueForLazy g4 entry '''', w4))"

text \<open>The part of both receive handlers after the entry was found new.\<close>

definition accept_entry ::
  "'w stream_ops \<Rightarrow> (nat \<Rightarrow> nat) \<Rightarrow> GossipEngine \<Rightarrow> 'w \<Rightarrow> string \<Rightarrow> GossipEntry \<Rightarrow> GossipEngine \<times> 'w" where
  "accept_entry ops evict g w from entry =
     (let g1 = cache_entry evict g entry;
          g2 = apply_receive g1 (Topic entry) (Seq entry) (Payload entry);
          (g3, w3) = eagerForward ops g2 w entry from
      in (enqueueForLazy g3 entry from, w3))"

definition onEagerReceive ::
  "'w stream_ops \<Rightarrow> (nat \<Rightarrow> nat) \<Rightarrow> GossipEngine \<Rightarrow> 'w \<Rightarrow> string \<Rightarrow> bytes \<Rightarrow> GossipEngine \<times> 'w" where
  "onEagerReceive ops evict g w from data =
     (let g1 = g\<lparr>counters := (counters g)\<lparr>BytesRecv := BytesRecv (counters g) + of_nat (length data)\<rparr>\<rparr> in
      case decodeEagerMessage data of
        Inl _ \<Rightarrow> (g1, w)
      | Inr entry \<Rightarrow>
          (case should_process g1 (Topic entry) (Seq entry) of
             (False, g2) \<Rightarrow> (g2\<lparr>counters := (counters g2)\<lparr>EagerDup := EagerDup (counters g2) + 1\<rparr>\<rparr>, w)
           | (True, g2) \<Rightarrow>
               accept_entry ops evict
                 (g2\<lparr>counters := (counters g2)\<lparr>EagerRecv := EagerRecv (counters g2) + 1\<rparr>\<rparr>) w from entry))"

definition lazyReceiveEntry ::
  "'w stream_ops \<Rightarrow> (nat \<Rightarrow> nat) \<Rightarrow> string \<Rightarrow> GossipEngine \<times> 'w \<Rightarrow> GossipEntry \<Rightarrow> GossipEngine \<times> 'w" where
  "lazyReceiveEntry ops evict from gw entry =
     (let (g, w) = gw in
      case should_process g (Topic entry) (Seq entry) of
        (False, g1) \<Rightarrow> (g1\<lparr>counters := (counters g1)\<lparr>LazyDup := LazyDup (counters g1) + 1\<rparr>\<rparr>, w)
      | (True, g1) \<Rightarrow>
          accept_entry ops evict
            (g1\<lparr>counters := (counters g1)\<lparr>LazyRecv := LazyRecv (counters g1) + 1\<rparr>\<rparr>) w from entry)"

definition onLazyBatchReceive ::
  "'w stream_ops \<Rightarrow> (nat \<Rightarrow> nat) \<Rightarrow> (bytes \<Rightarrow> bytes option) \<Rightarrow> GossipEngine \<Rightarrow> 'w \<Rightarrow> string \<Rightarrow> bytes \<Rightarrow>
     GossipEngine \<times> 'w" where
  "onLazyBatchReceive ops evict zdec g w from reader =
     (case fst (ReadLazyBatch zdec reader) of
        Inl _ \<Rightarrow> (g, w)
      | Inr batch \<Rightarrow>
          (let g1 = (case lazyBuffers g from of
                       Some buf \<Rightarrow> g\<lparr>lazyBuffers := (lazyBuffers g)(from \<mapsto> UpdatePeerSeqs buf (SenderHighWaterMarks batch))\<rparr>
                     | None \<Rightarrow> g)
           in foldl (lazyReceiveEntry ops evict from) (g1, w) (Entries batch)))"

text \<open>\<open>Enqueue\<close> blocks while the channel is full: \<open>None\<close>.\<close>

definition Enqueue :: "GossipEngine \<Rightarrow> uint16 \<Rightarrow> uint64 \<Rightarrow> bytes \<Rightarrow> GossipEngine option" where
  "Enqueue g topic seq payload =
     (if length (localCh g) < 256
      then Some (g\<lparr>localCh := localCh g @ [\<lparr>Topic = topic, Seq = seq, Payload = payload\<rparr>]\<rparr>)
      else None)"

definition SetInitialSeq :: "GossipEngine \<Rightarrow> uint16 \<Rightarrow> uint64 \<Rightarrow> GossipEngine" where
  "SetInitialSeq g topic seq =
     g\<lparr>seen := SetTopicSeq (seen g) topic seq, applier := SetNextSeq (applier g) topic (seq + 1)\<rparr>"

text \<open>A gap timer wakes; the network of its repair attempt is a parameter.\<close>

definition engine_wake :: "repair_net \<Rightarrow> GossipEngine \<Rightarrow> nat \<Rightarrow> GossipEngine" where
  "engine_wake net g i =
     (let (o1, ds) = wake_nth (Some (RequestRepair (overlay g, net))) (applier g) i
      in foldl deliver_entry (g\<lparr>applier := o1\<rparr>) ds)"

subsection \<open>Steps\<close>

datatype engine_event =
    EvLocal
  | EvTick
  | EvEager string bytes
  | EvLazy string bytes
  | EvWake nat repair_net
  | EvSendBatch nat
  | EvEnqueue GossipEntry
  | EvConsume
  | EvReclassify "PeerInfo list"
  | EvSetInitialSeq uint16 uint64

record engine_params =
  zstd_enc :: "bytes \<Rightarrow> bytes"
  zstd_dec :: "bytes \<Rightarrow> bytes option"
  evict_choice :: "nat \<Rightarrow> nat"
  sort_peers :: "PeerInfo list \<Rightarrow> PeerInfo list"

fun engine_step ::
  "'w stream_ops \<Rightarrow> engine_params \<Rightarrow> GossipEngine \<times> 'w \<Rightarrow> engine_event \<Rightarrow> GossipEngine \<times> 'w" where
  "engine_step ops ep (g, w) EvLocal =
     (case localCh g of [] \<Rightarrow> (g, w) | entry # rest \<Rightarrow> handleLocal ops (evict_choice ep) (g\<lparr>localCh := rest\<rparr>) w entry)"
| "engine_step ops ep (g, w) EvTick = (flushLazyBatches g, w)"
| "engine_step ops ep (g, w) (EvEager from data) = onEagerReceive ops (evict_choice ep) g w from data"
| "engine_step ops ep (g, w) (EvLazy from data) =
     onLazyBatchReceive ops (evict_choice ep) (zstd_dec ep) g w from data"
| "engine_step ops ep (g, w) (EvWake i net) = (engine_wake net g i, w)"
| "engine_step ops ep (g, w) (EvSendBatch i) =
     (if i < length (outbox g)
      then sendLazyBatch ops (zstd_enc ep) (g\<lparr>outbox := take i (outbox g) @ drop (Suc i) (outbox g)\<rparr>) w
             (fst (outbox g ! i)) (snd (outbox g ! i))
      else (g, w))"
| "engine_step ops ep (g, w) (EvEnqueue entry) =
     (case Enqueue g (Topic entry) (Seq entry) (Payload entry) of None \<Rightarrow> (g, w) | Some g' \<Rightarrow> (g', w))"
| "engine_step ops ep (g, w) EvConsume = (g\<lparr>deliverCh := tl (deliverCh g)\<rparr>, w)"
| "engine_step ops ep (g, w) (EvReclassify peers) =
     (g\<lparr>overlay := Reclassify (sort_peers ep) (overlay g) peers\<rparr>, w)"
| "engine_step ops ep (g, w) (EvSetInitialSeq topic seq) = (SetInitialSeq g topic seq, w)"

definition engine_run ::
  "'w stream_ops \<Rightarrow> engine_params \<Rightarrow> GossipEngine \<times> 'w \<Rightarrow> engine_event list \<Rightarrow> GossipEngine \<times> 'w" where
  "engine_run ops ep gw evs = foldl (engine_step ops ep) gw evs"

end
