(* ===== verification/EngineProps.thy ===== *)
theory EngineProps
  imports Engine
begin

text \<open>
  Lemmas and properties of one engine: what each handler changes, that an entry is processed at
  most once, the accounting of the counters, the bounds of channels and caches, and the effect of
  late arrivals.
\<close>

section \<open>What an operation leaves alone\<close>

lemma deliver_fields [simp]:
  "overlay (foldl deliver_entry g ds) = overlay g" "seen (foldl deliver_entry g ds) = seen g"
  "applier (foldl deliver_entry g ds) = applier g" "repair (foldl deliver_entry g ds) = repair g"
  "ge_cfg (foldl deliver_entry g ds) = ge_cfg g" "localCh (foldl deliver_entry g ds) = localCh g"
  "lazyBuffers (foldl deliver_entry g ds) = lazyBuffers g" "eagerStreams (foldl deliver_entry g ds) = eagerStreams g"
  "outbox (foldl deliver_entry g ds) = outbox g" "evictions (foldl deliver_entry g ds) = evictions g"
  by (induction ds arbitrary: g) (simp_all add: deliver_entry_def)

lemma apply_receive_fields [simp]:
  "overlay (apply_receive g t q p) = overlay g" "seen (apply_receive g t q p) = seen g"
  "applier (apply_receive g t q p) = fst (Receive (applier g) t q p)" "repair (apply_receive g t q p) = repair g"
  "ge_cfg (apply_receive g t q p) = ge_cfg g" "localCh (apply_receive g t q p) = localCh g"
  "lazyBuffers (apply_receive g t q p) = lazyBuffers g" "eagerStreams (apply_receive g t q p) = eagerStreams g"
  "outbox (apply_receive g t q p) = outbox g" "evictions (apply_receive g t q p) = evictions g"
  by (simp_all add: apply_receive_def split_beta)

lemma cache_entry_fields [simp]:
  "overlay (cache_entry v g e) = overlay g" "seen (cache_entry v g e) = seen g"
  "applier (cache_entry v g e) = applier g" "ge_cfg (cache_entry v g e) = ge_cfg g"
  "localCh (cache_entry v g e) = localCh g" "lazyBuffers (cache_entry v g e) = lazyBuffers g"
  "eagerStreams (cache_entry v g e) = eagerStreams g" "deliverCh (cache_entry v g e) = deliverCh g"
  "outbox (cache_entry v g e) = outbox g" "counters (cache_entry v g e) = counters g"
  "repair (cache_entry v g e) = CacheEntry (v (evictions g)) (repair g) e"
  by (simp_all add: cache_entry_def)

lemma should_process_eq:
  "should_process g t q = (fst (ShouldProcess (seen g) t q), g\<lparr>seen := snd (ShouldProcess (seen g) t q)\<rparr>)"
  by (simp add: should_process_def split_beta)

lemma getEagerStream_fields [simp]:
  "overlay (snd (getEagerStream g a)) = overlay g" "seen (snd (getEagerStream g a)) = seen g"
  "applier (snd (getEagerStream g a)) = applier g" "repair (snd (getEagerStream g a)) = repair g"
  "ge_cfg (snd (getEagerStream g a)) = ge_cfg g" "localCh (snd (getEagerStream g a)) = localCh g"
  "lazyBuffers (snd (getEagerStream g a)) = lazyBuffers g" "deliverCh (snd (getEagerStream g a)) = deliverCh g"
  "outbox (snd (getEagerStream g a)) = outbox g" "counters (snd (getEagerStream g a)) = counters g"
  "evictions (snd (getEagerStream g a)) = evictions g"
  by (simp_all add: getEagerStream_def Let_def split: option.split)

text \<open>The counters that forwarding does not touch.\<close>

definition recv_counters :: "EngineStats \<Rightarrow> int64 list" where
  "recv_counters c = [EagerRecv c, EagerDup c, LazyRecv c, LazyDup c, LocalEnqueue c, DeliverDrop c,
     DeliverCount c, LazySend c, LazyFail c, LazyBytesSent c, BytesRecv c]"

lemma eagerSendTo_fields [simp]:
  "overlay (fst (eagerSendTo ops m gw p)) = overlay (fst gw)" "seen (fst (eagerSendTo ops m gw p)) = seen (fst gw)"
  "applier (fst (eagerSendTo ops m gw p)) = applier (fst gw)" "repair (fst (eagerSendTo ops m gw p)) = repair (fst gw)"
  "ge_cfg (fst (eagerSendTo ops m gw p)) = ge_cfg (fst gw)" "localCh (fst (eagerSendTo ops m gw p)) = localCh (fst gw)"
  "lazyBuffers (fst (eagerSendTo ops m gw p)) = lazyBuffers (fst gw)"
  "deliverCh (fst (eagerSendTo ops m gw p)) = deliverCh (fst gw)" "outbox (fst (eagerSendTo ops m gw p)) = outbox (fst gw)"
  "evictions (fst (eagerSendTo ops m gw p)) = evictions (fst gw)"
  "recv_counters (counters (fst (eagerSendTo ops m gw p))) = recv_counters (counters (fst gw))"
  "EagerSend (counters (fst (eagerSendTo ops m gw p))) + EagerFail (counters (fst (eagerSendTo ops m gw p))) =
     EagerSend (counters (fst gw)) + EagerFail (counters (fst gw)) + 1"
  by (simp_all add: eagerSendTo_def recv_counters_def split_beta Let_def)

text \<open>A fold that skips the excluded peer.\<close>

lemma foldl_skip: "foldl (\<lambda>x p. if P p then x else f x p) x ps = foldl f x (filter (\<lambda>p. \<not> P p) ps)"
  by (induction ps arbitrary: x) simp_all

lemma eagerForward_eq:
  "eagerForward ops g w e ex =
     foldl (eagerSendTo ops (encodeEagerMessage e)) (g, w) (filter (\<lambda>p. NodeID p \<noteq> ex) (EagerPeers (overlay g)))"
  by (simp add: eagerForward_def Let_def foldl_skip)

lemma eagerSends_fields [simp]:
  "overlay (fst (foldl (eagerSendTo ops m) gw ps)) = overlay (fst gw)"
  "seen (fst (foldl (eagerSendTo ops m) gw ps)) = seen (fst gw)"
  "applier (fst (foldl (eagerSendTo ops m) gw ps)) = applier (fst gw)"
  "repair (fst (foldl (eagerSendTo ops m) gw ps)) = repair (fst gw)"
  "ge_cfg (fst (foldl (eagerSendTo ops m) gw ps)) = ge_cfg (fst gw)"
  "localCh (fst (foldl (eagerSendTo ops m) gw ps)) = localCh (fst gw)"
  "lazyBuffers (fst (foldl (eagerSendTo ops m) gw ps)) = lazyBuffers (fst gw)"
  "deliverCh (fst (foldl (eagerSendTo ops m) gw ps)) = deliverCh (fst gw)"
  "outbox (fst (foldl (eagerSendTo ops m) gw ps)) = outbox (fst gw)"
  "evictions (fst (foldl (eagerSendTo ops m) gw ps)) = evictions (fst gw)"
  "recv_counters (counters (fst (foldl (eagerSendTo ops m) gw ps))) = recv_counters (counters (fst gw))"
  by (induction ps arbitrary: gw) simp_all

lemma eagerSends_count:
  "EagerSend (counters (fst (foldl (eagerSendTo ops m) gw ps))) + EagerFail (counters (fst (foldl (eagerSendTo ops m) gw ps))) =
     EagerSend (counters (fst gw)) + EagerFail (counters (fst gw)) + of_nat (length ps)"
proof (induction ps arbitrary: gw)
  case (Cons p ps)
  show ?case using Cons [of "eagerSendTo ops m gw p"] by simp
qed simp

lemma lazyAdd_fields [simp]:
  "overlay (foldl (lazyAdd e) g ps) = overlay g" "seen (foldl (lazyAdd e) g ps) = seen g"
  "applier (foldl (lazyAdd e) g ps) = applier g" "repair (foldl (lazyAdd e) g ps) = repair g"
  "ge_cfg (foldl (lazyAdd e) g ps) = ge_cfg g" "localCh (foldl (lazyAdd e) g ps) = localCh g"
  "eagerStreams (foldl (lazyAdd e) g ps) = eagerStreams g" "deliverCh (foldl (lazyAdd e) g ps) = deliverCh g"
  "outbox (foldl (lazyAdd e) g ps) = outbox g" "counters (foldl (lazyAdd e) g ps) = counters g"
  "evictions (foldl (lazyAdd e) g ps) = evictions g"
  by (induction ps arbitrary: g) (simp_all add: lazyAdd_def Let_def)

lemma enqueueForLazy_eq:
  "enqueueForLazy g e ex = foldl (lazyAdd e) g (filter (\<lambda>p. NodeID p \<noteq> ex) (LazyPeers (overlay g)))"
  by (simp add: enqueueForLazy_def Let_def foldl_skip)

lemma flush_fields [simp]:
  "overlay (foldl (flushPeer ms) g ps) = overlay g" "seen (foldl (flushPeer ms) g ps) = seen g"
  "applier (foldl (flushPeer ms) g ps) = applier g" "repair (foldl (flushPeer ms) g ps) = repair g"
  "ge_cfg (foldl (flushPeer ms) g ps) = ge_cfg g" "localCh (foldl (flushPeer ms) g ps) = localCh g"
  "deliverCh (foldl (flushPeer ms) g ps) = deliverCh g" "counters (foldl (flushPeer ms) g ps) = counters g"
  "evictions (foldl (flushPeer ms) g ps) = evictions g"
  by (induction ps arbitrary: g) (simp_all add: flushPeer_def split_beta split: option.split)

lemma sendLazyBatch_fields [simp]:
  "overlay (fst (sendLazyBatch ops z g w a b)) = overlay g" "seen (fst (sendLazyBatch ops z g w a b)) = seen g"
  "applier (fst (sendLazyBatch ops z g w a b)) = applier g" "repair (fst (sendLazyBatch ops z g w a b)) = repair g"
  "ge_cfg (fst (sendLazyBatch ops z g w a b)) = ge_cfg g" "localCh (fst (sendLazyBatch ops z g w a b)) = localCh g"
  "lazyBuffers (fst (sendLazyBatch ops z g w a b)) = lazyBuffers g"
  "deliverCh (fst (sendLazyBatch ops z g w a b)) = deliverCh g" "outbox (fst (sendLazyBatch ops z g w a b)) = outbox g"
  "evictions (fst (sendLazyBatch ops z g w a b)) = evictions g"
  by (simp_all add: sendLazyBatch_def split_beta Let_def split: option.split prod.split)

text \<open>The whole acceptance of an entry.\<close>

lemma accept_entry_fields [simp]:
  "overlay (fst (accept_entry ops v g w a e)) = overlay g" "seen (fst (accept_entry ops v g w a e)) = seen g"
  "applier (fst (accept_entry ops v g w a e)) = fst (Receive (applier g) (Topic e) (Seq e) (Payload e))"
  "repair (fst (accept_entry ops v g w a e)) = CacheEntry (v (evictions g)) (repair g) e"
  "ge_cfg (fst (accept_entry ops v g w a e)) = ge_cfg g" "localCh (fst (accept_entry ops v g w a e)) = localCh g"
  "outbox (fst (accept_entry ops v g w a e)) = outbox g"
  by (simp_all add: accept_entry_def eagerForward_eq enqueueForLazy_eq split_beta Let_def)

text \<open>The counters of received entries.\<close>

definition rx :: "EngineStats \<Rightarrow> int64 \<times> int64 \<times> int64 \<times> int64" where
  "rx c = (EagerRecv c, EagerDup c, LazyRecv c, LazyDup c)"

lemma rx_deliver [simp]: "rx (counters (foldl deliver_entry g ds)) = rx (counters g)"
  by (induction ds arbitrary: g) (simp_all add: deliver_entry_def rx_def)

lemma rx_recv_counters: "recv_counters c = recv_counters c' \<Longrightarrow> rx c = rx c'"
  by (simp add: recv_counters_def rx_def)

lemma rx_accept [simp]: "rx (counters (fst (accept_entry ops v g w a e))) = rx (counters g)"
proof -
  have "rx (counters (fst (foldl (eagerSendTo ops m) gw ps))) = rx (counters (fst gw))" for m gw ps
    by (rule rx_recv_counters) simp
  then show ?thesis
    by (simp add: accept_entry_def apply_receive_def eagerForward_eq enqueueForLazy_eq split_beta Let_def)
qed

lemma rx_sendLazyBatch [simp]: "rx (counters (fst (sendLazyBatch ops z g w a b))) = rx (counters g)"
  by (simp add: sendLazyBatch_def rx_def split_beta Let_def split: option.split prod.split)

section \<open>What a step accepts\<close>

abbreviation key :: "GossipEntry \<Rightarrow> uint16 \<times> uint64" where
  "key e \<equiv> (Topic e, Seq e)"

text \<open>The entries a step offers to the filter, and those from the network that it accepts.\<close>

definition offered :: "engine_params \<Rightarrow> GossipEngine \<Rightarrow> engine_event \<Rightarrow> GossipEntry list" where
  "offered ep g ev =
     (case ev of
        EvEager a d \<Rightarrow> (case decodeEagerMessage d of Inr e \<Rightarrow> [e] | Inl _ \<Rightarrow> [])
      | EvLazy a d \<Rightarrow> (case fst (ReadLazyBatch (zstd_dec ep) d) of Inr b \<Rightarrow> Entries b | Inl _ \<Rightarrow> [])
      | EvLocal \<Rightarrow> take 1 (localCh g)
      | _ \<Rightarrow> [])"

fun accepted_entries :: "SeenTracker \<Rightarrow> GossipEntry list \<Rightarrow> GossipEntry list" where
  "accepted_entries s [] = []"
| "accepted_entries s (e # es) =
     (if fst (ShouldProcess s (Topic e) (Seq e)) then [e] else []) @
      accepted_entries (snd (ShouldProcess s (Topic e) (Seq e))) es"

definition step_accepts :: "engine_params \<Rightarrow> GossipEngine \<Rightarrow> engine_event \<Rightarrow> GossipEntry list" where
  "step_accepts ep g ev = (if ev = EvLocal then [] else accepted_entries (seen g) (offered ep g ev))"

fun run_accepts :: "'w stream_ops \<Rightarrow> engine_params \<Rightarrow> GossipEngine \<times> 'w \<Rightarrow> engine_event list \<Rightarrow> GossipEntry list" where
  "run_accepts ops ep gw [] = []"
| "run_accepts ops ep gw (ev # evs) = step_accepts ep (fst gw) ev @ run_accepts ops ep (engine_step ops ep gw ev) evs"

definition is_eager :: "engine_event \<Rightarrow> bool" where
  "is_eager ev = (case ev of EvEager a d \<Rightarrow> True | _ \<Rightarrow> False)"

definition is_lazy :: "engine_event \<Rightarrow> bool" where
  "is_lazy ev = (case ev of EvLazy a d \<Rightarrow> True | _ \<Rightarrow> False)"

definition sets_seq :: "engine_event \<Rightarrow> bool" where
  "sets_seq ev = (case ev of EvSetInitialSeq t q \<Rightarrow> True | _ \<Rightarrow> False)"

lemma accepted_entries_key: "map key (accepted_entries s es) = seen.accepted s (map key es)"
  by (induction es arbitrary: s) auto

lemma lazyReceiveEntry_eq:
  "lazyReceiveEntry ops v a (g, w) e =
     (let g1 = g\<lparr>seen := snd (ShouldProcess (seen g) (Topic e) (Seq e))\<rparr> in
      if fst (ShouldProcess (seen g) (Topic e) (Seq e))
      then accept_entry ops v (g1\<lparr>counters := (counters g1)\<lparr>LazyRecv := LazyRecv (counters g1) + 1\<rparr>\<rparr>) w a e
      else (g1\<lparr>counters := (counters g1)\<lparr>LazyDup := LazyDup (counters g1) + 1\<rparr>\<rparr>, w))"
  by (cases "fst (ShouldProcess (seen g) (Topic e) (Seq e))")
    (simp_all add: lazyReceiveEntry_def should_process_eq Let_def)

lemma lazyReceive_step:
  fixes gw :: "GossipEngine \<times> 'w" and e :: GossipEntry
  defines "b \<equiv> fst (ShouldProcess (seen (fst gw)) (Topic e) (Seq e))"
  shows "seen (fst (lazyReceiveEntry ops v a gw e)) = snd (ShouldProcess (seen (fst gw)) (Topic e) (Seq e))"
    and "rx (counters (fst (lazyReceiveEntry ops v a gw e))) =
      (EagerRecv (counters (fst gw)), EagerDup (counters (fst gw)),
       LazyRecv (counters (fst gw)) + (if b then 1 else 0), LazyDup (counters (fst gw)) + (if b then 0 else 1))"
  by (cases gw; simp add: lazyReceiveEntry_eq Let_def b_def; simp add: rx_def)+

definition received_total :: "EngineStats \<Rightarrow> int64 \<times> int64 \<times> int64" where
  "received_total c = (EagerRecv c + EagerDup c, LazyRecv c + LazyDup c, EagerRecv c + LazyRecv c)"

lemma rx_total: "rx c = rx c' \<Longrightarrow> received_total c = received_total c'"
  by (simp add: rx_def received_total_def)

abbreviation add3 :: "int64 \<times> int64 \<times> int64 \<Rightarrow> nat \<Rightarrow> nat \<Rightarrow> nat \<Rightarrow> int64 \<times> int64 \<times> int64" where
  "add3 x i j k \<equiv> (fst x + of_nat i, fst (snd x) + of_nat j, snd (snd x) + of_nat k)"

lemma lazyReceive_fold_seen:
  "seen (fst (foldl (lazyReceiveEntry ops v a) gw es)) = seen.after (seen (fst gw)) (map key es)"
  by (induction es arbitrary: gw) (simp_all add: lazyReceive_step(1))

lemma lazyReceive_fold_total:
  "received_total (counters (fst (foldl (lazyReceiveEntry ops v a) gw es))) =
     add3 (received_total (counters (fst gw))) 0 (length es) (length (accepted_entries (seen (fst gw)) es))"
proof (induction es arbitrary: gw)
  case Nil
  then show ?case by (simp add: received_total_def)
next
  case (Cons e es)
  let ?gw = "lazyReceiveEntry ops v a gw e"
  have "received_total (counters (fst ?gw)) = add3 (received_total (counters (fst gw))) 0 1
      (if fst (ShouldProcess (seen (fst gw)) (Topic e) (Seq e)) then 1 else 0)"
    using lazyReceive_step(2) [of ops v a gw e] by (auto simp: rx_def received_total_def)
  then show ?case using Cons [of ?gw] lazyReceive_step(1) [of ops v a gw e] by simp
qed

lemmas lazyReceive_fold = lazyReceive_fold_seen lazyReceive_fold_total

lemma onEagerReceive_eq:
  "onEagerReceive ops v g w a d =
     (let g1 = g\<lparr>counters := (counters g)\<lparr>BytesRecv := BytesRecv (counters g) + of_nat (length d)\<rparr>\<rparr> in
      case decodeEagerMessage d of
        Inl _ \<Rightarrow> (g1, w)
      | Inr e \<Rightarrow>
          (let g2 = g1\<lparr>seen := snd (ShouldProcess (seen g) (Topic e) (Seq e))\<rparr> in
           if fst (ShouldProcess (seen g) (Topic e) (Seq e))
           then accept_entry ops v (g2\<lparr>counters := (counters g2)\<lparr>EagerRecv := EagerRecv (counters g2) + 1\<rparr>\<rparr>) w a e
           else (g2\<lparr>counters := (counters g2)\<lparr>EagerDup := EagerDup (counters g2) + 1\<rparr>\<rparr>, w)))"
proof (cases "decodeEagerMessage d")
  case (Inr e)
  then show ?thesis
    by (cases "fst (ShouldProcess (seen g) (Topic e) (Seq e))")
      (simp_all add: onEagerReceive_def should_process_eq Let_def)
qed (simp add: onEagerReceive_def Let_def)

lemma onEagerReceive_step:
  "seen (fst (onEagerReceive ops v g w a d)) = seen.after (seen g) (map key (offered ep g (EvEager a d)))"
  "received_total (counters (fst (onEagerReceive ops v g w a d))) =
     add3 (received_total (counters g)) (length (offered ep g (EvEager a d))) 0
       (length (accepted_entries (seen g) (offered ep g (EvEager a d))))"
proof -
  have *: "received_total (counters (fst (accept_entry ops v h w a e))) = received_total (counters h)" for h e
    by (rule rx_total) simp
  show "seen (fst (onEagerReceive ops v g w a d)) = seen.after (seen g) (map key (offered ep g (EvEager a d)))"
    by (cases "decodeEagerMessage d") (auto simp: onEagerReceive_eq Let_def offered_def)
  show "received_total (counters (fst (onEagerReceive ops v g w a d))) =
     add3 (received_total (counters g)) (length (offered ep g (EvEager a d))) 0
       (length (accepted_entries (seen g) (offered ep g (EvEager a d))))"
    by (cases "decodeEagerMessage d") (auto simp: onEagerReceive_eq Let_def offered_def *, auto simp: received_total_def)
qed

lemma onLazyBatchReceive_step:
  "seen (fst (onLazyBatchReceive ops v (zstd_dec ep) g w a d)) = seen.after (seen g) (map key (offered ep g (EvLazy a d)))"
  "received_total (counters (fst (onLazyBatchReceive ops v (zstd_dec ep) g w a d))) =
     add3 (received_total (counters g)) 0 (length (offered ep g (EvLazy a d)))
       (length (accepted_entries (seen g) (offered ep g (EvLazy a d))))"
  by (cases "fst (ReadLazyBatch (zstd_dec ep) d)";
      simp add: onLazyBatchReceive_def offered_def lazyReceive_fold Let_def split: option.split)+

lemma handleLocal_fields:
  "seen (fst (handleLocal ops v g w e)) = seen.after (seen g) [key e]"
  "received_total (counters (fst (handleLocal ops v g w e))) = received_total (counters g)"
proof -
  have *: "received_total (counters (fst (foldl (eagerSendTo ops m) gw ps))) = received_total (counters (fst gw))" for m gw ps
    by (intro rx_total rx_recv_counters) simp
  show "seen (fst (handleLocal ops v g w e)) = seen.after (seen g) [key e]"
    by (simp add: handleLocal_def should_process_eq eagerForward_eq enqueueForLazy_eq split_beta Let_def)
  show "received_total (counters (fst (handleLocal ops v g w e))) = received_total (counters g)"
    by (simp add: handleLocal_def should_process_eq eagerForward_eq enqueueForLazy_eq split_beta Let_def *)
      (simp add: received_total_def)
qed

text \<open>The effect of a step on the filter and on the totals.\<close>

lemma engine_step_seen:
  assumes "\<not> sets_seq ev"
  shows "seen (fst (engine_step ops ep (g, w) ev)) = seen.after (seen g) (map key (offered ep g ev))"
proof (cases ev)
  case (EvEager a d)
  then show ?thesis using onEagerReceive_step(1) by simp
next
  case (EvLazy a d)
  then show ?thesis by (simp add: onLazyBatchReceive_step)
qed (use assms in \<open>simp_all add: handleLocal_fields flushLazyBatches_def engine_wake_def offered_def Enqueue_def
    sets_seq_def Let_def split_beta split: list.splits\<close>)

lemma engine_step_total:
  "received_total (counters (fst (engine_step ops ep (g, w) ev))) =
     add3 (received_total (counters g)) (if is_eager ev then length (offered ep g ev) else 0)
       (if is_lazy ev then length (offered ep g ev) else 0) (length (step_accepts ep g ev))"
proof (cases ev)
  case (EvEager a d)
  then show ?thesis
    using onEagerReceive_step(2) [of ops _ g w a d ep] by (simp add: is_eager_def is_lazy_def step_accepts_def)
next
  case (EvLazy a d)
  then show ?thesis by (simp add: onLazyBatchReceive_step is_eager_def is_lazy_def step_accepts_def)
next
  case (EvWake i net)
  have "received_total (counters (foldl deliver_entry h ds)) = received_total (counters h)" for h ds
    by (rule rx_total) simp
  then show ?thesis
    using EvWake by (simp add: engine_wake_def split_beta is_eager_def is_lazy_def step_accepts_def offered_def)
next
  case (EvSendBatch i)
  have "received_total (counters (fst (sendLazyBatch ops z h w a b))) = received_total (counters h)" for z h a b
    by (rule rx_total) simp
  then show ?thesis
    using EvSendBatch by (simp add: is_eager_def is_lazy_def step_accepts_def offered_def)
qed (simp_all add: handleLocal_fields flushLazyBatches_def offered_def Enqueue_def SetInitialSeq_def
    is_eager_def is_lazy_def step_accepts_def Let_def split: list.splits)

lemma accepted_entries_above: "e \<in> set (accepted_entries s es) \<Longrightarrow> slotSeqs s (Topic e) < Seq e"
proof -
  assume "e \<in> set (accepted_entries s es)"
  then have "key e \<in> set (seen.accepted s (map key es))" unfolding accepted_entries_key [symmetric] by simp
  then show ?thesis by (rule seen.accepted_above)
qed

lemma accepted_entries_sorted: "sorted_wrt (<) (map Seq (filter (\<lambda>e. Topic e = t) (accepted_entries s es)))"
proof -
  have "map Seq (filter (\<lambda>e. Topic e = t) (accepted_entries s es)) =
      map snd (filter (\<lambda>e. fst e = t) (map key (accepted_entries s es)))"
    by (simp add: filter_map comp_def)
  then show ?thesis by (simp add: accepted_entries_key seen.accepted_increasing)
qed

lemma foldl_max_start: "m \<le> foldl max m (qs :: uint64 list)"
proof (induction qs arbitrary: m)
  case (Cons q qs)
  have "m \<le> max m q" by simp
  also have "\<dots> \<le> foldl max (max m q) qs" by (rule Cons)
  finally show ?case by simp
qed simp

lemma foldl_max_mem: "q \<in> set qs \<Longrightarrow> q \<le> foldl max m (qs :: uint64 list)"
proof (induction qs arbitrary: m)
  case (Cons x qs)
  have "x \<le> max m x" by simp
  also have "\<dots> \<le> foldl max (max m x) qs" by (rule foldl_max_start)
  finally show ?case using Cons by auto
qed simp

lemma accepted_entries_bound:
  assumes "e \<in> set (accepted_entries s es)"
  shows "Seq e \<le> slotSeqs (seen.after s (map key es)) (Topic e)"
proof -
  have "e \<in> set es"
    using assms by (induction s es rule: accepted_entries.induct) (auto split: if_splits)
  then have "Seq e \<in> set (map snd (filter (\<lambda>k. fst k = Topic e) (map key es)))" by force
  then show ?thesis unfolding seen.mark_after by (rule foldl_max_mem)
qed

lemma after_mono: "slotSeqs s t \<le> slotSeqs (seen.after s es) t"
  unfolding seen.mark_after by (rule foldl_max_start)

lemma run_accepts_sorted:
  assumes "\<forall>ev \<in> set evs. \<not> sets_seq ev"
  shows "sorted_wrt (<) (map Seq (filter (\<lambda>e. Topic e = t) (run_accepts ops ep gw evs))) \<and>
    (\<forall>e \<in> set (run_accepts ops ep gw evs). slotSeqs (seen (fst gw)) (Topic e) < Seq e)"
  using assms
proof (induction evs arbitrary: gw)
  case (Cons ev evs)
  obtain g w where gw: "gw = (g, w)" by fastforce
  let ?gw = "engine_step ops ep gw ev" and ?off = "offered ep g ev"
  have s: "seen (fst ?gw) = seen.after (seen g) (map key ?off)"
    using Cons.prems gw engine_step_seen [of ev ops ep g w] by simp
  note ih = Cons.IH [of ?gw]
  have acc: "set (step_accepts ep g ev) \<subseteq> set (accepted_entries (seen g) ?off)"
    "sorted_wrt (<) (map Seq (filter (\<lambda>e. Topic e = t) (step_accepts ep g ev)))"
    by (simp_all add: step_accepts_def accepted_entries_sorted)
  have "Seq e < Seq e'" if "e \<in> set (step_accepts ep g ev)" "e' \<in> set (run_accepts ops ep ?gw evs)"
      "Topic e = t" "Topic e' = t" for e e'
  proof -
    have "Seq e \<le> slotSeqs (seen (fst ?gw)) t"
      using accepted_entries_bound [of e "seen g" ?off] acc(1) that(1,3) s by auto
    also have "\<dots> < Seq e'" using ih Cons.prems that(2,4) by auto
    finally show ?thesis .
  qed
  moreover have "slotSeqs (seen g) (Topic e) < Seq e"
    if "e \<in> set (step_accepts ep g ev) \<or> e \<in> set (run_accepts ops ep ?gw evs)" for e
  proof (cases "e \<in> set (step_accepts ep g ev)")
    case True
    then show ?thesis using acc(1) accepted_entries_above by blast
  next
    case False
    then have "slotSeqs (seen (fst ?gw)) (Topic e) < Seq e" using that ih Cons.prems by auto
    then show ?thesis using after_mono [of "seen g" "Topic e" "map key ?off"] s by simp
  qed
  ultimately show ?case using ih Cons.prems acc(2) gw by (auto simp: sorted_wrt_append)
qed simp

section \<open>Bounds\<close>

text \<open>The bounds that hold of an engine between steps.\<close>

definition engine_ok :: "GossipEngine \<Rightarrow> bool" where
  "engine_ok g \<longleftrightarrow> length (localCh g) \<le> 256 \<and> int (length (deliverCh g)) \<le> DeliverBufferSize (ge_cfg g) \<and>
     cache_ok (repair g) \<and> timers_inv (applier g) \<and> seen_wf (seen g)"

lemma deliver_bound:
  "int (length (deliverCh g)) \<le> DeliverBufferSize (ge_cfg g) \<Longrightarrow>
   int (length (deliverCh (foldl deliver_entry g ds))) \<le> DeliverBufferSize (ge_cfg g)"
proof (induction ds arbitrary: g)
  case (Cons d ds)
  have "int (length (deliverCh (deliver_entry g d))) \<le> DeliverBufferSize (ge_cfg (deliver_entry g d))"
    using Cons.prems by (simp add: deliver_entry_def)
  moreover have "ge_cfg (deliver_entry g d) = ge_cfg g" by (simp add: deliver_entry_def)
  ultimately show ?case using Cons.IH [of "deliver_entry g d"] by simp
qed simp

lemma accept_deliverCh:
  "deliverCh (fst (accept_entry ops v g w a e)) = deliverCh (apply_receive (cache_entry v g e) (Topic e) (Seq e) (Payload e))"
  by (simp add: accept_entry_def eagerForward_eq enqueueForLazy_eq split_beta Let_def)

lemma timers_inv_Receive': "timers_inv o1 \<Longrightarrow> timers_inv (fst (Receive o1 t q p))"
  using timers_inv_Receive by (metis prod.collapse)

lemma engine_ok_accept:
  assumes "engine_ok g"
  shows "engine_ok (fst (accept_entry ops v g w a e))"
proof -
  have "int (length (deliverCh (apply_receive (cache_entry v g e) (Topic e) (Seq e) (Payload e)))) \<le> DeliverBufferSize (ge_cfg g)"
    using assms deliver_bound [of "(cache_entry v g e)\<lparr>applier := _\<rparr>"]
    by (simp add: engine_ok_def apply_receive_def split_beta)
  then show ?thesis
    using assms by (simp add: engine_ok_def accept_deliverCh cache_ok_CacheEntry timers_inv_Receive')
qed

lemma engine_ok_counters [simp]: "engine_ok (g\<lparr>counters := c\<rparr>) = engine_ok g"
  by (simp add: engine_ok_def)

lemma engine_ok_seen: "engine_ok g \<Longrightarrow> seen_wf s \<Longrightarrow> engine_ok (g\<lparr>seen := s\<rparr>)"
  by (simp add: engine_ok_def)

lemma seen_wf_should: "engine_ok g \<Longrightarrow> seen_wf (snd (ShouldProcess (seen g) t q))"
  by (simp add: engine_ok_def seen_wf_ShouldProcess)

lemma engine_ok_eager: "engine_ok g \<Longrightarrow> engine_ok (fst (onEagerReceive ops v g w a d))"
proof -
  assume ok: "engine_ok g"
  then have "engine_ok (g\<lparr>seen := snd (ShouldProcess (seen g) t q)\<rparr>)" for t q
    by (intro engine_ok_seen) (simp_all add: seen_wf_should)
  then show ?thesis
    using ok by (cases "decodeEagerMessage d") (simp_all add: onEagerReceive_eq Let_def engine_ok_accept)
qed

lemma engine_ok_lazy_entry: "engine_ok (fst gw) \<Longrightarrow> engine_ok (fst (lazyReceiveEntry ops v a gw e))"
proof -
  assume ok: "engine_ok (fst gw)"
  obtain g w where gw: "gw = (g, w)" by fastforce
  have "engine_ok (g\<lparr>seen := snd (ShouldProcess (seen g) (Topic e) (Seq e))\<rparr>)"
    using ok gw by (intro engine_ok_seen) (simp_all add: seen_wf_should)
  then show ?thesis unfolding gw lazyReceiveEntry_eq by (simp add: Let_def engine_ok_accept)
qed

lemma engine_ok_lazy: "engine_ok g \<Longrightarrow> engine_ok (fst (onLazyBatchReceive ops v z g w a d))"
proof -
  assume ok: "engine_ok g"
  have fold: "engine_ok (fst gw) \<Longrightarrow> engine_ok (fst (foldl (lazyReceiveEntry ops v a) gw es))" for gw es
    by (induction es arbitrary: gw) (simp_all add: engine_ok_lazy_entry)
  have "engine_ok (g\<lparr>lazyBuffers := x\<rparr>)" for x using ok by (simp add: engine_ok_def)
  then show ?thesis
    using ok fold by (simp add: onLazyBatchReceive_def Let_def split: sum.split option.split)
qed

lemma engine_ok_local: "engine_ok g \<Longrightarrow> engine_ok (fst (handleLocal ops v g w e))"
  by (simp add: engine_ok_def handleLocal_def should_process_eq eagerForward_eq enqueueForLazy_eq split_beta
      Let_def cache_ok_CacheEntry seen_wf_ShouldProcess)

lemma engine_ok_step: "engine_ok (fst gw) \<Longrightarrow> engine_ok (fst (engine_step ops ep gw ev))"
proof -
  assume ok': "engine_ok (fst gw)"
  obtain g w where gw: "gw = (g, w)" by fastforce
  with ok' have ok: "engine_ok g" by simp
  show ?thesis
  proof (cases ev)
    case EvLocal
    have "engine_ok (g\<lparr>localCh := tl (localCh g)\<rparr>)" using ok by (auto simp: engine_ok_def)
    then show ?thesis
      using EvLocal ok gw engine_ok_local by (cases "localCh g") simp_all
  next
    case EvTick
    then show ?thesis using ok gw by (simp add: engine_ok_def flushLazyBatches_def Let_def)
  next
    case (EvWake i net)
    let ?r = "wake_nth (Some (RequestRepair (overlay g, net))) (applier g) i"
    have "timers_inv (fst ?r)"
      using ok pull.timers_inv_wake [of "applier g" "(overlay g, net)" i] by (metis engine_ok_def prod.collapse)
    moreover have "int (length (deliverCh (foldl deliver_entry (g\<lparr>applier := fst ?r\<rparr>) (snd ?r)))) \<le> DeliverBufferSize (ge_cfg g)"
      using ok deliver_bound [of "g\<lparr>applier := fst ?r\<rparr>"] by (simp add: engine_ok_def)
    ultimately show ?thesis using EvWake ok gw by (simp add: engine_ok_def engine_wake_def split_beta)
  next
    case (EvEnqueue e)
    then show ?thesis using ok gw by (simp add: Enqueue_def engine_ok_def)
  next
    case EvConsume
    then show ?thesis using ok gw by (auto simp: engine_ok_def)
  next
    case (EvSetInitialSeq t q)
    then show ?thesis
      using ok gw seen_wf_SetTopicSeq by (simp add: SetInitialSeq_def SetNextSeq_def engine_ok_def)
  next
    case (EvSendBatch i)
    then show ?thesis using ok gw by (simp add: engine_ok_def)
  next
    case (EvReclassify ps)
    then show ?thesis using ok gw by (simp add: engine_ok_def)
  qed (use ok gw in \<open>simp_all add: engine_ok_eager engine_ok_lazy\<close>)
qed

lemma engine_ok_run: "engine_ok (fst gw) \<Longrightarrow> engine_ok (fst (engine_run ops ep gw evs))"
  unfolding engine_run_def by (induction evs arbitrary: gw) (simp_all add: engine_ok_step)

lemma engine_ok_New: "engine_ok (fst (Engine_New ov t cfg))"
  by (simp add: engine_ok_def Engine_New_def EngineConfig_withDefaults_def cache_ok_def NewRepairManager_def
      timers_inv_def NewOrderedApplier_def Let_def seen_wf_zero)

section \<open>Fan-out\<close>

text \<open>What forwarding an entry by datagrams does to the wire: one attempt per peer, those that
  succeed are on the wire in order.\<close>

lemma eagerSends_datagrams:
  assumes "length m \<le> maxDatagramPayload"
  shows "\<exists>oks. length oks = length ps \<and>
    wr_datagrams (snd (foldl (eagerSendTo (wire_ops env) m) gw ps)) =
      wr_datagrams (snd gw) @ map (\<lambda>(p, ok). (Addr p, m)) (filter snd (zip ps oks)) \<and>
    EagerSend (counters (fst (foldl (eagerSendTo (wire_ops env) m) gw ps))) =
      EagerSend (counters (fst gw)) + of_nat (length (filter snd (zip ps oks)))"
proof (induction ps arbitrary: gw)
  case (Cons p ps)
  obtain g w where gw: "gw = (g, w)" by fastforce
  obtain ok w1 where d: "wire_datagram env w (Addr p) m = (ok, w1)" by fastforce
  have dg: "wr_datagrams w1 = wr_datagrams w @ (if ok then [(Addr p, m)] else [])"
    using d by (auto simp: wire_datagram_def split_beta Let_def)
  let ?gw = "eagerSendTo (wire_ops env) m gw p"
  have st: "wr_datagrams (snd ?gw) = wr_datagrams w @ (if ok then [(Addr p, m)] else [])"
    "EagerSend (counters (fst ?gw)) = EagerSend (counters g) + (if ok then 1 else 0)"
    using assms d dg by (simp_all add: gw eagerSendTo_def wire_ops_def)
  obtain oks where oks: "length oks = length ps"
    "wr_datagrams (snd (foldl (eagerSendTo (wire_ops env) m) ?gw ps)) =
      wr_datagrams (snd ?gw) @ map (\<lambda>(p, ok). (Addr p, m)) (filter snd (zip ps oks))"
    "EagerSend (counters (fst (foldl (eagerSendTo (wire_ops env) m) ?gw ps))) =
      EagerSend (counters (fst ?gw)) + of_nat (length (filter snd (zip ps oks)))"
    using Cons [of ?gw] by blast
  show ?case by (rule exI [of _ "ok # oks"]) (use oks st gw in simp)
qed simp

lemma lazyAdd_entries:
  assumes "p \<in> set ps" and "\<And>b. lazyBuffers g (NodeID p) = Some b \<Longrightarrow> peerSeq b (Topic e) < Seq e" and "0 < Seq e"
  shows "\<exists>b. lazyBuffers (foldl (lazyAdd e) g ps) (NodeID p) = Some b \<and> e \<in> set (lb_entries b)"
proof -
  have one: "\<exists>b. lazyBuffers (lazyAdd e h q) n = Some b \<and> e \<in> set (lb_entries b)"
    if "\<exists>b. lazyBuffers h n = Some b \<and> e \<in> set (lb_entries b)" for h q n
    using that by (auto simp: lazyAdd_def LazyBuffer_Add_def Let_def split: option.splits)
  have keep: "\<exists>b. lazyBuffers (foldl (lazyAdd e) h qs) n = Some b \<and> e \<in> set (lb_entries b)"
    if "\<exists>b. lazyBuffers h n = Some b \<and> e \<in> set (lb_entries b)" for h qs n
    using that by (induction qs arbitrary: h) (simp_all add: one)
  show ?thesis
    using assms(1,2)
  proof (induction ps arbitrary: g)
    case (Cons q ps)
    show ?case
    proof (cases "NodeID q = NodeID p")
      case True
      have "\<exists>b. lazyBuffers (lazyAdd e g q) (NodeID p) = Some b \<and> e \<in> set (lb_entries b)"
        using True Cons.prems(2) assms(3)
        by (cases "lazyBuffers g (NodeID p)")
          (auto simp: lazyAdd_def LazyBuffer_Add_def peerSeq_def NewLazyBuffer_def Let_def)
      then show ?thesis using keep by simp
    next
      case False
      then have "p \<in> set ps" using Cons.prems(1) by auto
      moreover have "lazyBuffers (lazyAdd e g q) (NodeID p) = lazyBuffers g (NodeID p)"
        using False by (simp add: lazyAdd_def Let_def)
      ultimately show ?thesis using Cons.IH [of "lazyAdd e g q"] Cons.prems(2) by simp
    qed
  qed simp
qed

section \<open>Properties\<close>

fun run_offered ::
  "'w stream_ops \<Rightarrow> engine_params \<Rightarrow> (engine_event \<Rightarrow> bool) \<Rightarrow> GossipEngine \<times> 'w \<Rightarrow> engine_event list \<Rightarrow> GossipEntry list" where
  "run_offered ops ep P gw [] = []"
| "run_offered ops ep P gw (ev # evs) =
     (if P ev then offered ep (fst gw) ev else []) @ run_offered ops ep P (engine_step ops ep gw ev) evs"

text \<open>C6: at most once. In any run of an engine on any network in which the application does not
  reset a topic, the entries accepted from the network, eager and lazy together, have strictly
  increasing sequence numbers per topic, so no entry is accepted twice; the two receive
  counters together grow by exactly their number.\<close>

theorem engine_accepts_once:
  assumes "\<forall>ev \<in> set evs. \<not> sets_seq ev"
  shows "sorted_wrt (<) (map Seq (filter (\<lambda>e. Topic e = t) (run_accepts ops ep gw evs))) \<and>
    EagerRecv (counters (fst (engine_run ops ep gw evs))) + LazyRecv (counters (fst (engine_run ops ep gw evs))) =
    EagerRecv (counters (fst gw)) + LazyRecv (counters (fst gw)) + of_nat (length (run_accepts ops ep gw evs))"
proof -
  have "snd (snd (received_total (counters (fst (foldl (engine_step ops ep) gw evs))))) =
      snd (snd (received_total (counters (fst gw)))) + of_nat (length (run_accepts ops ep gw evs))"
  proof (induction evs arbitrary: gw)
    case (Cons ev evs)
    obtain g w where "gw = (g, w)" by fastforce
    then show ?case using Cons [of "engine_step ops ep gw ev"] engine_step_total [of ops ep g w ev] by simp
  qed simp
  moreover have "sorted_wrt (<) (map Seq (filter (\<lambda>e. Topic e = t) (run_accepts ops ep gw evs)))"
    using run_accepts_sorted [OF assms] by (rule conjunct1)
  ultimately show ?thesis by (simp add: received_total_def engine_run_def)
qed

definition sampleEngine :: GossipEngine where
  "sampleEngine = fst (Engine_New defaultOverlay emptyTransport
     \<lparr>LazyBatchInterval = 0, GapTimeout = 0, MaxGapBuffer = 0, DeliverBufferSize = 0\<rparr>)"

definition sampleParams :: engine_params where
  "sampleParams = \<lparr>zstd_enc = id, zstd_dec = Some, evict_choice = id, sort_peers = sort_key RTT\<rparr>"

definition entry_bytes :: "uint16 \<Rightarrow> uint64 \<Rightarrow> bytes \<Rightarrow> bytes" where
  "entry_bytes t q p = PutUint16 t @ PutUint64 q @ p"

lemma decode_entry_bytes [simp]: "decodeEagerMessage (entry_bytes t q p) = Inr \<lparr>Topic = t, Seq = q, Payload = p\<rparr>"
  using decode_strip_encode [of "\<lparr>Topic = t, Seq = q, Payload = p\<rparr>"] by (simp add: entry_bytes_def)

lemma sampleEngine_fields [simp]:
  "slotSeqs (seen sampleEngine) t = 0" "lazyBuffers sampleEngine = Map.empty" "EagerPeers (overlay sampleEngine) = []"
  "LazyPeers (overlay sampleEngine) = []" "deliverCh sampleEngine = []"
  "ge_cfg sampleEngine = \<lparr>LazyBatchInterval = 50 * millisecond, GapTimeout = 500 * millisecond, MaxGapBuffer = 64, DeliverBufferSize = 256\<rparr>"
  "nextSeq (applier sampleEngine) t = 0" "pending (applier sampleEngine) t = []" "maxGapBuffer (applier sampleEngine) = 64"
  by (simp_all add: sampleEngine_def Engine_New_def Let_def zeroSeenTracker_def EagerPeers_def LazyPeers_def
      EngineConfig_withDefaults_def defaultOverlay_def Overlay_New_def NewOrderedApplier_def)

theorem engine_accepts_once_witness:
  "let evs = [EvEager ''a'' (entry_bytes 1 5 [7]), EvEager ''b'' (entry_bytes 1 5 [7])] in
   run_accepts (wire_ops sampleEnv) sampleParams (sampleEngine, sampleWire) evs = [\<lparr>Topic = 1, Seq = 5, Payload = [7]\<rparr>] \<and>
   sorted_wrt (<) (map Seq (filter (\<lambda>e. Topic e = 1) (run_accepts (wire_ops sampleEnv) sampleParams (sampleEngine, sampleWire) evs)))"
proof -
  let ?evs = "[EvEager ''a'' (entry_bytes 1 5 [7]), EvEager ''b'' (entry_bytes 1 5 [7])]"
  have "run_accepts (wire_ops sampleEnv) sampleParams (sampleEngine, sampleWire) ?evs = [\<lparr>Topic = 1, Seq = 5, Payload = [7]\<rparr>]"
    by (simp add: step_accepts_def offered_def onEagerReceive_eq Let_def seen.mark_accept)
  moreover have "\<forall>ev \<in> set ?evs. \<not> sets_seq ev" by (simp add: sets_seq_def)
  ultimately show ?thesis using engine_accepts_once [of ?evs] by (simp add: Let_def)
qed

text \<open>C28: accounting. In any run every entry that is decoded from an eager message or a lazy batch is
  counted exactly once, as received or as duplicate.\<close>

theorem engine_accounting:
  "let c = counters (fst gw); c' = counters (fst (engine_run ops ep gw evs)) in
   EagerRecv c' + EagerDup c' = EagerRecv c + EagerDup c + of_nat (length (run_offered ops ep is_eager gw evs)) \<and>
   LazyRecv c' + LazyDup c' = LazyRecv c + LazyDup c + of_nat (length (run_offered ops ep is_lazy gw evs))"
proof -
  have "fst (received_total (counters (fst (foldl (engine_step ops ep) gw evs)))) =
        fst (received_total (counters (fst gw))) + of_nat (length (run_offered ops ep is_eager gw evs)) \<and>
      fst (snd (received_total (counters (fst (foldl (engine_step ops ep) gw evs))))) =
        fst (snd (received_total (counters (fst gw)))) + of_nat (length (run_offered ops ep is_lazy gw evs))"
  proof (induction evs arbitrary: gw)
    case (Cons ev evs)
    obtain g w where "gw = (g, w)" by fastforce
    then show ?case using Cons [of "engine_step ops ep gw ev"] engine_step_total [of ops ep g w ev] by simp
  qed simp
  then show ?thesis by (simp add: received_total_def engine_run_def Let_def)
qed

text \<open>C29: bounds. Whatever happens to a new engine, its local queue holds at most 256 entries, its
  delivery queue at most the configured number, its repair cache at most 1024, and no slot has
  two gap timers.\<close>

theorem engine_bounds:
  "let g = fst (engine_run ops ep (fst (Engine_New ov t cfg), w) evs) in
   length (localCh g) \<le> 256 \<and> int (length (deliverCh g)) \<le> DeliverBufferSize (ge_cfg g) \<and>
   length (cache (repair g)) \<le> 1024 \<and> distinct (map fst (sleeping (applier g)))"
  using engine_ok_run [of "(fst (Engine_New ov t cfg), w)" ops ep evs] engine_ok_New [of ov t cfg]
  by (simp add: engine_ok_def cache_ok_def maxRepairCache_def timers_inv_def Let_def)


definition samplePeers :: Overlay where
  "samplePeers = (overlay sampleEngine)
     \<lparr>eagerPeers := [\<lparr>NodeID = ''b'', Addr = ''p:1'', RTT = 1, IsEager = True\<rparr>],
      lazyPeers := [\<lparr>NodeID = ''c'', Addr = ''q:1'', RTT = 9, IsEager = False\<rparr>]\<rparr>"

lemma samplePeers_fields [simp]:
  "eagerPeers samplePeers = [\<lparr>NodeID = ''b'', Addr = ''p:1'', RTT = 1, IsEager = True\<rparr>]"
  "lazyPeers samplePeers = [\<lparr>NodeID = ''c'', Addr = ''q:1'', RTT = 9, IsEager = False\<rparr>]"
  by (simp_all add: samplePeers_def)


text \<open>C31: late arrivals. Once a topic's mark has reached \<open>q\<close>, an entry with sequence number \<open>q\<close> that
  arrives, by either path, changes nothing but counters, and in no run without a reset is it
  accepted again; so it never reaches the applier, even when the applier is still waiting for
  exactly this entry.\<close>

theorem late_arrival_dropped:
  assumes "\<forall>ev \<in> set evs. \<not> sets_seq ev" and "Seq e \<le> CurrentSeq (seen g) (Topic e)"
    and "decodeEagerMessage data = Inr e"
  shows "e \<notin> set (run_accepts ops ep (g, w) evs) \<and>
    onEagerReceive ops v g w from data =
      (g\<lparr>counters := (counters g)\<lparr>BytesRecv := BytesRecv (counters g) + of_nat (length data),
                                 EagerDup := EagerDup (counters g) + 1\<rparr>\<rparr>, w) \<and>
    lazyReceiveEntry ops v from (g, w) e =
      (g\<lparr>counters := (counters g)\<lparr>LazyDup := LazyDup (counters g) + 1\<rparr>\<rparr>, w)"
proof -
  have "e' \<in> set (run_accepts ops ep (g, w) evs) \<Longrightarrow> slotSeqs (seen g) (Topic e') < Seq e'" for e'
    using run_accepts_sorted [OF assms(1)] by fastforce
  then have "e \<notin> set (run_accepts ops ep (g, w) evs)"
    using assms(2) by (fastforce simp: CurrentSeq_def)
  moreover have "ShouldProcess (seen g) (Topic e) (Seq e) = (False, seen g)"
    using assms(2) by (simp add: ShouldProcess_def CurrentSeq_def)
  ultimately show ?thesis using assms(3)
    by (simp add: onEagerReceive_def lazyReceiveEntry_def should_process_def Let_def)
qed

text \<open>The engine that starts at 1 and has received 3 waits for 2, and drops it.\<close>

theorem late_arrival_dropped_witness:
  "let g = fst (engine_run (wire_ops sampleEnv) sampleParams (sampleEngine, sampleWire)
             [EvSetInitialSeq 1 1, EvEager ''a'' (entry_bytes 1 3 [7])])
   in nextSeq (applier g) 1 = 2 \<and>
      applier (fst (onEagerReceive (wire_ops sampleEnv) id g sampleWire ''a'' (entry_bytes 1 2 [6]))) = applier g \<and>
      deliverCh (fst (onEagerReceive (wire_ops sampleEnv) id g sampleWire ''a'' (entry_bytes 1 2 [6]))) = []"
proof -
  let ?g = "fst (engine_run (wire_ops sampleEnv) sampleParams (sampleEngine, sampleWire)
             [EvSetInitialSeq 1 1, EvEager ''a'' (entry_bytes 1 3 [7])])"
  have s: "slotSeqs (seen ?g) 1 = 3" "nextSeq (applier ?g) 1 = 2" "deliverCh ?g = []"
    by (simp_all add: engine_run_def onEagerReceive_eq SetInitialSeq_def SetNextSeq_def SetTopicSeq_def Receive_def Let_def
        apply_receive_def ShouldProcess_def accept_entry_def eagerForward_eq enqueueForLazy_eq split_beta word_le_nat_alt)
  show ?thesis
    using late_arrival_dropped [of "[]" "\<lparr>Topic = 1, Seq = 2, Payload = [6]\<rparr>" ?g "entry_bytes 1 2 [6]"
        "wire_ops sampleEnv" sampleParams sampleWire id "''a''"] s
    by (simp add: CurrentSeq_def Let_def)
qed

end
