(* ===== verification/Integrity.thy ===== *)
theory Integrity
  imports EngineProps
begin

text \<open>
  Where the entries of an engine come from. For a set \<open>E\<close> of entries, \<open>holds E g\<close> says that every
  entry an engine keeps anywhere (its channels, the buffer of its applier, its repair cache, its lazy
  buffers and batches under way) is in \<open>E\<close>, and \<open>wire_holds\<close> that everything it has put on the
  network is a piece of an encoding of such entries. Every operation of the engine keeps both, on
  condition that what arrives from the network is such a piece. \<open>Network\<close> closes the loop over
  several engines.
\<close>

section \<open>The applier\<close>

definition entry_of :: "delivery \<Rightarrow> GossipEntry" where
  "entry_of d = \<lparr>Topic = fst d, Seq = fst (snd d), Payload = snd (snd d)\<rparr>"

definition pending_in :: "GossipEntry set \<Rightarrow> OrderedApplier \<Rightarrow> bool" where
  "pending_in E o1 \<longleftrightarrow> (\<forall>t. \<forall>(q, p) \<in> set (pending o1 t). entry_of (t, q, p) \<in> E)"

text \<open>A call of the applier keeps to \<open>E\<close>: its buffer afterwards and what it delivers.\<close>

definition outcome_in :: "GossipEntry set \<Rightarrow> OrderedApplier \<times> delivery list \<Rightarrow> bool" where
  "outcome_in E r \<longleftrightarrow> pending_in E (fst r) \<and> entry_of ` set (snd r) \<subseteq> E"

lemma pending_in_cong [simp]:
  "pending_in E (set_next o1 t q) = pending_in E o1" "pending_in E (o1\<lparr>gapTimers := f\<rparr>) = pending_in E o1"
  "pending_in E (o1\<lparr>sleeping := s\<rparr>) = pending_in E o1"
  by (simp_all add: pending_in_def)

lemma pending_in_start [simp]: "pending_in E (startGapTimer o1 t q) = pending_in E o1"
  by (simp add: startGapTimer_def)

lemma drainLoop_in: "pending_in E o1 \<Longrightarrow> outcome_in E (drainLoop o1 t)"
proof (induction o1 t rule: drainLoop.induct)
  case (1 o1 t)
  show ?case
  proof (cases "map_of (pending o1 t) (nextSeq o1 t)")
    case None
    then show ?thesis using 1 by (subst drainLoop.simps) (simp add: outcome_in_def Let_def)
  next
    case (Some p)
    let ?o = "set_next (set_pending o1 t (AList.delete (nextSeq o1 t) (pending o1 t))) t (nextSeq o1 t + 1)"
    have "pending_in E ?o"
      using 1(2) by (auto simp: pending_in_def AList.delete_eq)
    then have "outcome_in E (drainLoop ?o t)" using 1(1) Some by simp
    moreover have "entry_of (t, nextSeq o1 t, p) \<in> E"
      using 1(2) map_of_SomeD [OF Some] by (auto simp: pending_in_def)
    ultimately show ?thesis
      using Some by (subst drainLoop.simps) (simp add: outcome_in_def Let_def split_beta)
  qed
qed

lemma drainPending_in: "pending_in E o1 \<Longrightarrow> outcome_in E (drainPending o1 t)"
  using drainLoop_in [of E o1 t] by (simp add: drainPending_def outcome_in_def Let_def split_beta)

lemma Receive_in:
  assumes "pending_in E o1" and "\<lparr>Topic = t, Seq = q, Payload = p\<rparr> \<in> E"
  shows "outcome_in E (Receive o1 t q p)"
proof -
  have e: "entry_of (t, q, p) \<in> E" using assms(2) by (simp add: entry_of_def)
  have "pending_in E (set_pending o1 t (AList.update q p (pending o1 t)))"
    using assms(1) e subsetD [OF set_alist_update [of q p "pending o1 t"]] by (fastforce simp: pending_in_def)
  moreover have "outcome_in E (drainPending (set_next o1 t k) t)" for k
    using assms(1) by (intro drainPending_in) simp
  ultimately show ?thesis
    using assms(1) e by (auto simp: Receive_def outcome_in_def Let_def split_beta)
qed

lemma skipGap_in: "pending_in E o1 \<Longrightarrow> outcome_in E (skipGap o1 t)"
  by (simp add: skipGap_def drainPending_in Let_def) (simp add: outcome_in_def)

lemma repair_loop_in:
  assumes "pending_in E o1" and "\<And>peer e. pullFromPeer net peer t q = PullHit e \<Longrightarrow> e \<in> E"
  shows "outcome_in E (snd (repair_loop net ps t q o1))"
  using assms
proof (induction ps)
  case (Cons p ps)
  then show ?case by (auto split: pull_result.split intro!: Receive_in)
qed (simp add: outcome_in_def)

lemma wake_in:
  assumes "pending_in E o1" and "\<And>peer t q e. pullFromPeer net peer t q = PullHit e \<Longrightarrow> e \<in> E"
  shows "outcome_in E (wake_nth (Some (RequestRepair (ov, net))) o1 i)"
proof -
  have "outcome_in E (gapTimer_wake (Some (RequestRepair (ov, net))) o2 t q)" if "pending_in E o2" for o2 t q
  proof -
    let ?o = "o2\<lparr>gapTimers := (gapTimers o2)(t := 0)\<rparr>"
    let ?r = "repair_loop net (RandomPeers ov 3) t (nextSeq o2 t) ?o"
    have r: "outcome_in E (snd ?r)" using that assms(2) by (intro repair_loop_in) simp_all
    then have "outcome_in E (skipGap (fst (snd ?r)) t)" by (intro skipGap_in) (simp add: outcome_in_def)
    then show ?thesis using r that
      by (auto simp: gapTimer_wake_def RequestRepair_def outcome_in_def Let_def split_beta)
  qed
  then show ?thesis using assms(1) by (simp add: wake_nth_def) (simp add: outcome_in_def)
qed

section \<open>The engine\<close>

definition cache_in :: "GossipEntry set \<Rightarrow> RepairManager \<Rightarrow> bool" where
  "cache_in E r \<longleftrightarrow> (\<forall>(k, p) \<in> set (cache r). \<lparr>Topic = TS_Topic k, Seq = TS_Seq k, Payload = p\<rparr> \<in> E)"

definition buffers_in :: "GossipEntry set \<Rightarrow> (string \<rightharpoonup> LazyBuffer) \<Rightarrow> bool" where
  "buffers_in E bs \<longleftrightarrow> (\<Union>b \<in> ran bs. set (lb_entries b)) \<subseteq> E"

definition outbox_in :: "GossipEntry set \<Rightarrow> (string \<times> LazyBatch) list \<Rightarrow> bool" where
  "outbox_in E obs \<longleftrightarrow> (\<Union>x \<in> set obs. set (Entries (snd x))) \<subseteq> E"

definition holds :: "GossipEntry set \<Rightarrow> GossipEngine \<Rightarrow> bool" where
  "holds E g \<longleftrightarrow> set (localCh g) \<subseteq> E \<and> entry_of ` set (deliverCh g) \<subseteq> E \<and> pending_in E (applier g) \<and>
     cache_in E (repair g) \<and> buffers_in E (lazyBuffers g) \<and> outbox_in E (outbox g)"

lemma buffers_in_upd: "buffers_in E bs \<Longrightarrow> set (lb_entries b) \<subseteq> E \<Longrightarrow> buffers_in E (bs(n \<mapsto> b))"
proof -
  have "ran (bs(n \<mapsto> b)) \<subseteq> insert b (ran bs)" by (auto simp: ran_def)
  then show "buffers_in E bs \<Longrightarrow> set (lb_entries b) \<subseteq> E \<Longrightarrow> buffers_in E (bs(n \<mapsto> b))"
    unfolding buffers_in_def by blast
qed

lemma buffers_in_lookup: "buffers_in E bs \<Longrightarrow> bs n = Some b \<Longrightarrow> set (lb_entries b) \<subseteq> E"
  unfolding buffers_in_def by (blast intro: ranI)

lemma outbox_in_simps [simp]:
  "outbox_in E []" "outbox_in E (x # xs) \<longleftrightarrow> set (Entries (snd x)) \<subseteq> E \<and> outbox_in E xs"
  "outbox_in E (xs @ ys) \<longleftrightarrow> outbox_in E xs \<and> outbox_in E ys"
  by (auto simp: outbox_in_def)

lemma in_mono:
  "E \<subseteq> E' \<Longrightarrow> pending_in E o1 \<Longrightarrow> pending_in E' o1" "E \<subseteq> E' \<Longrightarrow> cache_in E r \<Longrightarrow> cache_in E' r"
  "E \<subseteq> E' \<Longrightarrow> buffers_in E bs \<Longrightarrow> buffers_in E' bs" "E \<subseteq> E' \<Longrightarrow> outbox_in E obs \<Longrightarrow> outbox_in E' obs"
  unfolding pending_in_def cache_in_def buffers_in_def outbox_in_def by blast+

lemma holds_mono: "E \<subseteq> E' \<Longrightarrow> holds E g \<Longrightarrow> holds E' g"
  by (simp add: holds_def) (meson in_mono order_trans)

lemma holds_fields [simp]:
  "holds E (g\<lparr>counters := c\<rparr>) = holds E g" "holds E (g\<lparr>seen := s\<rparr>) = holds E g"
  "holds E (g\<lparr>eagerStreams := f\<rparr>) = holds E g" "holds E (g\<lparr>overlay := ov\<rparr>) = holds E g"
  by (simp_all add: holds_def)

lemma CacheEntry_in:
  assumes "cache_in E r" and "e \<in> E"
  shows "cache_in E (CacheEntry v r e)"
proof -
  let ?k = "\<lparr>TS_Topic = Topic e, TS_Seq = Seq e\<rparr>"
  have del: "set (AList.delete k xs) \<subseteq> set xs" for k :: TopicSeq and xs :: "(TopicSeq \<times> bytes) list"
    by (auto simp: AList.delete_eq)
  have "set (cache (CacheEntry v r e)) \<subseteq> insert (?k, Payload e) (set (cache r))"
    by (auto simp: CacheEntry_def Let_def dest!: subsetD [OF set_alist_update] subsetD [OF del])
  then have "x = (?k, Payload e) \<or> x \<in> set (cache r)" if "x \<in> set (cache (CacheEntry v r e))" for x
    using that by blast
  then show ?thesis using assms by (fastforce simp: cache_in_def)
qed

lemma holds_cache: "holds E g \<Longrightarrow> e \<in> E \<Longrightarrow> holds E (cache_entry v g e)"
  by (simp add: holds_def CacheEntry_in)

lemma deliver_in: "holds E g \<Longrightarrow> entry_of ` set ds \<subseteq> E \<Longrightarrow> holds E (foldl deliver_entry g ds)"
proof (induction ds arbitrary: g)
  case (Cons d ds)
  then have "holds E (deliver_entry g d)" by (auto simp: deliver_entry_def holds_def)
  then show ?case using Cons by simp
qed simp

lemma holds_applier: "holds E g \<Longrightarrow> outcome_in E (o1, ds) \<Longrightarrow> holds E (foldl deliver_entry (g\<lparr>applier := o1\<rparr>) ds)"
  by (intro deliver_in) (auto simp: holds_def outcome_in_def)

lemma holds_apply:
  assumes "holds E g" and "\<lparr>Topic = t, Seq = q, Payload = p\<rparr> \<in> E"
  shows "holds E (apply_receive g t q p)"
proof -
  have "outcome_in E (Receive (applier g) t q p)" using assms by (intro Receive_in) (simp_all add: holds_def)
  then show ?thesis using assms(1) by (simp add: apply_receive_def split_beta Let_def holds_applier)
qed

lemma lazyAdd_in:
  assumes "holds E g" and "e \<in> E"
  shows "holds E (lazyAdd e g p)"
proof -
  let ?b = "case lazyBuffers g (NodeID p) of Some b \<Rightarrow> b | None \<Rightarrow> NewLazyBuffer"
  have "buffers_in E (lazyBuffers g)" using assms(1) by (simp add: holds_def)
  moreover from this have "set (lb_entries ?b) \<subseteq> E"
    by (cases "lazyBuffers g (NodeID p)") (simp_all add: buffers_in_lookup NewLazyBuffer_def)
  then have "set (lb_entries (LazyBuffer_Add ?b e)) \<subseteq> E" using assms(2) by (simp add: LazyBuffer_Add_def)
  ultimately show ?thesis using assms(1) by (simp add: holds_def lazyAdd_def Let_def buffers_in_upd)
qed

lemma lazyAdds_in: "holds E g \<Longrightarrow> e \<in> E \<Longrightarrow> holds E (foldl (lazyAdd e) g ps)"
  by (induction ps arbitrary: g) (simp_all add: lazyAdd_in)

lemma flushPeer_in:
  assumes "holds E g"
  shows "holds E (flushPeer ms g p)"
proof (cases "lazyBuffers g (NodeID p)")
  case (Some b)
  moreover from this have "set (lb_entries b) \<subseteq> E"
    using assms buffers_in_lookup [of E "lazyBuffers g" "NodeID p" b] by (simp add: holds_def)
  ultimately show ?thesis
    using assms by (simp add: holds_def flushPeer_def LazyBuffer_Flush_def buffers_in_upd Let_def)
qed (simp add: flushPeer_def assms)

lemma flush_in: "holds E g \<Longrightarrow> holds E (flushLazyBatches g)"
proof -
  have "holds E g \<Longrightarrow> holds E (foldl (flushPeer ms) g ps)" for ms ps
    by (induction ps arbitrary: g) (simp_all add: flushPeer_in)
  then show "holds E g \<Longrightarrow> holds E (flushLazyBatches g)" by (simp add: flushLazyBatches_def Let_def)
qed

lemma wake_holds:
  assumes "holds E g" and "\<And>peer t q e. pullFromPeer net peer t q = PullHit e \<Longrightarrow> e \<in> E"
  shows "holds E (engine_wake net g i)"
proof -
  have "outcome_in E (wake_nth (Some (RequestRepair (overlay g, net))) (applier g) i)"
    using assms by (intro wake_in) (simp_all add: holds_def)
  then show ?thesis using assms(1) by (simp add: engine_wake_def split_beta Let_def holds_applier)
qed

lemma SetInitialSeq_in: "holds E g \<Longrightarrow> holds E (SetInitialSeq g t q)"
  by (auto simp: SetInitialSeq_def SetNextSeq_def holds_def pending_in_def)

end
