(* ===== verification/Network.thy ===== *)
theory Network
  imports Integrity
begin

text \<open>
  Several engines on a network. A node is an engine with its wire; a step of the network is a
  step of one node, the arrival of a datagram or of the first bytes of a stream that some node has
  sent, through the receiver's dispatcher and handlers, or a gap timer whose repair requests are
  answered by the other nodes. Datagrams may be lost, repeated and reordered, streams may break
  anywhere, and requests may fail. The theory shows that what is delivered anywhere was enqueued
  somewhere.
\<close>

section \<open>What a send leaves on the streams\<close>

context uni_streams
begin

text \<open>The two writes of a frame put a prefix of it at the end of the stream, all of it if they succeed.\<close>

lemma frame_writes:
  assumes "so_write ops w s (PutUint32 (of_nat (length m))) = (ok2, w2)" and "so_write ops w2 s m = (ok3, w3)"
    and "s < length (content w)"
  shows "\<exists>p. prefix p (frame m) \<and> content w2 = (content w)[s := content w ! s @ p]"
    and "ok2 \<Longrightarrow> \<exists>p. prefix p (frame m) \<and> content w3 = (content w)[s := content w ! s @ p] \<and> (ok3 \<longrightarrow> p = frame m)"
proof -
  let ?hdr = "PutUint32 (of_nat (length m)) :: bytes"
  obtain p where p: "prefix p ?hdr" "content w2 = (content w)[s := content w ! s @ p]" "ok2 \<Longrightarrow> p = ?hdr"
    using write_cases [OF assms(1)] by blast
  have "prefix p (frame m)" using p(1) by (simp add: frame_def)
  then show "\<exists>p. prefix p (frame m) \<and> content w2 = (content w)[s := content w ! s @ p]"
    using p(2) by blast
  obtain q where q: "prefix q m" "content w3 = (content w2)[s := content w2 ! s @ q]" "ok3 \<Longrightarrow> q = m"
    using write_cases [OF assms(2)] by blast
  assume "ok2"
  then have "content w3 = (content w)[s := content w ! s @ ?hdr @ q]" using p q assms(3) by simp
  moreover have "prefix (?hdr @ q) (frame m)" using q(1) by (simp add: frame_def)
  ultimately show "\<exists>p. prefix p (frame m) \<and> content w3 = (content w)[s := content w ! s @ p] \<and> (ok3 \<longrightarrow> p = frame m)"
    using q(3) by (intro exI [of _ "?hdr @ q"]) (simp add: frame_def)
qed

lemma send_frame:
  assumes "eagerStreamWriter_send ops w wr m = (ok, w', wr')" and "send_open ops w wr = (Some s, w1, wr1)"
    and "s < length (content w1)"
  shows "\<exists>p. prefix p (frame m) \<and> content w' = (content w1)[s := content w1 ! s @ p] \<and>
    (esw_stream wr' = None \<or> wr' = wr1 \<and> p = frame m)"
proof -
  obtain ok2 w2 where w2: "so_write ops w1 s (PutUint32 (of_nat (length m))) = (ok2, w2)" by fastforce
  obtain ok3 w3 where w3: "so_write ops w2 s m = (ok3, w3)" by fastforce
  note f = frame_writes [OF w2 w3 assms(3)]
  show ?thesis
  proof (cases ok2)
    case True
    then show ?thesis
      using f(2) assms(1,2) w2 w3 close_keeps by (cases ok3) (auto simp: eagerStreamWriter_send_def)
  next
    case False
    then show ?thesis
      using f(1) assms(1,2) w2 close_keeps by (auto simp: eagerStreamWriter_send_def)
  qed
qed

lemma send_on_stream:
  assumes "eagerStreamWriter_send ops w wr m = (ok, w', wr')" and "esw_stream wr = Some s" and "s < length (content w)"
  shows "\<exists>p. prefix p (frame m) \<and> content w' = (content w)[s := content w ! s @ p] \<and>
    (esw_stream wr' = None \<or> esw_stream wr' = Some s \<and> p = frame m)"
  using send_frame [OF assms(1), of s w wr] assms(2,3) by (auto simp: send_open_def)

lemma send_opens:
  assumes "eagerStreamWriter_send ops w wr m = (ok, w', wr')" and "esw_stream wr = None"
  shows "content w' = content w \<and> esw_stream wr' = None \<or>
    (\<exists>c. content w' = content w @ [c] \<and> prefix c (StreamTypeEagerStream # frame m) \<and>
      (esw_stream wr' = None \<or> esw_stream wr' = Some (length (content w)) \<and> c = StreamTypeEagerStream # frame m))"
proof -
  obtain r w0 where op: "so_open ops w (esw_addr wr) = (r, w0)" by fastforce
  show ?thesis
  proof (cases r)
    case None
    then show ?thesis
      using assms op open_fail [of w "esw_addr wr" w0] by (auto simp: eagerStreamWriter_send_def send_open_def)
  next
    case (Some s)
    then have c0: "s = length (content w)" "content w0 = content w @ [[]]"
      using open_ok [of w "esw_addr wr" s w0] op by simp_all
    obtain ok1 w1 where w1: "so_write ops w0 s [StreamTypeEagerStream] = (ok1, w1)" by fastforce
    obtain p where p: "prefix p [StreamTypeEagerStream]" "content w1 = content w @ [p]" "ok1 \<Longrightarrow> p = [StreamTypeEagerStream]"
      using write_cases [OF w1] c0 by (metis append_Nil list_update_length nth_append_length)
    show ?thesis
    proof (cases ok1)
      case False
      then have "w' = so_close ops w1 s" "wr' = wr"
        using assms op Some w1 by (simp_all add: eagerStreamWriter_send_def send_open_def)
      moreover have "prefix p (StreamTypeEagerStream # frame m)" using p(1) by (auto simp: prefix_Cons)
      ultimately show ?thesis using p(2) close_keeps assms(2) by auto
    next
      case True
      then have "send_open ops w wr = (Some s, w1, wr\<lparr>esw_stream := Some s\<rparr>)"
        using assms(2) op Some w1 by (simp add: send_open_def)
      from send_frame [OF assms(1) this] obtain q where q: "prefix q (frame m)"
        "content w' = (content w1)[s := content w1 ! s @ q]"
        "esw_stream wr' = None \<or> wr' = wr\<lparr>esw_stream := Some s\<rparr> \<and> q = frame m"
        using p(2) c0(1) by auto
      have "content w' = content w @ [StreamTypeEagerStream # q]" using q(2) p(2,3) True c0(1) by simp
      moreover have "prefix (StreamTypeEagerStream # q) (StreamTypeEagerStream # frame m)" using q(1) by simp
      ultimately show ?thesis using q(3) c0(1) by auto
    qed
  qed
qed

text \<open>A lazy batch is sent on a stream of its own.\<close>

lemma sendLazyBatch_content:
  "let c = EncodeLazyBatch zenc b; w' = snd (sendLazyBatch ops zenc g w a b) in
   content w' = content w \<or>
   (\<exists>p. content w' = content w @ [p] \<and> prefix p (StreamTypeLazyBatch # frame c))"
proof -
  let ?c = "EncodeLazyBatch zenc b"
  obtain r w1 where op: "so_open ops w a = (r, w1)" by fastforce
  show ?thesis
  proof (cases r)
    case None
    then show ?thesis using op open_fail [of w a w1] by (simp add: sendLazyBatch_def Let_def)
  next
    case (Some s)
    then have c1: "s = length (content w)" "content w1 = content w @ [[]]"
      using open_ok [of w a s w1] op by simp_all
    obtain ok2 w2 where w2: "so_write ops w1 s [StreamTypeLazyBatch] = (ok2, w2)" by fastforce
    obtain p where p: "prefix p [StreamTypeLazyBatch]" "content w2 = content w @ [p]" "ok2 \<Longrightarrow> p = [StreamTypeLazyBatch]"
      using write_cases [OF w2] c1 by (metis append_Nil list_update_length nth_append_length)
    obtain ok3 w3 where w3: "so_write ops w2 s (PutUint32 (of_nat (length ?c))) = (ok3, w3)" by fastforce
    obtain ok4 w4 where w4: "so_write ops w3 s ?c = (ok4, w4)" by fastforce
    have f: "\<exists>q. content w3 = content w @ [p @ q] \<and> prefix q (frame ?c)"
      "ok3 \<Longrightarrow> \<exists>q. content w4 = content w @ [p @ q] \<and> prefix q (frame ?c)"
      using frame_writes [OF w3 w4] p(2) c1(1) by auto
    have pre: "prefix p (StreamTypeLazyBatch # frame ?c)" using p(1) by (auto simp: prefix_Cons)
    have w': "snd (sendLazyBatch ops zenc g w a b) = so_close ops (if \<not> ok2 then w2 else if \<not> ok3 then w3 else w4) s"
      using op Some w2 w3 w4 by (simp add: sendLazyBatch_def Let_def)
    show ?thesis unfolding w' Let_def close_keeps
      using f p pre by (cases ok2; cases ok3) auto
  qed
qed

end

section \<open>What is on the wire\<close>

text \<open>The messages of a set of entries; the streams that carry them, complete up to a frame
  boundary or broken off; and streams with a lazy batch.\<close>

abbreviation messages :: "GossipEntry set \<Rightarrow> bytes set" where
  "messages E \<equiv> encodeEagerMessage ` E"

definition eager_boundary :: "GossipEntry set \<Rightarrow> bytes \<Rightarrow> bool" where
  "eager_boundary E c \<longleftrightarrow> (\<exists>ms. set ms \<subseteq> messages E \<and> c = StreamTypeEagerStream # concat (map frame ms))"

definition eager_piece :: "GossipEntry set \<Rightarrow> bytes \<Rightarrow> bool" where
  "eager_piece E c \<longleftrightarrow> (\<exists>c'. eager_boundary E c' \<and> prefix c c')"

definition lazy_piece :: "(bytes \<Rightarrow> bytes) \<Rightarrow> GossipEntry set \<Rightarrow> bytes \<Rightarrow> bool" where
  "lazy_piece zenc E c \<longleftrightarrow>
     (\<exists>b. set (Entries b) \<subseteq> E \<and> prefix c (StreamTypeLazyBatch # frame (EncodeLazyBatch zenc b)))"

text \<open>The streams of a node: each is a piece; a writer's stream is at a frame boundary and belongs
  to no other writer. \<open>f\<close> gives the stream of the writer to an address.\<close>

definition streams_in :: "(bytes \<Rightarrow> bytes) \<Rightarrow> GossipEntry set \<Rightarrow> (string \<rightharpoonup> nat) \<Rightarrow> bytes list \<Rightarrow> bool" where
  "streams_in zenc E f cs \<longleftrightarrow> (\<forall>c \<in> set cs. eager_piece E c \<or> lazy_piece zenc E c) \<and>
     (\<forall>a s. f a = Some s \<longrightarrow> s < length cs \<and> eager_boundary E (cs ! s)) \<and>
     (\<forall>a b s. f a = Some s \<longrightarrow> f b = Some s \<longrightarrow> a = b)"

lemma boundary_start: "m \<in> messages E \<Longrightarrow> eager_boundary E (StreamTypeEagerStream # frame m)"
  unfolding eager_boundary_def by (intro exI [of _ "[m]"]) simp

lemma boundary_append:
  assumes "eager_boundary E c" and "m \<in> messages E"
  shows "eager_boundary E (c @ frame m)"
proof -
  obtain ms where "set ms \<subseteq> messages E" "c = StreamTypeEagerStream # concat (map frame ms)"
    using assms(1) by (auto simp: eager_boundary_def)
  then show ?thesis unfolding eager_boundary_def using assms(2) by (intro exI [of _ "ms @ [m]"]) simp
qed

lemma piece_of_boundary: "eager_boundary E c \<Longrightarrow> eager_piece E c"
  unfolding eager_piece_def by blast

lemma eager_piece_append:
  "eager_boundary E c \<Longrightarrow> m \<in> messages E \<Longrightarrow> prefix p (frame m) \<Longrightarrow> eager_piece E (c @ p)"
  unfolding eager_piece_def using boundary_append [of E c m] by (auto simp: prefix_def)

lemma piece_mono:
  "E \<subseteq> E' \<Longrightarrow> eager_boundary E c \<Longrightarrow> eager_boundary E' c" "E \<subseteq> E' \<Longrightarrow> eager_piece E c \<Longrightarrow> eager_piece E' c"
  "E \<subseteq> E' \<Longrightarrow> lazy_piece zenc E c \<Longrightarrow> lazy_piece zenc E' c"
  unfolding eager_boundary_def eager_piece_def lazy_piece_def by blast+

lemma streams_in_mono: "E \<subseteq> E' \<Longrightarrow> streams_in zenc E f cs \<Longrightarrow> streams_in zenc E' f cs"
  unfolding streams_in_def by (elim conjE, intro conjI) (blast intro: piece_mono)+

lemma streams_in_extend:
  "streams_in zenc E f cs \<Longrightarrow> eager_piece E c \<or> lazy_piece zenc E c \<Longrightarrow> streams_in zenc E f (cs @ [c])"
  by (auto simp: streams_in_def nth_append intro: less_SucI)

lemma streams_in_drop: "streams_in zenc E f cs \<Longrightarrow> streams_in zenc E (f(a := None)) cs"
  unfolding streams_in_def by (simp only: fun_upd_apply split: if_split) blast

lemma streams_in_open:
  assumes "streams_in zenc E f cs" and "m \<in> messages E"
  shows "streams_in zenc E (f(a \<mapsto> length cs)) (cs @ [StreamTypeEagerStream # frame m])"
proof -
  have "streams_in zenc E f (cs @ [StreamTypeEagerStream # frame m])"
    using assms by (intro streams_in_extend) (simp_all add: boundary_start piece_of_boundary)
  moreover have "f b \<noteq> Some (length cs)" for b using assms(1) unfolding streams_in_def by blast
  ultimately show ?thesis using boundary_start [OF assms(2)] by (simp add: streams_in_def) blast
qed

text \<open>A send to \<open>a\<close> on its stream \<open>s\<close>, complete or broken off.\<close>

lemma streams_in_write:
  assumes "streams_in zenc E f cs" and "f a = Some s" and "m \<in> messages E" and "prefix p (frame m)"
  shows "streams_in zenc E (f(a := None)) (cs[s := cs ! s @ p])"
    and "p = frame m \<Longrightarrow> streams_in zenc E f (cs[s := cs ! s @ p])"
proof -
  have s: "s < length cs" "eager_boundary E (cs ! s)" using assms(1,2) unfolding streams_in_def by blast+
  have other: "f b = Some s \<Longrightarrow> b = a" for b using assms(1,2) unfolding streams_in_def by blast
  have pieces: "\<forall>c \<in> set (cs[s := cs ! s @ p]). eager_piece E c \<or> lazy_piece zenc E c"
    using assms(1) eager_piece_append [OF s(2) assms(3,4)] set_update_subset_insert [of cs s "cs ! s @ p"]
    unfolding streams_in_def by blast
  have "t < length cs \<and> eager_boundary E (cs[s := cs ! s @ p] ! t)" if "f b = Some t" "b \<noteq> a" for b t
    using assms(1) other that unfolding streams_in_def by (metis nth_list_update_neq)
  then show "streams_in zenc E (f(a := None)) (cs[s := cs ! s @ p])"
    using assms(1) pieces unfolding streams_in_def by (auto split: if_splits)
  have "eager_boundary E (cs[s := cs ! s @ p] ! t)" if "p = frame m" "f b = Some t" for b t
    using that boundary_append [OF s(2) assms(3)] s assms(1) unfolding streams_in_def
    by (cases "t = s") (simp_all add: nth_list_update)
  then show "p = frame m \<Longrightarrow> streams_in zenc E f (cs[s := cs ! s @ p])"
    using assms(1) pieces unfolding streams_in_def by simp
qed

section \<open>A node\<close>

definition stream_of :: "GossipEngine \<Rightarrow> string \<rightharpoonup> nat" where
  "stream_of g a = Option.bind (eagerStreams g a) esw_stream"

definition node_in :: "(bytes \<Rightarrow> bytes) \<Rightarrow> GossipEntry set \<Rightarrow> GossipEngine \<times> 'h wire \<Rightarrow> bool" where
  "node_in zenc E n \<longleftrightarrow> holds E (fst n) \<and> streams_in zenc E (stream_of (fst n)) (wr_streams (snd n)) \<and>
     snd ` set (wr_datagrams (snd n)) \<subseteq> messages E"

lemma node_in_mono: "E \<subseteq> E' \<Longrightarrow> node_in zenc E n \<Longrightarrow> node_in zenc E' n"
  by (simp add: node_in_def) (meson holds_mono streams_in_mono image_mono order_trans)

lemma stream_of_cong: "eagerStreams g' = eagerStreams g \<Longrightarrow> stream_of g' = stream_of g"
  by (simp add: stream_of_def fun_eq_iff)

text \<open>A change of the engine that touches neither the writers nor the wire.\<close>

lemma node_in_engine:
  "node_in zenc E (g, w) \<Longrightarrow> holds E g' \<Longrightarrow> eagerStreams g' = eagerStreams g \<Longrightarrow> node_in zenc E (g', w)"
  using stream_of_cong [of g' g] by (simp add: node_in_def)

lemma node_in_counters [simp]: "node_in zenc E (g\<lparr>counters := c\<rparr>, w) = node_in zenc E (g, w)"
  using stream_of_cong [of "g\<lparr>counters := c\<rparr>" g] by (simp add: node_in_def)

lemma getEagerStream_of:
  assumes "getEagerStream g a = (wr, g1)"
  shows "esw_stream wr = stream_of g a" "stream_of g1 = stream_of g"
  using assms by (auto simp: getEagerStream_def stream_of_def fun_eq_iff Let_def split: option.splits)

lemma holds_getEagerStream: "holds E (snd (getEagerStream g a)) = holds E g"
  by (simp add: getEagerStream_def Let_def split: option.split)

lemma wire_datagrams [simp]:
  "wr_datagrams (snd (wire_open env w a)) = wr_datagrams w" "wr_datagrams (snd (wire_write env w s d)) = wr_datagrams w"
  by (simp_all add: wire_open_def wire_write_def Let_def split_beta split: option.split)

lemma ops_datagrams:
  "so_open (wire_ops env) w a = (r, w') \<Longrightarrow> wr_datagrams w' = wr_datagrams w"
  "so_write (wire_ops env) w s d = (ok, w') \<Longrightarrow> wr_datagrams w' = wr_datagrams w"
  "wr_datagrams (so_close (wire_ops env) w s) = wr_datagrams w"
  using wire_datagrams(1) [of env w a] wire_datagrams(2) [of env w s d] by (auto simp: wire_ops_def)

lemma send_datagrams: "wr_datagrams (fst (snd (eagerStreamWriter_send (wire_ops env) w wr m))) = wr_datagrams w"
  by (auto simp: eagerStreamWriter_send_def send_open_def ops_datagrams Let_def split: option.split prod.split)

lemma sendLazyBatch_datagrams: "wr_datagrams (snd (sendLazyBatch (wire_ops env) zenc g w a b)) = wr_datagrams w"
  by (auto simp: sendLazyBatch_def ops_datagrams Let_def split: option.split prod.split)

text \<open>A send on the stream to an address.\<close>

lemma send_streams_in:
  assumes "eagerStreamWriter_send (wire_ops env) w wr m = (ok, w', wr')" and "m \<in> messages E"
    and "streams_in zenc E f (wr_streams w)" and "esw_stream wr = f a"
  shows "streams_in zenc E (f(a := esw_stream wr')) (wr_streams w')"
proof (cases "f a")
  case (Some s)
  then have "s < length (wr_streams w)" using assms(3) unfolding streams_in_def by blast
  then obtain p where p: "prefix p (frame m)" "wr_streams w' = (wr_streams w)[s := wr_streams w ! s @ p]"
    "esw_stream wr' = None \<or> esw_stream wr' = Some s \<and> p = frame m"
    using wire.send_on_stream [OF assms(1)] assms(4) Some by auto
  note wi = streams_in_write [OF assms(3) Some assms(2) p(1)]
  show ?thesis using p(3) wi(1) wi(2) Some by (auto simp: p(2) fun_upd_idem)
next
  case None
  then have f: "f(a := None) = f" by (simp add: fun_upd_idem)
  consider "wr_streams w' = wr_streams w" "esw_stream wr' = None"
    | c where "wr_streams w' = wr_streams w @ [c]" "prefix c (StreamTypeEagerStream # frame m)" "esw_stream wr' = None"
    | "wr_streams w' = wr_streams w @ [StreamTypeEagerStream # frame m]" "esw_stream wr' = Some (length (wr_streams w))"
    using wire.send_opens [OF assms(1)] assms(4) None by auto
  then show ?thesis
  proof cases
    case 1
    then show ?thesis using assms(3) f by simp
  next
    case 2
    have "eager_piece E c" unfolding eager_piece_def using boundary_start [OF assms(2)] 2(2) by blast
    then show ?thesis using streams_in_extend [OF assms(3)] 2 f by simp
  next
    case 3
    then show ?thesis using streams_in_open [OF assms(3,2)] by simp
  qed
qed

lemma eagerSendTo_in:
  assumes "node_in zenc E gw" and "m \<in> messages E"
  shows "node_in zenc E (eagerSendTo (wire_ops env) m gw p)"
proof -
  obtain g w where gw: "gw = (g, w)" by fastforce
  show ?thesis
  proof (cases "length m > maxDatagramPayload")
    case True
    obtain wr g1 where g1: "getEagerStream g (Addr p) = (wr, g1)" by fastforce
    obtain ok w1 wr1 where s: "eagerStreamWriter_send (wire_ops env) w wr m = (ok, w1, wr1)" by (metis prod_cases3)
    let ?g = "g1\<lparr>eagerStreams := (eagerStreams g1)(Addr p \<mapsto> wr1)\<rparr>"
    have st: "stream_of ?g = (stream_of g)(Addr p := esw_stream wr1)"
      using getEagerStream_of(2) [OF g1] by (auto simp: stream_of_def fun_eq_iff)
    have "streams_in zenc E (stream_of ?g) (wr_streams w1)"
      unfolding st using assms gw getEagerStream_of(1) [OF g1]
      by (intro send_streams_in [OF s]) (simp_all add: node_in_def)
    moreover have "wr_datagrams w1 = wr_datagrams w" using send_datagrams [of env w wr m] s by simp
    moreover have "holds E g1" using holds_getEagerStream [of E g "Addr p"] assms(1) gw g1 by (simp add: node_in_def)
    ultimately have "node_in zenc E (?g, w1)" using assms(1) gw by (simp add: node_in_def)
    then show ?thesis
      using True g1 s gw by (simp add: eagerSendTo_def Let_def)
  next
    case False
    obtain ok w1 where s: "so_datagram (wire_ops env) w (Addr p) m = (ok, w1)" by fastforce
    then have "wr_streams w1 = wr_streams w" "wr_datagrams w1 = wr_datagrams w @ (if ok then [(Addr p, m)] else [])"
      by (auto simp: wire_ops_def wire_datagram_def Let_def split: prod.splits)
    then have "node_in zenc E (g, w1)" using assms gw by (cases ok) (simp_all add: node_in_def)
    then show ?thesis
      using False s gw by (simp add: eagerSendTo_def)
  qed
qed

lemma eagerSends_in:
  "node_in zenc E gw \<Longrightarrow> m \<in> messages E \<Longrightarrow> node_in zenc E (foldl (eagerSendTo (wire_ops env) m) gw ps)"
  by (induction ps arbitrary: gw) (simp_all add: eagerSendTo_in)

section \<open>The handlers\<close>

lemma forward_in:
  assumes "node_in zenc E (g, w)" and "e \<in> E"
  shows "node_in zenc E (case eagerForward (wire_ops env) g w e ex of (g1, w1) \<Rightarrow> (enqueueForLazy g1 e ex, w1))"
proof -
  obtain g1 w1 where f: "eagerForward (wire_ops env) g w e ex = (g1, w1)" by fastforce
  then have n: "node_in zenc E (g1, w1)"
    using eagerSends_in [OF assms(1), of "encodeEagerMessage e" env] assms(2) by (metis eagerForward_eq imageI)
  then have "holds E (enqueueForLazy g1 e ex)"
    using assms(2) lazyAdds_in by (simp add: enqueueForLazy_eq node_in_def)
  then have "node_in zenc E (enqueueForLazy g1 e ex, w1)"
    by (rule node_in_engine [OF n]) (simp add: enqueueForLazy_eq)
  then show ?thesis using f by simp
qed

lemma accept_in:
  assumes "node_in zenc E (g, w)" and "e \<in> E"
  shows "node_in zenc E (accept_entry (wire_ops env) v g w from e)"
proof -
  let ?g = "apply_receive (cache_entry v g e) (Topic e) (Seq e) (Payload e)"
  have "holds E ?g" using assms by (intro holds_apply holds_cache) (simp_all add: node_in_def)
  then have "node_in zenc E (?g, w)" by (rule node_in_engine [OF assms(1)]) (simp add: cache_entry_def)
  from forward_in [OF this assms(2)] show ?thesis by (simp add: accept_entry_def Let_def)
qed

lemma node_in_seen [simp]: "node_in zenc E (g\<lparr>seen := s\<rparr>, w) = node_in zenc E (g, w)"
  using stream_of_cong [of "g\<lparr>seen := s\<rparr>" g] by (simp add: node_in_def)

lemma handleLocal_in:
  assumes "node_in zenc E (g, w)" and "e \<in> E"
  shows "node_in zenc E (handleLocal (wire_ops env) v g w e)"
proof -
  let ?g = "cache_entry v (g\<lparr>counters := (counters g)\<lparr>LocalEnqueue := LocalEnqueue (counters g) + 1\<rparr>,
      seen := snd (ShouldProcess (seen g) (Topic e) (Seq e))\<rparr>) e"
  have "node_in zenc E (?g, w)"
    using assms by (intro node_in_engine [OF assms(1)]) (simp_all add: holds_cache node_in_def)
  from forward_in [OF this assms(2)] show ?thesis by (simp add: handleLocal_def should_process_eq Let_def)
qed

lemma onEagerReceive_in:
  assumes "node_in zenc E (g, w)" and "\<And>e. decodeEagerMessage data = Inr e \<Longrightarrow> e \<in> E"
  shows "node_in zenc E (onEagerReceive (wire_ops env) v g w from data)"
  using assms by (auto simp: onEagerReceive_def should_process_eq Let_def intro: accept_in split: sum.split prod.split bool.split)

lemma lazyReceive_in:
  assumes "node_in zenc E gw" and "e \<in> E"
  shows "node_in zenc E (lazyReceiveEntry (wire_ops env) v from gw e)"
proof -
  obtain g w where "gw = (g, w)" by fastforce
  then show ?thesis
    using assms by (auto simp: lazyReceiveEntry_def should_process_eq Let_def intro: accept_in split: prod.split bool.split)
qed

lemma lazyReceives_in:
  "node_in zenc E gw \<Longrightarrow> set es \<subseteq> E \<Longrightarrow> node_in zenc E (foldl (lazyReceiveEntry (wire_ops env) v from) gw es)"
  by (induction es arbitrary: gw) (simp_all add: lazyReceive_in)

lemma onLazyBatchReceive_in:
  assumes "node_in zenc E (g, w)" and "\<And>b. fst (ReadLazyBatch zdec s) = Inr b \<Longrightarrow> set (Entries b) \<subseteq> E"
  shows "node_in zenc E (onLazyBatchReceive (wire_ops env) v zdec g w from s)"
proof (cases "fst (ReadLazyBatch zdec s)")
  case (Inl err)
  then show ?thesis using assms(1) by (simp add: onLazyBatchReceive_def)
next
  case (Inr b)
  let ?g = "case lazyBuffers g from of
      Some buf \<Rightarrow> g\<lparr>lazyBuffers := (lazyBuffers g)(from \<mapsto> UpdatePeerSeqs buf (SenderHighWaterMarks b))\<rparr>
    | None \<Rightarrow> g"
  have "node_in zenc E (?g, w)"
  proof (cases "lazyBuffers g from")
    case (Some buf)
    have h: "holds E g" using assms(1) by (simp add: node_in_def)
    then have "set (lb_entries buf) \<subseteq> E"
      using buffers_in_lookup [of E "lazyBuffers g" "from" buf] Some by (simp add: holds_def)
    then have "holds E ?g" using h Some by (simp add: holds_def buffers_in_upd)
    then show ?thesis using Some by (intro node_in_engine [OF assms(1)]) simp_all
  qed (simp add: assms(1))
  from lazyReceives_in [OF this assms(2) [OF Inr]] show ?thesis by (simp add: onLazyBatchReceive_def Inr Let_def)
qed

lemma sendLazyBatch_in:
  assumes "node_in zenc E (g, w)" and "set (Entries b) \<subseteq> E"
  shows "node_in zenc E (sendLazyBatch (wire_ops env) zenc g w a b)"
proof -
  let ?r = "sendLazyBatch (wire_ops env) zenc g w a b"
  have "streams_in zenc E (stream_of g) (wr_streams (snd ?r))"
    using wire.sendLazyBatch_content [of zenc b env g w a] assms streams_in_extend [of zenc E "stream_of g" "wr_streams w"]
    unfolding Let_def node_in_def lazy_piece_def by fastforce
  moreover have "holds E (fst ?r)"
    using assms(1) by (auto simp: sendLazyBatch_def node_in_def Let_def split: option.split prod.split)
  moreover have "eagerStreams (fst ?r) = eagerStreams g"
    by (auto simp: sendLazyBatch_def Let_def split: option.split prod.split)
  ultimately show ?thesis
    using assms(1) sendLazyBatch_datagrams [of env zenc g w a b] stream_of_cong [of "fst ?r" g]
    by (simp add: node_in_def)
qed

section \<open>What arrives\<close>

text \<open>Entries whose encodings fit the length fields.\<close>

definition entries_fit :: "GossipEntry set \<Rightarrow> bool" where
  "entries_fit E \<longleftrightarrow> (\<forall>e \<in> E. length (Payload e) + 11 < 2 ^ 32)"

lemma entries_fit_mono: "entries_fit E' \<Longrightarrow> E \<subseteq> E' \<Longrightarrow> entries_fit E"
  unfolding entries_fit_def by blast

lemma frame_prefix:
  assumes "prefix p (frame m @ r)" and "4 \<le> length p"
  shows "ReadFull 4 p = Some (PutUint32 (of_nat (length m)), drop 4 p)" "prefix (drop 4 p) (m @ r)"
proof -
  obtain t where t: "frame m @ r = p @ t" using assms(1) by (auto simp: prefix_def)
  have "take 4 p = PutUint32 (of_nat (length m))"
    using arg_cong [OF t, of "take 4"] assms(2) by (simp add: frame_def)
  then show "ReadFull 4 p = Some (PutUint32 (of_nat (length m)), drop 4 p)"
    using assms(2) by (simp add: ReadFull_def)
  have "m @ r = drop 4 p @ t" using arg_cong [OF t, of "drop 4"] assms(2) by (simp add: frame_def)
  then show "prefix (drop 4 p) (m @ r)" by (simp add: prefix_def)
qed

lemma receive_big:
  assumes "prefix p (frame m @ r)" and "maxFrame < length m" and "length m < 2 ^ 32"
  shows "receiveEagerStream p = []"
proof (cases "4 \<le> length p")
  case True
  then show ?thesis
    using frame_prefix(1) [OF assms(1)] assms(2) unat_of_nat_32 [OF assms(3)]
    by (subst receiveEagerStream.simps) simp
next
  case False
  then show ?thesis by (subst receiveEagerStream.simps) (simp add: ReadFull_def)
qed

lemma receive_piece:
  assumes "prefix p (concat (map frame ms))" and "\<forall>m \<in> set ms. length m < 2 ^ 32"
  shows "set (receiveEagerStream p) \<subseteq> strip_type ` set ms"
  using assms
proof (induction ms arbitrary: p)
  case (Cons m ms)
  show ?case
  proof (cases "length m \<le> maxFrame")
    case True
    consider "prefix p (frame m)" | q where "p = frame m @ q" "prefix q (concat (map frame ms))"
      using Cons.prems(1) by (auto simp: prefix_append)
    then show ?thesis
    proof cases
      case 1
      then show ?thesis using receive_prefix [OF 1 True] by (cases "p = frame m") simp_all
    next
      case 2
      then show ?thesis using Cons.IH [of q] Cons.prems(2) receive_frame [OF True] by auto
    qed
  next
    case False
    then show ?thesis using receive_big [of p m "concat (map frame ms)"] Cons.prems by simp
  qed
qed simp

lemma eager_piece_received:
  assumes "eager_piece E (ty # c)" and "entries_fit E" and "d \<in> set (receiveEagerStream c)"
  shows "\<exists>e \<in> E. decodeEagerMessage d = Inr e"
proof -
  obtain ms where ms: "set ms \<subseteq> messages E" "prefix c (concat (map frame ms))"
    using assms(1) by (auto simp: eager_piece_def eager_boundary_def)
  have "length m < 2 ^ 32" if m: "m \<in> set ms" for m
  proof -
    obtain e where "e \<in> E" "m = encodeEagerMessage e" using ms(1) m by blast
    then show ?thesis using assms(2) by (auto simp: entries_fit_def)
  qed
  then have "set (receiveEagerStream c) \<subseteq> strip_type ` set ms" using receive_piece [OF ms(2)] by blast
  then obtain m where "m \<in> set ms" "d = strip_type m" using assms(3) by blast
  then show ?thesis using ms(1) by (auto simp: subset_iff image_iff)
qed

lemma decode_bytes_entries:
  assumes "list_all entry_fits (Entries b)" and "decode_bytes (batch_bytes b) = Inr b'"
  shows "set (Entries b') \<subseteq> set (Entries b)"
proof -
  let ?es = "Entries b" and ?n = "PutUint16 (of_nat (length (Entries b)))"
  let ?k = "unat (of_nat (length ?es) :: uint16)"
  have k: "?k \<le> length ?es" by (simp add: unsigned_of_nat take_bit_nat_less_eq_self)
  have "list_all entry_fits (take ?k ?es)" using assms(1) by (auto simp: list_all_iff dest: in_set_takeD)
  note de = decodeEntries_encode [OF this, of ?n]
  obtain rest where d: "batch_bytes b = ?n @ concat (map encodeEntry (take ?k ?es)) @ rest"
  proof
    show "batch_bytes b = ?n @ concat (map encodeEntry (take ?k ?es)) @ (concat (map encodeEntry (drop ?k ?es)) @
        PutUint16 (of_nat (length (SenderHighWaterMarks b))) @ concat (map encodeMark (SenderHighWaterMarks b)))"
      unfolding batch_bytes_def append_assoc [symmetric] concat_append [symmetric] map_append [symmetric]
      by (simp only: append_assoc append_take_drop_id)
  qed
  have "Uint16 (batch_bytes b) = Some (of_nat (length ?es))" unfolding d by simp
  moreover have "decodeEntries (batch_bytes b) 2 0 ?k = Inr (take ?k ?es, length (?n @ concat (map encodeEntry (take ?k ?es))))"
    using de [of rest 0] k unfolding d by simp
  ultimately have "Entries b' = take ?k ?es"
    using assms(2) by (auto simp: decode_bytes_def split: if_splits option.splits sum.splits prod.splits)
  then show ?thesis by (simp add: set_take_subset)
qed

text \<open>What the engine relies on of the compressor: it is lossless, and decompressing a compressed block
  that is cut off fails or gives nothing.\<close>

definition zstd_ok :: "(bytes \<Rightarrow> bytes) \<Rightarrow> (bytes \<Rightarrow> bytes option) \<Rightarrow> bool" where
  "zstd_ok zenc zdec \<longleftrightarrow> (\<forall>x. zdec (zenc x) = Some x) \<and>
     (\<forall>x p. strict_prefix p (zenc x) \<longrightarrow> zdec p = None \<or> zdec p = Some [])"

lemma lazy_piece_read:
  assumes "zstd_ok zenc zdec" and "lazy_piece zenc E (ty # c)" and "entries_fit E"
    and "fst (ReadLazyBatch zdec c) = Inr b'"
  shows "set (Entries b') \<subseteq> E"
proof -
  obtain b where b: "set (Entries b) \<subseteq> E" "prefix c (frame (zenc (batch_bytes b)))"
    using assms(2) by (auto simp: lazy_piece_def EncodeLazyBatch_def)
  have four: "4 \<le> length c"
    using assms(4) by (auto simp: ReadLazyBatch_def ReadFull_def split: if_splits)
  note f = frame_prefix [of c _ "[]", simplified, OF b(2) four]
  then obtain sz x r where x: "ReadFull sz (drop 4 c) = Some (x, r)" "DecodeLazyBatch zdec x = Inr b'"
    using assms(4) by (auto simp: ReadLazyBatch_def split: if_splits option.splits)
  then have "prefix x (zenc (batch_bytes b))"
    using f(2) by (metis ReadFull_Some append_prefixD)
  then consider "x = zenc (batch_bytes b)" | "strict_prefix x (zenc (batch_bytes b))"
    by (auto simp: strict_prefix_def)
  then have "decode_bytes (batch_bytes b) = Inr b'"
  proof cases
    case 1
    then show ?thesis using x(2) assms(1) by (simp add: DecodeLazyBatch_def zstd_ok_def)
  next
    case 2
    then have "zdec x = None \<or> zdec x = Some []" using assms(1) unfolding zstd_ok_def by blast
    then show ?thesis using x(2) by (auto simp: DecodeLazyBatch_def decode_bytes_def)
  qed
  moreover have "list_all entry_fits (Entries b)"
    using b(1) assms(3) by (fastforce simp: list_all_iff entry_fits_def entries_fit_def)
  ultimately show ?thesis using decode_bytes_entries b(1) by blast
qed

section \<open>The registered handlers\<close>

definition regs :: "'h Transport \<Rightarrow> 'h option \<times> 'h option \<times> 'h option \<times> (byte \<rightharpoonup> 'h)" where
  "regs t = (onEagerGossip t, onLazyBatch t, onRepair t, uniHandlers t)"

lemma regs_simps [simp]:
  "regs (store_conn t a c) = regs t" "regs (delete_conn t a) = regs t" "regs (close_conn t c) = regs t"
  "regs (startAcceptLoop t c) = regs t" "regs (compare_and_delete t a c) = regs t"
  by (simp_all add: regs_def store_conn_def delete_conn_def close_conn_def startAcceptLoop_def compare_and_delete_def)

lemma regs_getOrDial: "(\<And>t. regs (mw t) = regs t) \<Longrightarrow> regs (snd (getOrDial net mw t a)) = regs t"
  by (simp add: getOrDial_def GetConnection_def dial_finish_def Let_def split_beta split: option.split)

lemma regs_open_on: "regs (snd (open_on f a r)) = regs (snd r)"
  by (simp add: open_on_def split_beta split: option.split)

text \<open>What happens to the transport while a dial is under way does not register handlers.\<close>

definition env_ok :: "'h wire_env \<Rightarrow> bool" where
  "env_ok env \<longleftrightarrow> (\<forall>n t. regs (we_meanwhile env n t) = regs t)"

lemma regs_ops:
  assumes "env_ok env"
  shows "so_open (wire_ops env) w a = (r, w1) \<Longrightarrow> regs (wr_transport w1) = regs (wr_transport w)"
    and "so_write (wire_ops env) w s d = (ok, w1) \<Longrightarrow> regs (wr_transport w1) = regs (wr_transport w)"
    and "regs (wr_transport (so_close (wire_ops env) w s)) = regs (wr_transport w)"
    and "so_datagram (wire_ops env) w a d = (ok, w1) \<Longrightarrow> regs (wr_transport w1) = regs (wr_transport w)"
proof -
  have dial: "regs (snd (getOrDial (we_net env n) (we_meanwhile env n) t a)) = regs t" for n t
    using assms by (intro regs_getOrDial) (simp add: env_ok_def)
  have "regs (wr_transport (snd (wire_open env w a))) =
      regs (snd (OpenUniStream (we_net env (wr_tick w)) (we_meanwhile env (wr_tick w)) (wr_transport w) a))"
    by (simp add: wire_open_def split_beta split: option.split)
  then have "regs (wr_transport (snd (wire_open env w a))) = regs (wr_transport w)"
    by (simp add: OpenUniStream_def regs_open_on dial)
  then show "so_open (wire_ops env) w a = (r, w1) \<Longrightarrow> regs (wr_transport w1) = regs (wr_transport w)"
    by (auto simp: wire_ops_def)
  show "so_write (wire_ops env) w s d = (ok, w1) \<Longrightarrow> regs (wr_transport w1) = regs (wr_transport w)"
    by (auto simp: wire_ops_def wire_write_def Let_def split: prod.splits)
  show "regs (wr_transport (so_close (wire_ops env) w s)) = regs (wr_transport w)" by (simp add: wire_ops_def)
  have "regs (wr_transport (snd (wire_datagram env w a d))) = regs (wr_transport w)"
    using dial [of "wr_tick w" "wr_transport w"]
    by (simp add: wire_datagram_def SendDatagram_def Let_def split_beta split: option.split)
  then show "so_datagram (wire_ops env) w a d = (ok, w1) \<Longrightarrow> regs (wr_transport w1) = regs (wr_transport w)"
    by (auto simp: wire_ops_def)
qed

lemma regs_send:
  "env_ok env \<Longrightarrow> regs (wr_transport (fst (snd (eagerStreamWriter_send (wire_ops env) w wr m)))) = regs (wr_transport w)"
  by (auto simp: eagerStreamWriter_send_def send_open_def regs_ops Let_def split: option.split prod.split)

lemma regs_eagerSendTo:
  assumes "env_ok env"
  shows "regs (wr_transport (snd (eagerSendTo (wire_ops env) m gw p))) = regs (wr_transport (snd gw))"
proof -
  obtain g w where gw: "gw = (g, w)" by fastforce
  show ?thesis
    using regs_send [OF assms, of w "fst (getEagerStream g (Addr p))" m]       regs_ops(4) [OF assms prod.collapse [symmetric], of w "Addr p" m]
    by (simp add: gw eagerSendTo_def Let_def split_beta)
qed

lemma regs_eagerSends:
  "env_ok env \<Longrightarrow> regs (wr_transport (snd (foldl (eagerSendTo (wire_ops env) m) gw ps))) = regs (wr_transport (snd gw))"
  by (induction ps arbitrary: gw) (simp_all add: regs_eagerSendTo)

lemma regs_accept:
  "env_ok env \<Longrightarrow> regs (wr_transport (snd (accept_entry (wire_ops env) v g w a e))) = regs (wr_transport w)"
  by (simp add: accept_entry_def eagerForward_eq split_beta Let_def regs_eagerSends)

lemma regs_eager:
  "env_ok env \<Longrightarrow> regs (wr_transport (snd (onEagerReceive (wire_ops env) v g w a d))) = regs (wr_transport w)"
  by (simp add: onEagerReceive_def should_process_eq regs_accept Let_def split: sum.split bool.split)

lemma regs_lazyEntry:
  "env_ok env \<Longrightarrow> regs (wr_transport (snd (lazyReceiveEntry (wire_ops env) v a gw e))) = regs (wr_transport (snd gw))"
  by (simp add: lazyReceiveEntry_def should_process_eq regs_accept Let_def split_beta split: bool.split)

lemma regs_lazy:
  assumes "env_ok env"
  shows "regs (wr_transport (snd (onLazyBatchReceive (wire_ops env) v z g w a d))) = regs (wr_transport w)"
proof -
  have "regs (wr_transport (snd (foldl (lazyReceiveEntry (wire_ops env) v a) gw es))) = regs (wr_transport (snd gw))" for gw es
    by (induction es arbitrary: gw) (simp_all add: regs_lazyEntry assms)
  then show ?thesis by (simp add: onLazyBatchReceive_def Let_def split: sum.split)
qed

lemma regs_sendLazyBatch:
  "env_ok env \<Longrightarrow> regs (wr_transport (snd (sendLazyBatch (wire_ops env) zenc g w a b))) = regs (wr_transport w)"
  by (auto simp: sendLazyBatch_def regs_ops Let_def split: option.split prod.split)

lemma regs_step:
  assumes "env_ok env"
  shows "regs (wr_transport (snd (engine_step (wire_ops env) ep gw ev))) = regs (wr_transport (snd gw))"
proof -
  obtain g w where gw: "gw = (g, w)" by fastforce
  show ?thesis
    using assms
    by (cases ev) (simp_all add: gw handleLocal_def should_process_eq eagerForward_eq regs_eagerSends regs_eager regs_lazy
        regs_sendLazyBatch split_beta Let_def split: list.split option.split)
qed

section \<open>The network\<close>

type_synonym nodes = "string \<Rightarrow> GossipEngine \<times> engine_handler wire"

text \<open>\<open>NetUni r from s i k j\<close>: the receiver \<open>r\<close> sees the first \<open>k\<close> bytes of the \<open>i\<close>th stream of \<open>s\<close>; when it
  is a stream of eager messages the event is the call of the handler with the \<open>j\<close>th of them.
  \<open>NetWake r i loss\<close>: the \<open>i\<close>th timer of \<open>r\<close> wakes; \<open>loss a\<close> says how many bytes of the reply of the node
  at \<open>a\<close> get through, or that it is not reached.\<close>

datatype net_event =
    NetLocal string engine_event
  | NetDatagram string string string nat
  | NetUni string string string nat nat nat
  | NetWake string nat "string \<Rightarrow> nat option"

definition local_event :: "engine_event \<Rightarrow> bool" where
  "local_event ev = (case ev of EvEager _ _ \<Rightarrow> False | EvLazy _ _ \<Rightarrow> False | EvWake _ _ \<Rightarrow> False | _ \<Rightarrow> True)"

definition handle_datagram :: "engine_handler dispatch \<Rightarrow> engine_event option" where
  "handle_datagram d = (case d of Handled OnEagerReceive from data \<Rightarrow> Some (EvEager from data) | _ \<Rightarrow> None)"

definition handle_uni :: "engine_handler dispatch \<Rightarrow> nat \<Rightarrow> engine_event option" where
  "handle_uni d j =
     (case d of
        Handled OnLazyBatchReceive from data \<Rightarrow> Some (EvLazy from data)
      | Handled OnEagerStream from data \<Rightarrow>
          (let msgs = receiveEagerStream data in if j < length msgs then Some (EvEager from (msgs ! j)) else None)
      | _ \<Rightarrow> None)"

definition net_repair :: "nodes \<Rightarrow> (string \<Rightarrow> nat option) \<Rightarrow> repair_net" where
  "net_repair st loss a =
     (case loss a of
        None \<Rightarrow> None
      | Some k \<Rightarrow> Some (\<lambda>req.
          case served (wr_transport (snd (st a))) (repair (fst (st a))) req of
            None \<Rightarrow> None
          | Some (reply, clean) \<Rightarrow> Some (take k reply, clean \<and> length reply \<le> k)))"

text \<open>Which node takes which step.\<close>

fun net_action :: "nodes \<Rightarrow> net_event \<Rightarrow> (string \<times> engine_event) option" where
  "net_action st (NetLocal r ev) = (if local_event ev then Some (r, ev) else None)"
| "net_action st (NetDatagram r from s i) =
     (let ds = wr_datagrams (snd (st s)) in
      if i < length ds \<and> fst (ds ! i) = r
      then map_option (Pair r) (handle_datagram (dispatchDatagram (wr_transport (snd (st r))) from (snd (ds ! i))))
      else None)"
| "net_action st (NetUni r from s i k j) =
     (let cs = wr_streams (snd (st s)) in
      if i < length cs
      then map_option (Pair r) (handle_uni (dispatchUniStream (wr_transport (snd (st r))) from (take k (cs ! i))) j)
      else None)"
| "net_action st (NetWake r i loss) = Some (r, EvWake i (net_repair st loss))"

definition net_step ::
  "(string \<Rightarrow> engine_handler wire_env) \<Rightarrow> engine_params \<Rightarrow> nodes \<Rightarrow> net_event \<Rightarrow> nodes" where
  "net_step envs ep st ev =
     (case net_action st ev of
        None \<Rightarrow> st
      | Some (r, e) \<Rightarrow> st(r := engine_step (wire_ops (envs r)) ep (st r) e))"

definition net_run ::
  "(string \<Rightarrow> engine_handler wire_env) \<Rightarrow> engine_params \<Rightarrow> nodes \<Rightarrow> net_event list \<Rightarrow> nodes" where
  "net_run envs ep st evs = foldl (net_step envs ep) st evs"

definition net_init :: "(string \<Rightarrow> Overlay) \<Rightarrow> (string \<Rightarrow> EngineConfig) \<Rightarrow> nodes" where
  "net_init ovs cfgs r =
     (let (g, t) = Engine_New (ovs r) emptyTransport (cfgs r)
      in (g, \<lparr>wr_tick = 0, wr_transport = t, wr_streams = [], wr_datagrams = []\<rparr>))"

definition enqueued :: "net_event list \<Rightarrow> GossipEntry set" where
  "enqueued evs = {e. \<exists>r. NetLocal r (EvEnqueue e) \<in> set evs}"

section \<open>Integrity\<close>

definition regs_ok :: "engine_handler Transport \<Rightarrow> bool" where
  "regs_ok t \<longleftrightarrow> onEagerGossip t = Some OnEagerReceive \<and> onLazyBatch t = Some OnLazyBatchReceive \<and>
     onRepair t = Some OnRepairRequest \<and> uniHandlers t StreamTypeEagerStream = Some OnEagerStream"

lemma regs_ok_cong: "regs t = regs t' \<Longrightarrow> regs_ok t = regs_ok t'"
  by (simp add: regs_def regs_ok_def)

definition net_in :: "(bytes \<Rightarrow> bytes) \<Rightarrow> GossipEntry set \<Rightarrow> nodes \<Rightarrow> bool" where
  "net_in zenc E st \<longleftrightarrow> (\<forall>r. node_in zenc E (st r) \<and> regs_ok (wr_transport (snd (st r))))"

text \<open>What an event may bring into a node.\<close>

fun event_in :: "(bytes \<Rightarrow> bytes option) \<Rightarrow> GossipEntry set \<Rightarrow> engine_event \<Rightarrow> bool" where
  "event_in zdec E (EvEager from data) = (\<forall>e. decodeEagerMessage data = Inr e \<longrightarrow> e \<in> E)"
| "event_in zdec E (EvLazy from data) = (\<forall>b. fst (ReadLazyBatch zdec data) = Inr b \<longrightarrow> set (Entries b) \<subseteq> E)"
| "event_in zdec E (EvWake i net) = (\<forall>peer t q e. pullFromPeer net peer t q = PullHit e \<longrightarrow> e \<in> E)"
| "event_in zdec E (EvEnqueue e) = (e \<in> E)"
| "event_in zdec E ev = True"

lemma flush_eagerStreams [simp]: "eagerStreams (flushLazyBatches g) = eagerStreams g"
proof -
  have "eagerStreams (foldl (flushPeer ms) g ps) = eagerStreams g" for ms ps
    by (induction ps arbitrary: g) (simp_all add: flushPeer_def split_beta split: option.split)
  then show ?thesis by (simp add: flushLazyBatches_def Let_def)
qed

lemma outbox_nth: "outbox_in E obs \<Longrightarrow> i < length obs \<Longrightarrow> set (Entries (snd (obs ! i))) \<subseteq> E"
  unfolding outbox_in_def by (meson UN_least nth_mem UN_subset_iff)

lemma outbox_cut: "outbox_in E obs \<Longrightarrow> outbox_in E (take i obs @ drop j obs)"
  by (auto simp: outbox_in_def dest: in_set_takeD in_set_dropD)

lemma local_step_in:
  assumes "node_in (zstd_enc ep) E (g, w)"
  shows "node_in (zstd_enc ep) E (engine_step (wire_ops env) ep (g, w) EvLocal)"
proof (cases "localCh g")
  case (Cons e rest)
  have "holds E g" using assms by (simp add: node_in_def)
  then have "node_in (zstd_enc ep) E (g\<lparr>localCh := rest\<rparr>, w)" "e \<in> E"
    using Cons by (auto simp: holds_def intro!: node_in_engine [OF assms])
  then show ?thesis using Cons handleLocal_in by simp
qed (simp add: assms)

lemma send_step_in:
  assumes "node_in (zstd_enc ep) E (g, w)"
  shows "node_in (zstd_enc ep) E (engine_step (wire_ops env) ep (g, w) (EvSendBatch i))"
proof (cases "i < length (outbox g)")
  case True
  let ?g = "g\<lparr>outbox := take i (outbox g) @ drop (Suc i) (outbox g)\<rparr>"
  have h: "holds E g" using assms by (simp add: node_in_def)
  have "holds E ?g" using h outbox_cut [of E "outbox g" i "Suc i"] by (simp add: holds_def)
  then have "node_in (zstd_enc ep) E (?g, w)" by (rule node_in_engine [OF assms]) simp
  moreover have "set (Entries (snd (outbox g ! i))) \<subseteq> E" using h True by (intro outbox_nth) (simp_all add: holds_def)
  ultimately show ?thesis using True by (simp add: sendLazyBatch_in)
qed (simp add: assms)

lemma step_in:
  assumes "node_in (zstd_enc ep) E n" and "event_in (zstd_dec ep) E ev"
  shows "node_in (zstd_enc ep) E (engine_step (wire_ops env) ep n ev)"
proof -
  obtain g w where n: "n = (g, w)" by fastforce
  have node: "node_in (zstd_enc ep) E (g, w)" and h: "holds E g" using assms(1) n by (simp_all add: node_in_def)
  note keep = node_in_engine [OF node]
  show ?thesis
  proof (cases ev)
    case EvLocal
    then show ?thesis using local_step_in [OF node] n by simp
  next
    case EvTick
    then show ?thesis using n h by (simp add: keep flush_in)
  next
    case (EvEager a d)
    then show ?thesis using n node assms(2) by (simp add: onEagerReceive_in)
  next
    case (EvLazy a d)
    then show ?thesis using n node assms(2) by (simp add: onLazyBatchReceive_in)
  next
    case (EvWake i net)
    then have "holds E (engine_wake net g i)" using h assms(2) by (intro wake_holds) simp_all
    then show ?thesis using n EvWake by (simp add: keep engine_wake_def split_beta Let_def)
  next
    case (EvSendBatch i)
    then show ?thesis using send_step_in [OF node] n by (metis)
  next
    case (EvEnqueue e)
    then show ?thesis using n node h assms(2) by (auto simp: Enqueue_def holds_def intro!: keep)
  next
    case EvConsume
    have "set (tl (deliverCh g)) \<subseteq> set (deliverCh g)" by (cases "deliverCh g") auto
    then have "holds E (g\<lparr>deliverCh := tl (deliverCh g)\<rparr>)" using h by (auto simp: holds_def)
    then show ?thesis using n EvConsume by (simp add: keep)
  next
    case (EvReclassify ps)
    then show ?thesis using n h by (simp add: keep)
  next
    case (EvSetInitialSeq t q)
    have "node_in (zstd_enc ep) E (SetInitialSeq g t q, w)"
      using SetInitialSeq_in [OF h] by (rule keep) (simp add: SetInitialSeq_def)
    then show ?thesis using n EvSetInitialSeq by simp
  qed
qed

text \<open>Repair requests are answered from the caches of the nodes.\<close>

lemma net_repair_in:
  assumes "net_in zenc E st" and "pullFromPeer (net_repair st loss) peer t q = PullHit e"
  shows "e \<in> E"
proof -
  let ?n = "st (Addr peer)"
  let ?r = "case map_of (cache (repair (fst ?n))) \<lparr>TS_Topic = t, TS_Seq = q\<rparr> of None \<Rightarrow> [0] | Some p \<Rightarrow> 1 # p"
  have reg: "onRepair (wr_transport (snd ?n)) = Some OnRepairRequest"
    using assms(1) by (simp add: net_in_def regs_ok_def)
  obtain k where k: "loss (Addr peer) = Some k"
    using assms(2) by (auto simp: pullFromPeer_def net_repair_def split: option.splits)
  have "net_repair st loss (Addr peer) = Some (\<lambda>req. case served (wr_transport (snd ?n)) (repair (fst ?n)) req of
      None \<Rightarrow> None | Some (reply, clean) \<Rightarrow> Some (take k reply, clean \<and> length reply \<le> k))"
    using k by (simp add: net_repair_def)
  then have "pullFromPeer (net_repair st loss) peer t q =
      (case take k ?r of [] \<Rightarrow> PullError | status # payload \<Rightarrow> if status = 0 then PullMiss
         else if \<not> length ?r \<le> k then PullError else PullHit \<lparr>Topic = t, Seq = q, Payload = payload\<rparr>)"
    using served_request [OF reg, of "repair (fst ?n)" t q] by (simp add: pullFromPeer_def split: list.split)
  then obtain payload where p: "map_of (cache (repair (fst ?n))) \<lparr>TS_Topic = t, TS_Seq = q\<rparr> = Some payload"
    "e = \<lparr>Topic = t, Seq = q, Payload = payload\<rparr>"
    using assms(2) by (auto split: list.splits option.splits if_splits)
  have "cache_in E (repair (fst ?n))" using assms(1) by (simp add: net_in_def node_in_def holds_def)
  then show ?thesis using map_of_SomeD [OF p(1)] p(2) by (auto simp: cache_in_def)
qed

lemma datagram_in:
  assumes "net_in zenc E st" and "handle_datagram (dispatchDatagram (wr_transport (snd (st r))) from m) = Some ev"
    and "m \<in> messages E"
  shows "event_in zdec E ev"
proof -
  obtain e where e: "e \<in> E" "m = encodeEagerMessage e" using assms(3) by blast
  have "onEagerGossip (wr_transport (snd (st r))) = Some OnEagerReceive"
    using assms(1) by (simp add: net_in_def regs_ok_def)
  then have "ev = EvEager from (PutUint16 (Topic e) @ PutUint64 (Seq e) @ Payload e)"
    using assms(2) e by (simp add: encodeEagerMessage_def handle_datagram_def)
  then show ?thesis using decode_strip_encode [of e] e by simp
qed

lemma uni_in:
  assumes "net_in zenc E st" and "zstd_ok zenc zdec" and "entries_fit E"
    and "handle_uni (dispatchUniStream (wr_transport (snd (st r))) from (take k c)) j = Some ev"
    and "eager_piece E c \<or> lazy_piece zenc E c"
  shows "event_in zdec E ev"
proof -
  have reg: "onLazyBatch (wr_transport (snd (st r))) = Some OnLazyBatchReceive"
    "uniHandlers (wr_transport (snd (st r))) StreamTypeEagerStream = Some OnEagerStream"
    using assms(1) by (simp_all add: net_in_def regs_ok_def)
  obtain ty d where c: "take k c = ty # d" using assms(4) by (cases "take k c") (auto simp: handle_uni_def)
  have pre: "prefix (ty # d) c" using c take_is_prefix [of k c] by simp
  from assms(5) show ?thesis
  proof
    assume "eager_piece E c"
    then have piece: "eager_piece E (ty # d)" using pre unfolding eager_piece_def by (blast intro: prefix_order.trans)
    then have "ty = StreamTypeEagerStream" by (auto simp: eager_piece_def eager_boundary_def)
    then have j: "j < length (receiveEagerStream d)" "ev = EvEager from (receiveEagerStream d ! j)"
      using assms(4) c reg(2)
      by (auto simp: handle_uni_def registered_def StreamTypeEagerStream_def StreamTypeLazyBatch_def Let_def split: if_splits)
    then show ?thesis using eager_piece_received [OF piece assms(3) nth_mem [OF j(1)]] by auto
  next
    assume "lazy_piece zenc E c"
    then have piece: "lazy_piece zenc E (ty # d)" using pre unfolding lazy_piece_def by (blast intro: prefix_order.trans)
    then have "ty = StreamTypeLazyBatch" by (auto simp: lazy_piece_def)
    then have "ev = EvLazy from d" using assms(4) c reg(1) by (auto simp: handle_uni_def)
    then show ?thesis using lazy_piece_read [OF assms(2) piece assms(3)] by simp
  qed
qed

lemma action_in:
  assumes "net_in (zstd_enc ep) E st" and "zstd_ok (zstd_enc ep) (zstd_dec ep)" and "entries_fit E"
    and "net_action st ev = Some (r, e)" and "enqueued [ev] \<subseteq> E"
  shows "event_in (zstd_dec ep) E e"
proof (cases ev)
  case (NetLocal r' e')
  then show ?thesis using assms(4,5) by (cases e') (auto simp: local_event_def enqueued_def split: if_splits)
next
  case (NetDatagram r' a s i)
  let ?ds = "wr_datagrams (snd (st s))"
  have i: "i < length ?ds"
    "handle_datagram (dispatchDatagram (wr_transport (snd (st r))) a (snd (?ds ! i))) = Some e"
    using NetDatagram assms(4) by (auto simp: Let_def split: if_splits)
  have "snd ` set ?ds \<subseteq> messages E" using assms(1) by (simp add: net_in_def node_in_def)
  then have "snd (?ds ! i) \<in> messages E" using nth_mem [OF i(1)] by blast
  then show ?thesis by (rule datagram_in [OF assms(1) i(2)])
next
  case (NetUni r' a s i k j)
  let ?cs = "wr_streams (snd (st s))"
  have i: "i < length ?cs"
    "handle_uni (dispatchUniStream (wr_transport (snd (st r))) a (take k (?cs ! i))) j = Some e"
    using NetUni assms(4) by (auto simp: Let_def split: if_splits)
  have "eager_piece E (?cs ! i) \<or> lazy_piece (zstd_enc ep) E (?cs ! i)"
    using assms(1) nth_mem [OF i(1)] unfolding net_in_def node_in_def streams_in_def by blast
  then show ?thesis by (rule uni_in [OF assms(1-3) i(2)])
next
  case (NetWake r' i loss)
  then show ?thesis using assms(4) net_repair_in [OF assms(1)] by auto
qed

lemma net_step_in:
  assumes "net_in (zstd_enc ep) E st" and "zstd_ok (zstd_enc ep) (zstd_dec ep)" and "entries_fit E"
    and "enqueued [ev] \<subseteq> E" and "\<And>r. env_ok (envs r)"
  shows "net_in (zstd_enc ep) E (net_step envs ep st ev)"
proof (cases "net_action st ev")
  case None
  then show ?thesis using assms(1) by (simp add: net_step_def)
next
  case (Some re)
  then obtain r e where a: "net_action st ev = Some (r, e)" by (cases re) auto
  let ?n = "engine_step (wire_ops (envs r)) ep (st r) e"
  have "node_in (zstd_enc ep) E ?n"
    using assms(1) by (intro step_in action_in [OF assms(1-3) a assms(4)]) (simp add: net_in_def)
  moreover have "regs_ok (wr_transport (snd ?n))"
    using regs_ok_cong [OF regs_step [OF assms(5)]] assms(1) by (simp add: net_in_def)
  ultimately show ?thesis using assms(1) a by (simp add: net_step_def net_in_def)
qed

lemma net_in_init: "net_in zenc {} (net_init ovs cfgs)"
  by (simp add: net_in_def net_init_def Engine_New_def node_in_def holds_def pending_in_def cache_in_def buffers_in_def
      streams_in_def stream_of_def regs_ok_def SetHandlers_def RegisterUniHandler_def NewOrderedApplier_def
      NewRepairManager_def Let_def)

lemma net_run_in:
  assumes "net_in (zstd_enc ep) {} st" and "zstd_ok (zstd_enc ep) (zstd_dec ep)" and "entries_fit (enqueued evs)"
    and "\<And>r. env_ok (envs r)"
  shows "net_in (zstd_enc ep) (enqueued evs) (net_run envs ep st evs)"
  using assms(3)
proof (induction evs rule: rev_induct)
  case Nil
  then show ?case using assms(1) by (simp add: net_run_def enqueued_def)
next
  case (snoc ev evs)
  let ?E = "enqueued (evs @ [ev])"
  have sub: "enqueued evs \<subseteq> ?E" "enqueued [ev] \<subseteq> ?E" by (auto simp: enqueued_def)
  have "net_in (zstd_enc ep) (enqueued evs) (net_run envs ep st evs)"
    using snoc.IH entries_fit_mono [OF snoc.prems sub(1)] by blast
  then have "net_in (zstd_enc ep) ?E (net_run envs ep st evs)"
    using node_in_mono [OF sub(1)] unfolding net_in_def by blast
  from net_step_in [OF this assms(2) snoc.prems sub(2) assms(4)] show ?case by (simp add: net_run_def)
qed

section \<open>Properties\<close>

text \<open>C1: integrity. Whatever the network does, losing, repeating and reordering datagrams, breaking
  streams anywhere and failing requests, an entry that any node delivers was enqueued by the
  application at some node, with the same topic, number and payload. The hypotheses are that the
  compressor is lossless and fails on truncated blocks, that no handler is registered later, and
  that payloads fit the 32-bit length fields.\<close>

theorem network_integrity:
  assumes "zstd_ok (zstd_enc ep) (zstd_dec ep)" and "\<And>r. env_ok (envs r)" and "entries_fit (enqueued evs)"
  shows "\<forall>(t, q, p) \<in> set (deliverCh (fst (net_run envs ep (net_init ovs cfgs) evs r))).
    \<lparr>Topic = t, Seq = q, Payload = p\<rparr> \<in> enqueued evs"
proof -
  have "holds (enqueued evs) (fst (net_run envs ep (net_init ovs cfgs) evs r))"
    using net_run_in [OF net_in_init assms(1,3,2)] by (simp add: net_in_def node_in_def)
  then show ?thesis by (auto simp: holds_def entry_of_def)
qed

text \<open>Two nodes: \<open>a\<close> has \<open>b\<close> as eager peer, and \<open>b\<close> waits for number 2 of topic 1.\<close>

definition netEnv :: "engine_handler wire_env" where
  "netEnv = \<lparr>we_net = (\<lambda>_. sampleNet), we_meanwhile = (\<lambda>_ t. t), we_write = (\<lambda>_. (True, 0))\<rparr>"

definition netOverlay :: "string \<Rightarrow> Overlay" where
  "netOverlay r = \<lparr>ov_cfg = OverlayConfig_withDefaults \<lparr>MinEagerPeers = 0, MaxEagerPeers = 0, MinLazyPeers = 0, MaxLazyPeers = 0\<rparr>,
     self = r, eagerPeers = [\<lparr>NodeID = ''b'', Addr = ''b'', RTT = 1, IsEager = True\<rparr>], lazyPeers = []\<rparr>"

definition netEvents :: "net_event list" where
  "netEvents = [NetLocal ''b'' (EvSetInitialSeq 1 1), NetLocal ''a'' (EvEnqueue \<lparr>Topic = 1, Seq = 2, Payload = [7]\<rparr>),
     NetLocal ''a'' EvLocal, NetDatagram ''b'' ''a'' ''a'' 0]"

text \<open>A toy compressor that keeps the contract: every byte is preceded by a one, the end is a zero.\<close>

definition toy_enc :: "bytes \<Rightarrow> bytes" where
  "toy_enc x = concat (map (\<lambda>b. [1, b]) x) @ [0]"

fun toy_dec :: "bytes \<Rightarrow> bytes option" where
  "toy_dec [] = None"
| "toy_dec [h] = (if h = 0 then Some [] else None)"
| "toy_dec (h # b # r) = (if h = 1 then map_option ((#) b) (toy_dec r) else None)"

definition netParams :: engine_params where
  "netParams = \<lparr>zstd_enc = toy_enc, zstd_dec = toy_dec, evict_choice = id, sort_peers = sort_key RTT\<rparr>"

definition netCfg :: "string \<Rightarrow> EngineConfig" where
  "netCfg r = \<lparr>LazyBatchInterval = 0, GapTimeout = 0, MaxGapBuffer = 0, DeliverBufferSize = 0\<rparr>"

lemma netEvents_deliver:
  "deliverCh (fst (net_run (\<lambda>_. netEnv) netParams (net_init netOverlay netCfg) netEvents ''b'')) = [(1, 2, [7])]"
  by code_simp

lemma toy_zstd_ok: "zstd_ok toy_enc toy_dec"
proof -
  have "toy_dec (toy_enc x) = Some x" for x by (induction x) (simp_all add: toy_enc_def)
  moreover have "strict_prefix p (toy_enc x) \<Longrightarrow> toy_dec p = None" for x p
  proof (induction x arbitrary: p)
    case Nil
    then have "p = []" by (auto simp: toy_enc_def strict_prefix_def prefix_Cons)
    then show ?case by simp
  next
    case (Cons b x)
    then consider "p = []" | "p = [1]" | q where "p = 1 # b # q" "strict_prefix q (toy_enc x)"
      by (auto simp: toy_enc_def strict_prefix_def prefix_Cons)
    then show ?case using Cons.IH by cases simp_all
  qed
  ultimately show ?thesis by (simp add: zstd_ok_def)
qed

theorem network_integrity_witness:
  "deliverCh (fst (net_run (\<lambda>_. netEnv) netParams (net_init netOverlay netCfg) netEvents ''b'')) = [(1, 2, [7])] \<and>
   \<lparr>Topic = 1, Seq = 2, Payload = [7]\<rparr> \<in> enqueued netEvents"
proof -
  have "env_ok netEnv" by (simp add: env_ok_def netEnv_def)
  moreover have "entries_fit (enqueued netEvents)" by (auto simp: entries_fit_def enqueued_def netEvents_def)
  ultimately show ?thesis
    using network_integrity [of netParams "\<lambda>_. netEnv" netEvents netOverlay netCfg "''b''"] toy_zstd_ok netEvents_deliver
    by (simp add: netParams_def)
qed

end
