(* ===== verification/Hosts.thy ===== *)
theory Hosts
  imports Prelude "HOL-Library.Char_ord" "HOL-Library.List_Lexorder" "HOL-Library.Sublist"
begin

text \<open>
  The string functions of the Go library that the discovery packages use: \<open>strconv.Itoa\<close> and the
  decimal verb of \<open>fmt.Sprintf\<close>, hexadecimal digits, \<open>net.JoinHostPort\<close> and \<open>net.SplitHostPort\<close>, and the byte-wise
  order of strings, which is the lexicographic order of \<open>List_Lexorder\<close>.
\<close>

section \<open>Decimal numbers\<close>

definition digit :: "nat \<Rightarrow> char" where
  "digit n = char_of (48 + n)"

fun dec_nat :: "nat \<Rightarrow> string" where
  "dec_nat n = (if n < 10 then [digit n] else dec_nat (n div 10) @ [digit (n mod 10)])"

declare dec_nat.simps [simp del]

definition itoa :: "int \<Rightarrow> string" where
  "itoa i = (if i < 0 then ''-'' @ dec_nat (nat (- i)) else dec_nat (nat i))"

definition undec :: "string \<Rightarrow> nat" where
  "undec s = foldl (\<lambda>n c. 10 * n + (of_char c - 48)) 0 s"

lemma of_char_digit [simp]: "n < 10 \<Longrightarrow> of_char (digit n) = 48 + n"
  by (simp add: digit_def)

lemma undec_dec_nat [simp]: "undec (dec_nat n) = n"
proof (induction n rule: dec_nat.induct)
  case (1 n)
  show ?case
  proof (cases "n < 10")
    case True
    then show ?thesis by (subst dec_nat.simps) (simp add: undec_def)
  next
    case False
    then show ?thesis using 1 by (subst dec_nat.simps) (simp add: undec_def)
  qed
qed

lemma dec_nat_inject [simp]: "dec_nat m = dec_nat n \<longleftrightarrow> m = n"
  by (metis undec_dec_nat)

lemma dec_nat_digits: "c \<in> set (dec_nat n) \<Longrightarrow> of_char c \<in> {48..57 :: nat}"
proof (induction n rule: dec_nat.induct)
  case (1 n)
  then show ?case by (cases "n < 10") (auto simp: dec_nat.simps [of n])
qed

lemma itoa_no_colon: "CHR '':'' \<notin> set (itoa i)"
proof
  assume "CHR '':'' \<in> set (itoa i)"
  then have "CHR '':'' \<in> set (dec_nat (nat \<bar>i\<bar>))" by (auto simp: itoa_def split: if_splits)
  then show False using dec_nat_digits by fastforce
qed

section \<open>Hexadecimal numbers\<close>

text \<open>Bytes in hexadecimal, as \<open>hex.EncodeToString\<close> and \<open>%x\<close> write them.\<close>

definition hex_digit :: "nat \<Rightarrow> char" where
  "hex_digit n = (if n < 10 then char_of (48 + n) else char_of (87 + n))"

definition EncodeToString :: "bytes \<Rightarrow> string" where
  "EncodeToString bs = concat (map (\<lambda>b. [hex_digit (unat b div 16), hex_digit (unat b mod 16)]) bs)"

section \<open>Addresses\<close>

definition JoinHostPort :: "string \<Rightarrow> string \<Rightarrow> string" where
  "JoinHostPort host port =
     (if CHR '':'' \<in> set host then ''['' @ host @ '']:'' @ port else host @ '':'' @ port)"

text \<open>The first and the last index of a character.\<close>

fun index_of :: "char \<Rightarrow> string \<Rightarrow> nat option" where
  "index_of c [] = None"
| "index_of c (x # xs) = (if x = c then Some 0 else map_option Suc (index_of c xs))"

fun last_index_of :: "char \<Rightarrow> string \<Rightarrow> nat option" where
  "last_index_of c [] = None"
| "last_index_of c (x # xs) =
     (case last_index_of c xs of Some i \<Rightarrow> Some (Suc i) | None \<Rightarrow> if x = c then Some 0 else None)"

datatype addr_error = MissingPort | TooManyColons | MissingBracket | UnexpectedBracket

definition SplitHostPort :: "string \<Rightarrow> addr_error + (string \<times> string)" where
  "SplitHostPort hostport =
     (case last_index_of (CHR '':'') hostport of
        None \<Rightarrow> Inl MissingPort
      | Some i \<Rightarrow>
          (case (if hd hostport = CHR ''[''
                 then (case index_of (CHR '']'') hostport of
                         None \<Rightarrow> Inl MissingBracket
                       | Some e \<Rightarrow>
                           if e + 1 = length hostport then Inl MissingPort
                           else if e + 1 = i then Inr (take (e - 1) (drop 1 hostport), 1, e + 1)
                           else if hostport ! (e + 1) = CHR '':'' then Inl TooManyColons
                           else Inl MissingPort)
                 else (let host = take i hostport
                       in if CHR '':'' \<in> set host then Inl TooManyColons else Inr (host, 0, 0))) of
             Inl err \<Rightarrow> Inl err
           | Inr (host, j, k) \<Rightarrow>
               if CHR ''['' \<in> set (drop j hostport) then Inl UnexpectedBracket
               else if CHR '']'' \<in> set (drop k hostport) then Inl UnexpectedBracket
               else Inr (host, drop (i + 1) hostport)))"

lemma index_of_append: "c \<notin> set xs \<Longrightarrow> index_of c (xs @ c # ys) = Some (length xs)"
  by (induction xs) auto

lemma last_index_of_none: "c \<notin> set xs \<Longrightarrow> last_index_of c xs = None"
  by (induction xs) auto

lemma last_index_of_append: "c \<notin> set ys \<Longrightarrow> last_index_of c (xs @ c # ys) = Some (length xs)"
  by (induction xs) (auto simp: last_index_of_none)

text \<open>Splitting undoes joining, for hosts without brackets and ports without colons and brackets.\<close>

lemma Split_JoinHostPort:
  assumes "CHR ''['' \<notin> set host" "CHR '']'' \<notin> set host"
    and "CHR '':'' \<notin> set port" "CHR ''['' \<notin> set port" "CHR '']'' \<notin> set port"
  shows "SplitHostPort (JoinHostPort host port) = Inr (host, port)"
proof (cases "CHR '':'' \<in> set host")
  case True
  let ?hp = "(CHR ''['' # host @ [CHR '']'']) @ CHR '':'' # port"
  have j: "JoinHostPort host port = ?hp" using True by (simp add: JoinHostPort_def)
  have "last_index_of (CHR '':'') ?hp = Some (length host + 2)"
    using last_index_of_append [OF assms(3), of "CHR ''['' # host @ [CHR '']'']"] by simp
  moreover have "index_of (CHR '']'') ?hp = Some (length host + 1)"
    using index_of_append [of "CHR '']''" "CHR ''['' # host" "CHR '':'' # port"] assms(2) by simp
  ultimately show ?thesis unfolding j SplitHostPort_def using assms by simp
next
  case False
  let ?hp = "host @ CHR '':'' # port"
  have j: "JoinHostPort host port = ?hp" using False by (simp add: JoinHostPort_def)
  have "hd ?hp \<noteq> CHR ''[''" using assms(1) by (cases host) auto
  then show ?thesis
    unfolding j SplitHostPort_def using assms False last_index_of_append [OF assms(3), of host] by (simp add: Let_def)
qed

section \<open>The order of strings\<close>

lemma append_le_iff [simp]: "p @ x \<le> p @ (y :: string) \<longleftrightarrow> x \<le> y"
  by (induction p) simp_all


end
