(* ===== verification/Membership.thy ===== *)
theory Membership
  imports Hosts "HOL-Library.AList" "HOL-Library.Multiset"
begin

text \<open>
  The package \<open>membership\<close>: the table of peers that memberlist's events keep up to date, the node's
  own metadata, and the start and stop of the layer.

  memberlist, memberlist-quic, the Vivaldi client and JSON are parameters. memberlist calls the
  three event methods one at a time, so each is one step. A nil pointer that the code would
  dereference is \<open>None\<close>, and so is the result of an operation that panics. The callbacks that an
  operation makes are part of its result. The order in which Go ranges over the peer map is the
  parameter \<open>ord\<close>.
\<close>

section \<open>Model\<close>

subsection \<open>Metadata (meta.go, delegate.go)\<close>

record 'c NodeMeta =
  nm_NodeID :: string
  nm_VivaldiCoord :: "'c option"
  nm_QUICAddr :: string
  nm_QUICPort :: int
  nm_AppData :: bytes

record 'c meta_codec =
  mj_marshal :: "'c NodeMeta \<Rightarrow> bytes option"
  mj_unmarshal :: "bytes \<Rightarrow> 'c NodeMeta option"
  cj_marshal :: "'c \<Rightarrow> bytes option"
  cj_unmarshal :: "bytes \<Rightarrow> 'c option"

definition NodeMeta_Encode :: "'c meta_codec \<Rightarrow> 'c NodeMeta \<Rightarrow> bytes option" where
  "NodeMeta_Encode json m = mj_marshal json m"

definition DecodeMeta :: "'c meta_codec \<Rightarrow> bytes \<Rightarrow> 'c NodeMeta option" where
  "DecodeMeta json data = mj_unmarshal json data"

text \<open>The empty list is Go's nil slice.\<close>

definition delegate_NodeMeta :: "'c meta_codec \<Rightarrow> 'c NodeMeta option \<Rightarrow> int \<Rightarrow> bytes" where
  "delegate_NodeMeta json meta limit =
     (case meta of
        None \<Rightarrow> []
      | Some m \<Rightarrow>
          (case NodeMeta_Encode json m of
             None \<Rightarrow> []
           | Some data \<Rightarrow> if int (length data) > limit then [] else data))"

subsection \<open>State (membership.go)\<close>

record ('v, 'c) vivaldi_lib =
  NewClient :: "'v option"
  GetCoordinate :: "'v \<Rightarrow> 'c"
  IsValid :: "'c \<Rightarrow> bool"
  DistanceTo :: "'v \<Rightarrow> 'c \<Rightarrow> int"
  ForgetNode :: "'v \<Rightarrow> string \<Rightarrow> 'v"
  Vivaldi_Update :: "'v \<Rightarrow> string \<Rightarrow> 'c \<Rightarrow> int \<Rightarrow> bool \<times> 'v"

type_synonym tls_config = nat

record 'c MembershipConfig =
  mc_NodeID :: string
  mc_BindAddr :: string
  mc_BindPort :: int
  mc_AdvertiseAddr :: string
  mc_AdvertisePort :: int
  mc_SeedAddrs :: "string list"
  mc_ProbeInterval :: int
  mc_ProbeTimeout :: int
  mc_SuspicionMult :: int
  mc_Meta :: "'c NodeMeta"
  mc_TLS :: "tls_config option"

record 'c MemberInfo =
  pi_NodeID :: string
  pi_Addr :: string
  pi_Meta :: "'c NodeMeta"
  pi_RTT :: int
  pi_Alive :: bool

text \<open>Calls of memberlist and of its connection pool.\<close>

datatype ml_call = MlJoin "string list" | MlUpdateNode int | PoolAddInbound nat

text \<open>\<open>ms_list\<close> and \<open>ms_quicTransport\<close> say that the pointer is set; \<open>ml_up\<close> and \<open>qt_up\<close> that what it points to
  is running. Callbacks are values of a type \<open>'f\<close>.\<close>

record ('v, 'c, 'f) Membership =
  ms_list :: bool
  ms_quicTransport :: bool
  ms_meta :: "'c NodeMeta option"
  ms_vivaldi :: "'v option"
  ms_onChange :: "'f option"
  ms_onLeave :: "'f option"
  ms_tlsConfig :: "tls_config option"
  ms_peers :: "(string \<times> 'c MemberInfo) list option"
  ml_up :: bool
  qt_up :: bool
  ml_calls :: "ml_call list"

definition zeroMembership :: "('v, 'c, 'f) Membership" where
  "zeroMembership = \<lparr>ms_list = False, ms_quicTransport = False, ms_meta = None, ms_vivaldi = None, ms_onChange = None,
     ms_onLeave = None, ms_tlsConfig = None, ms_peers = None, ml_up = False, qt_up = False, ml_calls = []\<rparr>"

definition ml_log :: "('v, 'c, 'f) Membership \<Rightarrow> ml_call \<Rightarrow> ('v, 'c, 'f) Membership" where
  "ml_log m c = m\<lparr>ml_calls := ml_calls m @ [c]\<rparr>"

definition peers_of :: "('v, 'c, 'f) Membership \<Rightarrow> (string \<times> 'c MemberInfo) list" where
  "peers_of m = (case ms_peers m of None \<Rightarrow> [] | Some ps \<Rightarrow> ps)"

type_synonym 'c range = "(string \<times> 'c MemberInfo) list \<Rightarrow> (string \<times> 'c MemberInfo) list"

definition LivePeers :: "'c range \<Rightarrow> ('v, 'c, 'f) Membership \<Rightarrow> 'c MemberInfo list" where
  "LivePeers ord m = filter pi_Alive (map snd (ord (peers_of m)))"

definition SetOnChange :: "('v, 'c, 'f) Membership \<Rightarrow> 'f option \<Rightarrow> ('v, 'c, 'f) Membership" where
  "SetOnChange m fn = m\<lparr>ms_onChange := fn\<rparr>"

definition SetOnLeave :: "('v, 'c, 'f) Membership \<Rightarrow> 'f option \<Rightarrow> ('v, 'c, 'f) Membership" where
  "SetOnLeave m fn = m\<lparr>ms_onLeave := fn\<rparr>"

definition IsAlive :: "('v, 'c, 'f) Membership \<Rightarrow> string \<Rightarrow> bool" where
  "IsAlive m nodeID = (case map_of (peers_of m) nodeID of None \<Rightarrow> False | Some p \<Rightarrow> pi_Alive p)"

definition AddrForNode :: "('v, 'c, 'f) Membership \<Rightarrow> string \<Rightarrow> string" where
  "AddrForNode m nodeID =
     (case map_of (peers_of m) nodeID of
        None \<Rightarrow> ''''
      | Some p \<Rightarrow>
          if \<not> pi_Alive p then ''''
          else JoinHostPort (nm_QUICAddr (pi_Meta p)) (itoa (nm_QUICPort (pi_Meta p))))"

definition UpdateMeta ::
  "('v, 'c, 'f) Membership \<Rightarrow> ('c NodeMeta \<Rightarrow> 'c NodeMeta) \<Rightarrow> ('v, 'c, 'f) Membership option" where
  "UpdateMeta m fn =
     (case ms_meta m of
        None \<Rightarrow> None
      | Some old \<Rightarrow>
          (let m1 = m\<lparr>ms_meta := Some (fn old)\<rparr>
           in Some (if ms_list m1 then ml_log m1 (MlUpdateNode 500) else m1)))"

text \<open>The retry loop of \<open>UpdateMeta\<close> among concurrent calls: \<open>um_cell\<close> is the atomic pointer with the value
  behind it, and every new value is behind a new pointer.\<close>

datatype 'm um_pc = UmLoad | UmSwap nat 'm | UmDone

record 'm um_state =
  um_cell :: "nat \<times> 'm"
  um_fresh :: nat
  um_pcs :: "nat \<Rightarrow> 'm um_pc"

definition um_action :: "(nat \<Rightarrow> 'm \<Rightarrow> 'm) \<Rightarrow> 'm um_state \<Rightarrow> nat \<Rightarrow> 'm um_state" where
  "um_action fns s i =
     (case um_pcs s i of
        UmLoad \<Rightarrow> s\<lparr>um_pcs := (um_pcs s)(i := UmSwap (fst (um_cell s)) (snd (um_cell s)))\<rparr>
      | UmSwap old updated \<Rightarrow>
          (let updated = fns i updated
           in if fst (um_cell s) = old
              then s\<lparr>um_cell := (um_fresh s, updated), um_fresh := Suc (um_fresh s), um_pcs := (um_pcs s)(i := UmDone)\<rparr>
              else s\<lparr>um_pcs := (um_pcs s)(i := UmLoad)\<rparr>)
      | UmDone \<Rightarrow> s)"

definition um_init :: "'m \<Rightarrow> 'm um_state" where
  "um_init m = \<lparr>um_cell = (0, m), um_fresh = 1, um_pcs = (\<lambda>_. UmLoad)\<rparr>"

subsection \<open>Events (events.go, ping.go)\<close>

record ml_node =
  ml_Name :: string
  ml_Addr :: string
  ml_Meta :: bytes

datatype ('c, 'f) callback = CallChange 'f "'c MemberInfo list" | CallLeave 'f string

definition notifyChange :: "'c range \<Rightarrow> ('v, 'c, 'f) Membership \<Rightarrow> ('c, 'f) callback list" where
  "notifyChange ord m = (case ms_onChange m of None \<Rightarrow> [] | Some fn \<Rightarrow> [CallChange fn (LivePeers ord m)])"

definition meta_rtt :: "('v, 'c) vivaldi_lib \<Rightarrow> 'v option \<Rightarrow> 'c NodeMeta \<Rightarrow> int option" where
  "meta_rtt vl vc meta =
     (case nm_VivaldiCoord meta of
        None \<Rightarrow> Some 0
      | Some c \<Rightarrow> if \<not> IsValid vl c then Some 0 else map_option (\<lambda>v. DistanceTo vl v c) vc)"

text \<open>Storing into a nil map panics.\<close>

definition NotifyJoin ::
  "('v, 'c) vivaldi_lib \<Rightarrow> 'c meta_codec \<Rightarrow> 'c range \<Rightarrow> ('v, 'c, 'f) Membership \<Rightarrow> ml_node \<Rightarrow>
     (('v, 'c, 'f) Membership \<times> ('c, 'f) callback list) option" where
  "NotifyJoin vl json ord m node =
     (case DecodeMeta json (ml_Meta node) of
        None \<Rightarrow> Some (m, [])
      | Some meta \<Rightarrow>
          (case (meta_rtt vl (ms_vivaldi m) meta, ms_peers m) of
             (Some rtt, Some ps) \<Rightarrow>
               (let info = \<lparr>pi_NodeID = ml_Name node, pi_Addr = ml_Addr node, pi_Meta = meta, pi_RTT = rtt, pi_Alive = True\<rparr>;
                    m1 = m\<lparr>ms_peers := Some (AList.update (ml_Name node) info ps)\<rparr>
                in Some (m1, notifyChange ord m1))
           | _ \<Rightarrow> None))"

definition NotifyUpdate ::
  "('v, 'c) vivaldi_lib \<Rightarrow> 'c meta_codec \<Rightarrow> 'c range \<Rightarrow> ('v, 'c, 'f) Membership \<Rightarrow> ml_node \<Rightarrow>
     (('v, 'c, 'f) Membership \<times> ('c, 'f) callback list) option" where
  "NotifyUpdate vl json ord m node =
     (case DecodeMeta json (ml_Meta node) of
        None \<Rightarrow> Some (m, [])
      | Some meta \<Rightarrow>
          (case (meta_rtt vl (ms_vivaldi m) meta, ms_peers m) of
             (Some rtt, Some ps) \<Rightarrow>
               (let info = \<lparr>pi_NodeID = ml_Name node, pi_Addr = ml_Addr node, pi_Meta = meta, pi_RTT = rtt, pi_Alive = True\<rparr>;
                    m1 = m\<lparr>ms_peers := Some (AList.update (ml_Name node) info ps)\<rparr>
                in Some (m1, notifyChange ord m1))
           | _ \<Rightarrow> None))"

definition NotifyLeave ::
  "('v, 'c) vivaldi_lib \<Rightarrow> 'c range \<Rightarrow> ('v, 'c, 'f) Membership \<Rightarrow> ml_node \<Rightarrow>
     (('v, 'c, 'f) Membership \<times> ('c, 'f) callback list) option" where
  "NotifyLeave vl ord m node =
     (case ms_vivaldi m of
        None \<Rightarrow> None
      | Some v \<Rightarrow>
          (let m1 = m\<lparr>ms_vivaldi := Some (ForgetNode vl v (ml_Name node)),
                      ms_peers := map_option (AList.delete (ml_Name node)) (ms_peers m)\<rparr>
           in Some (m1, (case ms_onLeave m1 of None \<Rightarrow> [] | Some fn \<Rightarrow> [CallLeave fn (ml_Name node)]) @ notifyChange ord m1)))"

definition AckPayload :: "('v, 'c) vivaldi_lib \<Rightarrow> 'c meta_codec \<Rightarrow> 'v \<Rightarrow> bytes" where
  "AckPayload vl json v = (case cj_marshal json (GetCoordinate vl v) of None \<Rightarrow> [] | Some data \<Rightarrow> data)"

definition NotifyPingComplete ::
  "('v, 'c) vivaldi_lib \<Rightarrow> 'c meta_codec \<Rightarrow> ('v, 'c, 'f) Membership \<Rightarrow> ml_node \<Rightarrow> int \<Rightarrow> bytes \<Rightarrow> ('v, 'c, 'f) Membership option" where
  "NotifyPingComplete vl json m other rtt payload =
     (case cj_unmarshal json payload of
        None \<Rightarrow> Some m
      | Some coord \<Rightarrow>
          if \<not> IsValid vl coord then Some m
          else (case ms_vivaldi m of
                  None \<Rightarrow> None
                | Some v \<Rightarrow>
                    (let (ok, v1) = Vivaldi_Update vl v (ml_Name other) coord rtt;
                         m1 = m\<lparr>ms_vivaldi := Some v1\<rparr>
                     in if \<not> ok then Some m1
                        else UpdateMeta m1 (\<lambda>meta. meta\<lparr>nm_VivaldiCoord := Some (GetCoordinate vl v1)\<rparr>))))"

datatype 'f member_event = EvJoin ml_node | EvLeave ml_node | EvUpdate ml_node | EvPing ml_node int bytes
  | EvSetOnChange "'f option" | EvSetOnLeave "'f option"

fun member_step ::
  "('v, 'c) vivaldi_lib \<Rightarrow> 'c meta_codec \<Rightarrow> 'c range \<Rightarrow> ('v, 'c, 'f) Membership \<Rightarrow> 'f member_event \<Rightarrow>
     (('v, 'c, 'f) Membership \<times> ('c, 'f) callback list) option" where
  "member_step vl json ord m (EvJoin n) = NotifyJoin vl json ord m n"
| "member_step vl json ord m (EvLeave n) = NotifyLeave vl ord m n"
| "member_step vl json ord m (EvUpdate n) = NotifyUpdate vl json ord m n"
| "member_step vl json ord m (EvPing n rtt payload) = map_option (\<lambda>m. (m, [])) (NotifyPingComplete vl json m n rtt payload)"
| "member_step vl json ord m (EvSetOnChange fn) = Some (SetOnChange m fn, [])"
| "member_step vl json ord m (EvSetOnLeave fn) = Some (SetOnLeave m fn, [])"

fun member_run ::
  "('v, 'c) vivaldi_lib \<Rightarrow> 'c meta_codec \<Rightarrow> 'c range \<Rightarrow> ('v, 'c, 'f) Membership \<Rightarrow> 'f member_event list \<Rightarrow>
     (('v, 'c, 'f) Membership \<times> ('c, 'f) callback list) option" where
  "member_run vl json ord m [] = Some (m, [])"
| "member_run vl json ord m (e # es) =
     (case member_step vl json ord m e of
        None \<Rightarrow> None
      | Some (m1, cs) \<Rightarrow> map_option (\<lambda>(m2, cs'). (m2, cs @ cs')) (member_run vl json ord m1 es))"

subsection \<open>Start and stop\<close>

definition MembershipConfig_defaults :: "'c MembershipConfig \<Rightarrow> 'c MembershipConfig" where
  "MembershipConfig_defaults cfg =
     cfg\<lparr>mc_ProbeInterval := (if mc_ProbeInterval cfg = 0 then 1000 else mc_ProbeInterval cfg),
         mc_ProbeTimeout := (if mc_ProbeTimeout cfg = 0 then 500 else mc_ProbeTimeout cfg),
         mc_SuspicionMult := (if mc_SuspicionMult cfg = 0 then 3 else mc_SuspicionMult cfg)\<rparr>"

text \<open>What \<open>Start\<close> sets in memberlist's configuration besides the transport and the delegates.\<close>

record ml_config =
  mlc_Name :: string
  mlc_AdvertiseAddr :: string
  mlc_AdvertisePort :: int
  mlc_ProbeInterval :: int
  mlc_ProbeTimeout :: int
  mlc_SuspicionMult :: int
  mlc_DisableTcpPings :: bool

definition mlCfg :: "'c MembershipConfig \<Rightarrow> ml_config" where
  "mlCfg cfg =
     \<lparr>mlc_Name = mc_NodeID cfg, mlc_AdvertiseAddr = mc_AdvertiseAddr cfg, mlc_AdvertisePort = mc_AdvertisePort cfg,
      mlc_ProbeInterval = mc_ProbeInterval cfg, mlc_ProbeTimeout = mc_ProbeTimeout cfg,
      mlc_SuspicionMult = mc_SuspicionMult cfg, mlc_DisableTcpPings = True\<rparr>"

text \<open>Whether the calls of memberlist and memberlist-quic succeed; \<open>ml_join\<close> gives the two results of a
  join, the second true for a nil error.\<close>

record ml_env =
  qt_new :: "string \<Rightarrow> int \<Rightarrow> tls_config \<Rightarrow> bool"
  ml_create :: "ml_config \<Rightarrow> bool"
  ml_join :: "string list \<Rightarrow> int \<times> bool"
  ml_leave :: "int \<Rightarrow> bool"
  ml_shutdown :: bool
  qt_shutdown :: bool
  ml_local :: "string \<times> int"

datatype start_error = CreateVivaldi | MembershipTLS | CreateQUIC | CreateMemberlist

text \<open>\<open>during\<close> are the events that memberlist reports while it is being created.\<close>

definition Membership_Start ::
  "('v, 'c) vivaldi_lib \<Rightarrow> 'c meta_codec \<Rightarrow> 'c range \<Rightarrow> ml_env \<Rightarrow> 'f member_event list \<Rightarrow>
     ('v, 'c, 'f) Membership \<Rightarrow> 'c MembershipConfig \<Rightarrow>
     (start_error option \<times> ('v, 'c, 'f) Membership \<times> ('c, 'f) callback list) option" where
  "Membership_Start vl json ord env during m cfg =
     (let cfg = MembershipConfig_defaults cfg in
      case NewClient vl of
        None \<Rightarrow> Some (Some CreateVivaldi, m, [])
      | Some vc \<Rightarrow>
          (let meta = (mc_Meta cfg)\<lparr>nm_NodeID := mc_NodeID cfg, nm_VivaldiCoord := Some (GetCoordinate vl vc)\<rparr>;
               m1 = m\<lparr>ms_vivaldi := Some vc, ms_peers := Some [], ms_meta := Some meta\<rparr>
           in case mc_TLS cfg of
                None \<Rightarrow> Some (Some MembershipTLS, m1, [])
              | Some tls \<Rightarrow>
                  (let m2 = m1\<lparr>ms_tlsConfig := Some tls\<rparr>
                   in if \<not> qt_new env (mc_BindAddr cfg) (mc_BindPort cfg) tls then Some (Some CreateQUIC, m2, [])
                      else (case member_run vl json ord (m2\<lparr>ms_quicTransport := True, qt_up := True\<rparr>) during of
                              None \<Rightarrow> None
                            | Some (m3, cs) \<Rightarrow>
                                if \<not> ml_create env (mlCfg cfg)
                                then Some (Some CreateMemberlist, m3\<lparr>qt_up := \<not> qt_shutdown env\<rparr>, cs)
                                else (let m4 = m3\<lparr>ms_list := True, ml_up := True\<rparr>
                                      in Some (None,
                                           if mc_SeedAddrs cfg \<noteq> [] then ml_log m4 (MlJoin (mc_SeedAddrs cfg)) else m4,
                                           cs))))))"

datatype stop_error = LeaveFailed | ShutdownFailed | QUICShutdownFailed

definition StopWithTimeout ::
  "ml_env \<Rightarrow> ('v, 'c, 'f) Membership \<Rightarrow> int \<Rightarrow> stop_error option \<times> ('v, 'c, 'f) Membership" where
  "StopWithTimeout env m leaveTimeout =
     (let leaveTimeout = (if leaveTimeout \<le> 0 then 1000 else leaveTimeout);
          stop_qt = (\<lambda>m. if ms_quicTransport m
                         then (if qt_shutdown env then (None, m\<lparr>qt_up := False\<rparr>) else (Some QUICShutdownFailed, m))
                         else (None, m))
      in if ms_list m
         then (if \<not> ml_leave env leaveTimeout then (Some LeaveFailed, m)
               else if \<not> ml_shutdown env then (Some ShutdownFailed, m)
               else stop_qt (m\<lparr>ml_up := False\<rparr>))
         else stop_qt m)"

definition Membership_Stop :: "ml_env \<Rightarrow> ('v, 'c, 'f) Membership \<Rightarrow> stop_error option \<times> ('v, 'c, 'f) Membership" where
  "Membership_Stop env m = StopWithTimeout env m 0"

definition LocalAddr :: "ml_env \<Rightarrow> ('v, 'c, 'f) Membership \<Rightarrow> string" where
  "LocalAddr env m = (if \<not> ms_list m then '''' else JoinHostPort (fst (ml_local env)) (itoa (snd (ml_local env))))"

text \<open>A join gives the two results of the code; the error is nil when the second is true.\<close>

definition Membership_Join ::
  "ml_env \<Rightarrow> ('v, 'c, 'f) Membership \<Rightarrow> string list \<Rightarrow> (int \<times> bool) \<times> ('v, 'c, 'f) Membership" where
  "Membership_Join env m addrs =
     (if \<not> ms_list m then ((0, False), m) else (ml_join env addrs, ml_log m (MlJoin addrs)))"

datatype inject_error = NotInitialized | JoinInjected

text \<open>The connection pool is there when the transport is; \<open>m.list\<close> is used without a check.\<close>

definition InjectConnection ::
  "ml_env \<Rightarrow> ('v, 'c, 'f) Membership \<Rightarrow> nat \<Rightarrow> string \<Rightarrow> (inject_error option \<times> ('v, 'c, 'f) Membership) option" where
  "InjectConnection env m conn addr =
     (if \<not> ms_quicTransport m then Some (Some NotInitialized, m)
      else if \<not> ms_list m then None
      else (let m1 = ml_log (ml_log m (PoolAddInbound conn)) (MlJoin [addr])
            in Some (if snd (ml_join env [addr]) then None else Some JoinInjected, m1)))"

section \<open>The peer table\<close>

definition member_ok :: "('v, 'c, 'f) Membership \<Rightarrow> bool" where
  "member_ok m \<longleftrightarrow> ms_vivaldi m \<noteq> None \<and> ms_peers m \<noteq> None \<and> ms_meta m \<noteq> None \<and>
     distinct (map fst (peers_of m)) \<and> (\<forall>(x, p) \<in> set (peers_of m). pi_NodeID p = x \<and> pi_Alive p)"

text \<open>What an event says about the node \<open>x\<close>: nothing, that it left, or its address and metadata.\<close>

fun news :: "'c meta_codec \<Rightarrow> string \<Rightarrow> 'f member_event \<Rightarrow> (string \<times> 'c NodeMeta) option option" where
  "news json x (EvJoin n) =
     (if ml_Name n = x then map_option (\<lambda>meta. Some (ml_Addr n, meta)) (DecodeMeta json (ml_Meta n)) else None)"
| "news json x (EvUpdate n) =
     (if ml_Name n = x then map_option (\<lambda>meta. Some (ml_Addr n, meta)) (DecodeMeta json (ml_Meta n)) else None)"
| "news json x (EvLeave n) = (if ml_Name n = x then Some None else None)"
| "news json x _ = None"

definition latest_news :: "'c meta_codec \<Rightarrow> string \<Rightarrow> 'f member_event list \<Rightarrow> (string \<times> 'c NodeMeta) option" where
  "latest_news json x evs = (case List.map_filter (news json x) evs of [] \<Rightarrow> None | vs \<Rightarrow> last vs)"

definition view :: "('v, 'c, 'f) Membership \<Rightarrow> string \<Rightarrow> (string \<times> 'c NodeMeta) option" where
  "view m x = map_option (\<lambda>p. (pi_Addr p, pi_Meta p)) (map_of (peers_of m) x)"

lemma latest_news_snoc: "latest_news json x (evs @ [e]) = (case news json x e of None \<Rightarrow> latest_news json x evs | Some v \<Rightarrow> v)"
  by (cases "List.map_filter (news json x) evs") (auto simp: latest_news_def map_filter_def split: option.split)

lemma member_run_append:
  "member_run vl json ord m (es @ es') =
    (case member_run vl json ord m es of
       None \<Rightarrow> None
     | Some (m1, cs) \<Rightarrow> map_option (\<lambda>(m2, cs'). (m2, cs @ cs')) (member_run vl json ord m1 es'))"
proof (induction es arbitrary: m)
  case (Cons e es)
  then show ?case
    by (cases "member_step vl json ord m e")
       (auto split: option.split prod.split simp: option.map_comp comp_def split_def)
qed (simp add: split_def option.map_ident)

text \<open>The two ways an event changes the table.\<close>

lemma store_peer:
  assumes "member_ok m" and "ms_peers m = Some ps" and "pi_NodeID p = x" "pi_Alive p"
  shows "member_ok (m\<lparr>ms_peers := Some (AList.update x p ps)\<rparr>)"
    and "view (m\<lparr>ms_peers := Some (AList.update x p ps)\<rparr>) = (view m)(x \<mapsto> (pi_Addr p, pi_Meta p))"
proof -
  have "pi_NodeID q = y \<and> pi_Alive q" if "(y, q) \<in> set (AList.update x p ps)" for y q
    using subsetD [OF set_alist_update that] assms by (auto simp: member_ok_def peers_of_def)
  then show "member_ok (m\<lparr>ms_peers := Some (AList.update x p ps)\<rparr>)"
    using assms(1,2) by (auto simp: member_ok_def peers_of_def distinct_update)
  show "view (m\<lparr>ms_peers := Some (AList.update x p ps)\<rparr>) = (view m)(x \<mapsto> (pi_Addr p, pi_Meta p))"
    using assms(2) by (simp add: peers_of_def view_def update_conv' fun_eq_iff)
qed

lemma delete_peer:
  assumes "member_ok m" and "ms_peers m = Some ps"
  shows "member_ok (m\<lparr>ms_vivaldi := Some v, ms_peers := Some (AList.delete x ps)\<rparr>)"
    and "view (m\<lparr>ms_vivaldi := Some v, ms_peers := Some (AList.delete x ps)\<rparr>) = (view m)(x := None)"
proof -
  show "member_ok (m\<lparr>ms_vivaldi := Some v, ms_peers := Some (AList.delete x ps)\<rparr>)"
    using assms by (auto simp: member_ok_def peers_of_def AList.delete_eq distinct_map inj_on_def)
  show "view (m\<lparr>ms_vivaldi := Some v, ms_peers := Some (AList.delete x ps)\<rparr>) = (view m)(x := None)"
    using assms(2) by (simp add: peers_of_def view_def delete_conv' fun_eq_iff)
qed


text \<open>The callbacks of an event: nothing when it says nothing about any node; otherwise the change
  callback, if it is set, comes last with the new table.\<close>

definition calls_ok ::
  "'c meta_codec \<Rightarrow> 'c range \<Rightarrow> ('v, 'c, 'f) Membership \<Rightarrow> 'f member_event \<Rightarrow> ('v, 'c, 'f) Membership \<Rightarrow> ('c, 'f) callback list \<Rightarrow> bool"
where
  "calls_ok json ord m e m' cs \<longleftrightarrow>
     (if \<forall>x. news json x e = None then cs = [] \<and> peers_of m' = peers_of m
      else ms_onChange m' = ms_onChange m \<and> (\<exists>ls. cs = ls @ notifyChange ord m' \<and> (\<forall>c \<in> set ls. \<exists>f x. c = CallLeave f x)))"

lemma NotifyJoin_ok:
  assumes "member_ok m"
  shows "\<exists>m' cs. NotifyJoin vl json ord m n = Some (m', cs) \<and> member_ok m' \<and>
    (\<forall>x. view m' x = (case news json x (EvJoin n) of None \<Rightarrow> view m x | Some v \<Rightarrow> v)) \<and> calls_ok json ord m (EvJoin n) m' cs"
proof (cases "DecodeMeta json (ml_Meta n)")
  case None
  then show ?thesis using assms by (simp add: NotifyJoin_def calls_ok_def)
next
  case (Some meta)
  obtain ps v where m: "ms_peers m = Some ps" "ms_vivaldi m = Some v" using assms by (auto simp: member_ok_def)
  then have "meta_rtt vl (ms_vivaldi m) meta \<noteq> None" by (simp add: meta_rtt_def split: option.split)
  then obtain rtt where rtt: "meta_rtt vl (ms_vivaldi m) meta = Some rtt" by blast
  note st = store_peer [OF assms m(1), of "\<lparr>pi_NodeID = ml_Name n, pi_Addr = ml_Addr n, pi_Meta = meta, pi_RTT = rtt, pi_Alive = True\<rparr>" "ml_Name n"]
  show ?thesis using Some m rtt st by (auto simp: NotifyJoin_def calls_ok_def Let_def)
qed

lemma NotifyUpdate_eq: "NotifyUpdate vl json ord m n = NotifyJoin vl json ord m n"
  by (simp add: NotifyUpdate_def NotifyJoin_def)

lemma NotifyLeave_ok:
  assumes "member_ok m"
  shows "\<exists>m' cs. NotifyLeave vl ord m n = Some (m', cs) \<and> member_ok m' \<and>
    (\<forall>x. view m' x = (case news json x (EvLeave n) of None \<Rightarrow> view m x | Some v \<Rightarrow> v)) \<and> calls_ok json ord m (EvLeave n) m' cs"
proof -
  obtain ps v where m: "ms_peers m = Some ps" "ms_vivaldi m = Some v" using assms by (auto simp: member_ok_def)
  note del = delete_peer [OF assms m(1), where v = "ForgetNode vl v (ml_Name n)" and x = "ml_Name n"]
  show ?thesis using m del by (auto simp: NotifyLeave_def calls_ok_def Let_def split: option.split)
qed

lemma NotifyPingComplete_ok:
  assumes "member_ok m"
  obtains m' where "NotifyPingComplete vl json m n rtt payload = Some m'" "member_ok m'" "peers_of m' = peers_of m"
    "ms_onChange m' = ms_onChange m"
proof -
  obtain v meta where v: "ms_vivaldi m = Some v" "ms_meta m = Some meta" using assms by (auto simp: member_ok_def)
  have "\<exists>m'. NotifyPingComplete vl json m n rtt payload = Some m' \<and> member_ok m' \<and> peers_of m' = peers_of m \<and>
      ms_onChange m' = ms_onChange m"
    using assms v
    by (simp add: NotifyPingComplete_def UpdateMeta_def ml_log_def Let_def split_beta split: option.split)
       (simp add: member_ok_def peers_of_def)
  then show thesis using that by blast
qed

lemma member_step_ok:
  assumes "member_ok m"
  shows "\<exists>m' cs. member_step vl json ord m e = Some (m', cs) \<and> member_ok m' \<and>
    (\<forall>x. view m' x = (case news json x e of None \<Rightarrow> view m x | Some v \<Rightarrow> v)) \<and> calls_ok json ord m e m' cs"
proof (cases e)
  case (EvJoin n)
  then show ?thesis using NotifyJoin_ok [OF assms] by simp
next
  case (EvLeave n)
  then show ?thesis using NotifyLeave_ok [OF assms] by simp
next
  case (EvUpdate n)
  then show ?thesis using NotifyJoin_ok [OF assms, of vl json ord n] by (simp add: NotifyUpdate_eq calls_ok_def)
next
  case (EvPing n rtt payload)
  obtain m' where "NotifyPingComplete vl json m n rtt payload = Some m'" "member_ok m'" "peers_of m' = peers_of m"
    by (rule NotifyPingComplete_ok [OF assms])
  then show ?thesis using EvPing by (simp add: calls_ok_def view_def)
next
  case (EvSetOnChange fn)
  then show ?thesis using assms by (auto simp: SetOnChange_def member_ok_def view_def peers_of_def calls_ok_def)
next
  case (EvSetOnLeave fn)
  then show ?thesis using assms by (auto simp: SetOnLeave_def member_ok_def view_def peers_of_def calls_ok_def)
qed

lemma member_run_ok:
  assumes "member_ok m" and "\<And>x. view m x = latest_news json x es0"
  shows "\<exists>m' cs. member_run vl json ord m es = Some (m', cs) \<and> member_ok m' \<and> (\<forall>x. view m' x = latest_news json x (es0 @ es))"
  using assms
proof (induction es arbitrary: m es0)
  case (Cons e es)
  obtain m1 cs where m1: "member_step vl json ord m e = Some (m1, cs)" "member_ok m1"
    "\<forall>x. view m1 x = (case news json x e of None \<Rightarrow> view m x | Some v \<Rightarrow> v)"
    using member_step_ok [OF Cons.prems(1)] by blast
  then have "view m1 x = latest_news json x (es0 @ [e])" for x using Cons.prems(2)
    by (simp add: latest_news_snoc split: option.split)
  from Cons.IH [OF m1(2) this] show ?case using m1(1) by auto
qed simp


text \<open>No event starts or stops anything.\<close>

definition resources :: "('v, 'c, 'f) Membership \<Rightarrow> bool \<times> bool \<times> bool \<times> bool" where
  "resources m = (ms_list m, ms_quicTransport m, ml_up m, qt_up m)"

lemma member_step_resources:
  "member_step vl json ord m e = Some (m', cs) \<Longrightarrow> resources m' = resources m"
  by (cases e)
     (auto simp: resources_def NotifyUpdate_eq NotifyJoin_def NotifyLeave_def NotifyPingComplete_def UpdateMeta_def ml_log_def
       SetOnChange_def SetOnLeave_def Let_def split: option.splits if_splits prod.splits)

lemma member_run_resources:
  "member_run vl json ord m es = Some (m', cs) \<Longrightarrow> resources m' = resources m"
  by (induction es arbitrary: m cs) (auto split: option.splits dest: member_step_resources)

text \<open>Starting: once the client is made, no event that memberlist reports during creation panics.\<close>

lemma Start_total:
  "\<exists>r. Membership_Start vl json ord env during m cfg = Some r"
proof (cases "NewClient vl")
  case (Some vc)
  let ?m = "\<lambda>meta tls. m\<lparr>ms_vivaldi := Some vc, ms_peers := Some [], ms_meta := Some meta, ms_tlsConfig := Some tls,
      ms_quicTransport := True, qt_up := True\<rparr>"
  have "member_run vl json ord (?m meta tls) during \<noteq> None" for meta tls
  proof -
    have "member_ok (?m meta tls)" "\<And>x. view (?m meta tls) x = latest_news json x ([] :: 'c member_event list)"
      by (simp_all add: member_ok_def view_def peers_of_def latest_news_def map_filter_def)
    from member_run_ok [OF this, of vl ord during] show ?thesis by auto
  qed
  then show ?thesis using Some
    by (auto simp: Membership_Start_def Let_def simp del: not_None_eq split: option.split)
qed (simp add: Membership_Start_def Let_def)

lemma Start_ok:
  assumes "Membership_Start vl json ord env during m cfg = Some (None, m', cs)"
  shows "member_ok m'" and "view m' x = latest_news json x during"
    and "resources m' = (True, True, True, True)"
proof -
  let ?cfg = "MembershipConfig_defaults cfg"
  obtain vc tls where c: "NewClient vl = Some vc" "mc_TLS ?cfg = Some tls"
    using assms by (auto simp: Membership_Start_def Let_def split: option.splits)
  define m2 where "m2 = m\<lparr>ms_vivaldi := Some vc, ms_peers := Some [],
      ms_meta := Some ((mc_Meta ?cfg)\<lparr>nm_NodeID := mc_NodeID ?cfg, nm_VivaldiCoord := Some (GetCoordinate vl vc)\<rparr>),
      ms_tlsConfig := Some tls, ms_quicTransport := True, qt_up := True\<rparr>"
  have "member_ok m2" "\<And>x. view m2 x = latest_news json x ([] :: 'c member_event list)"
    by (simp_all add: m2_def member_ok_def view_def peers_of_def latest_news_def map_filter_def)
  from member_run_ok [OF this, of vl ord during] obtain m3 cs' where
    r: "member_run vl json ord m2 during = Some (m3, cs')" "member_ok m3" "\<forall>x. view m3 x = latest_news json x during"
    by auto
  have m': "m' = (let m4 = m3\<lparr>ms_list := True, ml_up := True\<rparr>
      in if mc_SeedAddrs ?cfg \<noteq> [] then ml_log m4 (MlJoin (mc_SeedAddrs ?cfg)) else m4)"
    using assms c r(1) by (simp add: Membership_Start_def m2_def [symmetric] Let_def split: if_splits)
  then show "member_ok m'" "view m' x = latest_news json x during"
    using r(2,3) by (simp_all add: member_ok_def view_def peers_of_def ml_log_def Let_def)
  show "resources m' = (True, True, True, True)"
    using member_run_resources [OF r(1)] by (simp add: m' m2_def resources_def ml_log_def Let_def)
qed


section \<open>Updates of the metadata\<close>

definition um_inv :: "(nat \<Rightarrow> 'm \<Rightarrow> 'm) \<Rightarrow> 'm \<Rightarrow> nat list \<Rightarrow> 'm um_state \<Rightarrow> bool" where
  "um_inv fns m fin s \<longleftrightarrow> distinct fin \<and> set fin = {i. um_pcs s i = UmDone} \<and>
     snd (um_cell s) = foldl (\<lambda>m i. fns i m) m fin \<and> fst (um_cell s) < um_fresh s \<and>
     (\<forall>i p old. um_pcs s i = UmSwap p old \<longrightarrow> p < um_fresh s \<and> (p = fst (um_cell s) \<longrightarrow> old = snd (um_cell s)))"

lemma um_action_inv:
  assumes "um_inv fns m fin s"
  shows "\<exists>fin'. um_inv fns m fin' (um_action fns s i)"
proof (cases "um_pcs s i")
  case UmLoad
  then have "um_inv fns m fin (um_action fns s i)" using assms by (auto simp: um_inv_def um_action_def)
  then show ?thesis ..
next
  case (UmSwap p old)
  show ?thesis
  proof (cases "fst (um_cell s) = p")
    case True
    then have "old = snd (um_cell s)" using assms UmSwap unfolding um_inv_def by blast
    then have "um_inv fns m (fin @ [i]) (um_action fns s i)"
      using assms UmSwap True by (auto simp: um_inv_def um_action_def) (meson less_SucI)+
    then show ?thesis ..
  next
    case False
    then have "um_inv fns m fin (um_action fns s i)" using assms UmSwap by (auto simp: um_inv_def um_action_def)
    then show ?thesis ..
  qed
next
  case UmDone
  then have "um_action fns s i = s" by (simp add: um_action_def)
  then show ?thesis using assms by metis
qed

lemma um_run_inv:
  "um_inv fns m fin s \<Longrightarrow> \<exists>fin'. um_inv fns m fin' (foldl (um_action fns) s sched)"
proof (induction sched arbitrary: s fin)
  case (Cons i sched)
  obtain fin' where "um_inv fns m fin' (um_action fns s i)" using um_action_inv [OF Cons.prems] by blast
  from Cons.IH [OF this] show ?case by simp
qed (simp, blast)

section \<open>Properties\<close>

lemma LivePeers_all:
  assumes "member_ok m" and "\<forall>xs. mset (ord xs) = mset xs"
  shows "set (LivePeers ord m) = snd ` set (peers_of m)" "distinct (map pi_NodeID (LivePeers ord m))"
proof -
  have s: "set (ord (peers_of m)) = set (peers_of m)" using assms(2) by (metis set_mset_mset)
  have ps: "pi_NodeID (snd e) = fst e \<and> pi_Alive (snd e)" if "e \<in> set (peers_of m)" for e
    using assms(1) that by (auto simp: member_ok_def)
  have all: "LivePeers ord m = map snd (ord (peers_of m))"
    unfolding LivePeers_def using ps s by (auto intro!: filter_True)
  then show "set (LivePeers ord m) = snd ` set (peers_of m)" by (simp add: s)
  have "map pi_NodeID (map snd (ord (peers_of m))) = map fst (ord (peers_of m))" using ps s by auto
  moreover have "mset (map fst (ord (peers_of m))) = mset (map fst (peers_of m))" using assms(2) by (metis mset_map)
  then have "distinct (map fst (ord (peers_of m)))" using assms(1) by (metis mset_eq_imp_distinct_iff member_ok_def)
  ultimately show "distinct (map pi_NodeID (LivePeers ord m))" using all by metis
qed

lemma member_of_view:
  assumes "member_ok m"
  shows "IsAlive m x \<longleftrightarrow> view m x \<noteq> None"
    and "AddrForNode m x =
      (case view m x of None \<Rightarrow> '''' | Some (a, meta) \<Rightarrow> JoinHostPort (nm_QUICAddr meta) (itoa (nm_QUICPort meta)))"
    and "(\<lambda>p. (pi_NodeID p, pi_Addr p, pi_Meta p)) ` snd ` set (peers_of m) = {(x, a, meta). view m x = Some (a, meta)}"
proof -
  have alive: "pi_Alive p \<and> pi_NodeID p = y" if "map_of (peers_of m) y = Some p" for y p
    using map_of_SomeD [OF that] assms by (auto simp: member_ok_def)
  then show "IsAlive m x \<longleftrightarrow> view m x \<noteq> None"
    "AddrForNode m x =
      (case view m x of None \<Rightarrow> '''' | Some (a, meta) \<Rightarrow> JoinHostPort (nm_QUICAddr meta) (itoa (nm_QUICPort meta)))"
    by (auto simp: IsAlive_def AddrForNode_def view_def split: option.split)
  have in_map: "(y, p) \<in> set (peers_of m) \<longleftrightarrow> map_of (peers_of m) y = Some p" for y p
    using map_of_eq_Some_iff [of "peers_of m" y p] assms unfolding member_ok_def by blast
  have E: "p \<in> snd ` set (peers_of m) \<and> pi_NodeID p = y \<longleftrightarrow> map_of (peers_of m) y = Some p" for y p
  proof
    assume "p \<in> snd ` set (peers_of m) \<and> pi_NodeID p = y"
    moreover from this obtain z where "(z, p) \<in> set (peers_of m)" by auto
    ultimately show "map_of (peers_of m) y = Some p" using in_map alive [of z p] by simp
  next
    assume s: "map_of (peers_of m) y = Some p"
    then have "snd (y, p) \<in> snd ` set (peers_of m)" by (intro imageI map_of_SomeD)
    then show "p \<in> snd ` set (peers_of m) \<and> pi_NodeID p = y" using alive [OF s] by simp
  qed
  have "(y, a, meta) \<in> (\<lambda>p. (pi_NodeID p, pi_Addr p, pi_Meta p)) ` snd ` set (peers_of m) \<longleftrightarrow> view m y = Some (a, meta)" for y a meta
  proof -
    have "(y, a, meta) \<in> (\<lambda>p. (pi_NodeID p, pi_Addr p, pi_Meta p)) ` A \<longleftrightarrow>
        (\<exists>p. (p \<in> A \<and> pi_NodeID p = y) \<and> pi_Addr p = a \<and> pi_Meta p = meta)" for A :: "'b MemberInfo set"
      by auto
    from this [of "snd ` set (peers_of m)", unfolded E] show ?thesis by (simp only: view_def map_option_eq_Some prod.inject)
  qed
  then show "(\<lambda>p. (pi_NodeID p, pi_Addr p, pi_Meta p)) ` snd ` set (peers_of m) = {(x, a, meta). view m x = Some (a, meta)}"
    by (intro set_eqI) (simp add: split_paired_all)
qed

subsection \<open>A sample\<close>

definition sampleVivaldi :: "(nat, nat) vivaldi_lib" where
  "sampleVivaldi = \<lparr>NewClient = Some 0, GetCoordinate = (\<lambda>v. v), IsValid = (\<lambda>_. True), DistanceTo = (\<lambda>v c. int v + int c),
     ForgetNode = (\<lambda>v _. v), Vivaldi_Update = (\<lambda>v _ _ _. (True, Suc v))\<rparr>"

definition memberMeta :: "string \<Rightarrow> nat NodeMeta" where
  "memberMeta host = \<lparr>nm_NodeID = '''', nm_VivaldiCoord = None, nm_QUICAddr = host, nm_QUICPort = 7947, nm_AppData = []\<rparr>"

definition memberJSON :: "nat meta_codec" where
  "memberJSON = \<lparr>mj_marshal = (\<lambda>meta. Some (str_bytes (nm_QUICAddr meta))),
     mj_unmarshal = (\<lambda>data. if data = [] then None else Some (memberMeta (bytes_str data))),
     cj_marshal = (\<lambda>_. None), cj_unmarshal = (\<lambda>_. None)\<rparr>"

definition memberNode :: "string \<Rightarrow> string \<Rightarrow> ml_node" where
  "memberNode x host = \<lparr>ml_Name = x, ml_Addr = host, ml_Meta = str_bytes host\<rparr>"

definition memberEnv :: ml_env where
  "memberEnv = \<lparr>qt_new = (\<lambda>_ _ _. True), ml_create = (\<lambda>_. True), ml_join = (\<lambda>as. (int (length as), True)),
     ml_leave = (\<lambda>_. True), ml_shutdown = True, qt_shutdown = True, ml_local = (''h0'', 7946)\<rparr>"

definition memberConfig :: "nat MembershipConfig" where
  "memberConfig = \<lparr>mc_NodeID = ''self'', mc_BindAddr = ''0.0.0.0'', mc_BindPort = 7946, mc_AdvertiseAddr = '''',
     mc_AdvertisePort = 0, mc_SeedAddrs = [], mc_ProbeInterval = 0, mc_ProbeTimeout = 0, mc_SuspicionMult = 0,
     mc_Meta = memberMeta ''h0'', mc_TLS = Some 1\<rparr>"

definition memberEvents :: "unit member_event list" where
  "memberEvents = [EvJoin (memberNode ''a'' ''h1''), EvJoin (memberNode ''b'' ''h2''), EvLeave (memberNode ''a'' ''h1''),
     EvUpdate (memberNode ''b'' '''')]"

lemmas member_eval = sampleVivaldi_def memberMeta_def memberJSON_def memberNode_def memberEnv_def memberConfig_def
  Membership_Start_def MembershipConfig_defaults_def DecodeMeta_def latest_news_def map_filter_def

text \<open>C8: the peer table. After a successful start and any events of memberlist, a node is alive, has an
  address and is listed exactly when the last event that said something about it was a join or
  an update with readable metadata, and then with the address and metadata of that event; it is
  listed once. No sequence of events panics.\<close>

theorem membership_tracks:
  assumes "Membership_Start vl json ord env during m cfg = Some (None, m0, cs0)" and "\<forall>xs. mset (ord xs) = mset xs"
  shows "\<exists>m' cs. member_run vl json ord m0 es = Some (m', cs) \<and>
    (let last_of = \<lambda>x. latest_news json x (during @ es)
     in (IsAlive m' x \<longleftrightarrow> last_of x \<noteq> None) \<and>
        AddrForNode m' x = (case last_of x of None \<Rightarrow> ''''
          | Some (a, meta) \<Rightarrow> JoinHostPort (nm_QUICAddr meta) (itoa (nm_QUICPort meta))) \<and>
        distinct (map pi_NodeID (LivePeers ord m')) \<and>
        (\<lambda>p. (pi_NodeID p, pi_Addr p, pi_Meta p)) ` set (LivePeers ord m') = {(x, a, meta). last_of x = Some (a, meta)})"
proof -
  obtain m' cs where r: "member_run vl json ord m0 es = Some (m', cs)" "member_ok m'"
    and v: "\<forall>x. view m' x = latest_news json x (during @ es)"
    using member_run_ok [OF Start_ok(1,2) [OF assms(1)], where es = es] by blast
  show ?thesis
    using r(1) member_of_view [OF r(2)] LivePeers_all [OF r(2) assms(2)] v by (intro exI [of _ m'] exI [of _ cs]) simp
qed

theorem membership_tracks_witness:
  "\<exists>m0 cs0 m' cs.
     Membership_Start sampleVivaldi memberJSON rev memberEnv [] zeroMembership memberConfig = Some (None, m0, cs0) \<and>
     member_run sampleVivaldi memberJSON rev m0 memberEvents = Some (m', cs) \<and>
     IsAlive m' ''b'' \<and> AddrForNode m' ''b'' = JoinHostPort ''h2'' (itoa 7947)"
proof -
  obtain m0 cs0 where s: "Membership_Start sampleVivaldi memberJSON rev memberEnv [] zeroMembership memberConfig =
      Some (None, m0, cs0 :: (nat, unit) callback list)"
    by (simp add: member_eval)
  have "latest_news memberJSON ''b'' ([] @ memberEvents) = Some (''h2'', memberMeta ''h2'')"
    by (simp add: memberEvents_def member_eval) (simp add: str_bytes_def)
  with membership_tracks [OF s, of memberEvents "''b''"] obtain m' cs where
    "member_run sampleVivaldi memberJSON rev m0 memberEvents = Some (m', cs)"
    "IsAlive m' ''b''" "AddrForNode m' ''b'' = JoinHostPort ''h2'' (itoa 7947)"
    by (auto simp: Let_def memberMeta_def)
  with s show ?thesis by blast
qed

text \<open>C38: no lost metadata updates. In every interleaving of the loads and swaps of concurrent
  \<open>UpdateMeta\<close> calls, the stored metadata is the initial one with the functions of exactly the calls
  that have finished applied, each once, one after the other.\<close>

theorem UpdateMeta_no_lost_update:
  "\<exists>order. distinct order \<and> set order = {i. um_pcs (foldl (um_action fns) (um_init m) sched) i = UmDone} \<and>
     snd (um_cell (foldl (um_action fns) (um_init m) sched)) = foldl (\<lambda>m i. fns i m) m order"
proof -
  have "um_inv fns m [] (um_init m)" by (simp add: um_inv_def um_init_def)
  from um_run_inv [OF this, of sched] show ?thesis by (auto simp: um_inv_def)
qed

text \<open>C39: what a node says of itself. The metadata that the delegate of a node gives to memberlist is
  what its peers store for it, as long as its encoding is within memberlist's limit; above
  the limit the delegate gives nothing, and a peer that hears of the node does not store it. The
  hypotheses on JSON: the encoding decodes to what was encoded, and empty input is an error.\<close>

theorem oversized_meta_hides_node:
  assumes "member_ok m" and "mj_marshal json meta = Some data" and "mj_unmarshal json data = Some meta"
    and "mj_unmarshal json [] = None"
    and "node = \<lparr>ml_Name = x, ml_Addr = a, ml_Meta = delegate_NodeMeta json (Some meta) limit\<rparr>"
  shows "\<exists>m' cs. NotifyJoin vl json ord m node = Some (m', cs) \<and>
    (if int (length data) \<le> limit then view m' = (view m)(x \<mapsto> (a, meta)) else m' = m \<and> cs = [])"
proof (cases "int (length data) \<le> limit")
  case True
  then have d: "DecodeMeta json (ml_Meta node) = Some meta"
    using assms by (simp add: delegate_NodeMeta_def NodeMeta_Encode_def DecodeMeta_def)
  obtain m' cs where "NotifyJoin vl json ord m node = Some (m', cs)"
    "\<forall>y. view m' y = (case news json y (EvJoin node :: unit member_event) of None \<Rightarrow> view m y | Some v \<Rightarrow> v)"
    using NotifyJoin_ok [OF assms(1), of vl json ord node] by auto
  then show ?thesis using True d assms(5) by (auto simp: fun_eq_iff)
next
  case False
  then show ?thesis using assms by (simp add: NotifyJoin_def DecodeMeta_def delegate_NodeMeta_def NodeMeta_Encode_def)
qed


theorem oversized_meta_hides_node_witness:
  "\<exists>m0 cs0 m1 cs1.
     Membership_Start sampleVivaldi memberJSON rev memberEnv [] zeroMembership memberConfig = Some (None, m0, cs0 :: (nat, unit) callback list) \<and>
     NotifyJoin sampleVivaldi memberJSON rev m0
       \<lparr>ml_Name = ''a'', ml_Addr = ''x'', ml_Meta = delegate_NodeMeta memberJSON (Some (memberMeta ''h1'')) 512\<rparr> = Some (m1, cs1) \<and>
     view m1 = (view m0)(''a'' \<mapsto> (''x'', memberMeta ''h1'')) \<and>
     (\<exists>cs2. NotifyJoin sampleVivaldi memberJSON rev m0
       \<lparr>ml_Name = ''a'', ml_Addr = ''x'', ml_Meta = delegate_NodeMeta memberJSON (Some (memberMeta ''h1'')) 1\<rparr> = Some (m0, cs2))"
proof -
  obtain m0 cs0 where s: "Membership_Start sampleVivaldi memberJSON rev memberEnv [] zeroMembership memberConfig =
      Some (None, m0, cs0 :: (nat, unit) callback list)"
    by (simp add: member_eval)
  have j: "mj_marshal memberJSON (memberMeta ''h1'') = Some (str_bytes ''h1'')"
    "mj_unmarshal memberJSON (str_bytes ''h1'') = Some (memberMeta ''h1'')" "mj_unmarshal memberJSON [] = None"
    by (simp_all add: memberJSON_def memberMeta_def) (simp add: str_bytes_def)
  note o = oversized_meta_hides_node [OF Start_ok(1) [OF s] j refl, of sampleVivaldi rev "''a''" "''x''"]
  from o [of 512] o [of 1] s show ?thesis by auto
qed

end
