(* ===== verification/NatUtil.thy ===== *)
theory NatUtil
  imports Transport Hosts
begin

text \<open>
  \<open>natutil/detect.go\<close> and \<open>natutil/reflect.go\<close>: detecting NAT and asking a peer for one's public
  address.

  Parsing and comparing IP addresses and the addresses of the local interfaces are parameters
  (\<open>ip_lib\<close>). The handlers that the package registers for its datagrams are values of type
  \<open>reflect_handler\<close>; what they do with a datagram is \<open>reflect_call\<close>.
\<close>

section \<open>Detection\<close>

record NATStatus =
  ns_PublicAddr :: string
  ns_IsNATed :: bool
  ns_IsRelay :: bool

text \<open>\<open>ip_equal\<close> compares possibly nil addresses; \<open>InterfaceAddrs\<close> is \<open>None\<close> when the interfaces cannot be
  listed, and an address in its list is \<open>None\<close> when it is not a \<open>net.IPNet\<close>.\<close>

record 'ip ip_lib =
  ParseIP :: "string \<Rightarrow> 'ip option"
  ip_equal :: "'ip option \<Rightarrow> 'ip option \<Rightarrow> bool"
  IsUnspecified :: "'ip \<Rightarrow> bool"
  InterfaceAddrs :: "'ip option list option"

definition isLocalIP :: "'ip ip_lib \<Rightarrow> 'ip option \<Rightarrow> bool" where
  "isLocalIP lib ip =
     (case ip of
        None \<Rightarrow> False
      | Some _ \<Rightarrow>
          (case InterfaceAddrs lib of
             None \<Rightarrow> False
           | Some addrs \<Rightarrow>
               list_ex (\<lambda>addr. case addr of None \<Rightarrow> False | Some a \<Rightarrow> ip_equal lib (Some a) ip) addrs))"

definition host_of :: "string \<Rightarrow> string" where
  "host_of addr = (case SplitHostPort addr of Inl _ \<Rightarrow> '''' | Inr (host, _) \<Rightarrow> host)"

definition DetectNAT :: "'ip ip_lib \<Rightarrow> string \<Rightarrow> string \<Rightarrow> NATStatus" where
  "DetectNAT lib bindAddr reflectedAddr =
     (if reflectedAddr = '''' then \<lparr>ns_PublicAddr = '''', ns_IsNATed = False, ns_IsRelay = False\<rparr>
      else (let bindIP = ParseIP lib (host_of bindAddr);
                reflectedIP = ParseIP lib (host_of reflectedAddr)
            in if (case bindIP of None \<Rightarrow> False | Some ip \<Rightarrow> IsUnspecified lib ip)
               then \<lparr>ns_PublicAddr = reflectedAddr, ns_IsNATed = \<not> isLocalIP lib reflectedIP,
                     ns_IsRelay = isLocalIP lib reflectedIP\<rparr>
               else (let natted = \<not> ip_equal lib bindIP reflectedIP
                     in \<lparr>ns_PublicAddr = reflectedAddr, ns_IsNATed = natted, ns_IsRelay = \<not> natted\<rparr>)))"

section \<open>Reflection\<close>

definition reflectRequest :: byte where "reflectRequest = 0x00"
definition reflectResponse :: byte where "reflectResponse = 0x01"

datatype reflect_handler = ReflectServer | ReflectRequester nat

text \<open>What a handler does with a datagram: a reply to send to an address, a value for the result
  channel of a pending request, or nothing.\<close>

datatype reflect_action = SendReply string bytes | Result nat string | Ignore

definition reflect_reply :: "string \<Rightarrow> bytes" where
  "reflect_reply from = [MsgTypeAddrReflect, reflectResponse] @ str_bytes from"

fun reflect_call :: "reflect_handler \<Rightarrow> string \<Rightarrow> bytes \<Rightarrow> reflect_action" where
  "reflect_call h from [] = Ignore"
| "reflect_call ReflectServer from (ty # data) =
     (if ty \<noteq> reflectRequest then Ignore else SendReply from (reflect_reply from))"
| "reflect_call (ReflectRequester n) from (ty # data) =
     (if ty = reflectRequest then SendReply from (reflect_reply from)
      else if ty = reflectResponse then Result n (bytes_str data)
      else Ignore)"

text \<open>\<open>wrap\<close> makes a handler of the transport of a handler of this package.\<close>

definition RegisterReflectHandler :: "(reflect_handler \<Rightarrow> 'h) \<Rightarrow> 'h Transport \<Rightarrow> 'h Transport" where
  "RegisterReflectHandler wrap t = RegisterDatagramHandler t MsgTypeAddrReflect (wrap ReflectServer)"

datatype reflect_error = SendRequest | ContextDone | ReflectTimeout

text \<open>The datagrams that arrive until the wait ends with \<open>ended\<close> (the timeout or the context), each
  dispatched by the transport as it is then; the first value sent to the channel \<open>n\<close> is the result.\<close>

fun await_reflection ::
  "reflect_error \<Rightarrow> nat \<Rightarrow> (reflect_handler Transport \<times> string \<times> bytes) list \<Rightarrow> reflect_error + string" where
  "await_reflection ended n [] = Inl ended"
| "await_reflection ended n ((t, from, m) # ms) =
     (case dispatchDatagram t from m of
        Handled h from' data \<Rightarrow>
          (case reflect_call h from' data of
             Result k addr \<Rightarrow> if k = n then Inr addr else await_reflection ended n ms
           | _ \<Rightarrow> await_reflection ended n ms)
      | _ \<Rightarrow> await_reflection ended n ms)"

text \<open>The first part of \<open>RequestReflection\<close>: the handler for request \<open>n\<close> is registered, and the request sent.\<close>

definition request_reflection ::
  "quic_net \<Rightarrow> (reflect_handler Transport \<Rightarrow> reflect_handler Transport) \<Rightarrow> nat \<Rightarrow> reflect_handler Transport \<Rightarrow> string \<Rightarrow>
     reflect_error option \<times> bytes \<times> reflect_handler Transport" where
  "request_reflection net meanwhile n t peerAddr =
     (let t1 = RegisterDatagramHandler t MsgTypeAddrReflect (ReflectRequester n);
          req = [MsgTypeAddrReflect, reflectRequest];
          (ok, t2) = SendDatagram net meanwhile t1 peerAddr req
      in (if ok then None else Some SendRequest, req, t2))"

definition RequestReflection ::
  "quic_net \<Rightarrow> (reflect_handler Transport \<Rightarrow> reflect_handler Transport) \<Rightarrow> nat \<Rightarrow> reflect_handler Transport \<Rightarrow> string \<Rightarrow>
     reflect_error \<Rightarrow> (reflect_handler Transport \<times> string \<times> bytes) list \<Rightarrow>
     (reflect_error + string) \<times> reflect_handler Transport" where
  "RequestReflection net meanwhile n t peerAddr ended arrivals =
     (case request_reflection net meanwhile n t peerAddr of
        (Some err, _, t1) \<Rightarrow> (Inl err, t1)
      | (None, _, t1) \<Rightarrow> (await_reflection ended n arrivals, t1))"

section \<open>Properties\<close>

lemma getOrDial_datagramHandlers:
  "datagramHandlers (snd (getOrDial net id t a)) = datagramHandlers t"
  by (simp add: getOrDial_def GetConnection_def dial_finish_def store_conn_def delete_conn_def close_conn_def
      startAcceptLoop_def Let_def split_beta split: option.split)

lemma type_distinct [simp]: "MsgTypeAddrReflect \<noteq> MsgTypeEagerGossip" "reflectResponse \<noteq> reflectRequest"
  by (simp_all add: MsgTypeAddrReflect_def MsgTypeEagerGossip_def reflectResponse_def reflectRequest_def)



text \<open>Once an address was reflected, a node is a relay exactly when it is not behind NAT.\<close>

lemma DetectNAT_relay:
  "reflectedAddr \<noteq> '''' \<Longrightarrow> ns_IsRelay (DetectNAT lib bindAddr reflectedAddr) \<longleftrightarrow> \<not> ns_IsNATed (DetectNAT lib bindAddr reflectedAddr)"
  by (simp add: DetectNAT_def Let_def)

end
