(* ===== verification/Mesh.thy ===== *)
theory Mesh
  imports EngineProps Membership NatUtil
begin

text \<open>
  \<open>mesh/mesh.go\<close>: joining puts the membership layer, the application transport, the overlay and the
  engine together, and leaving stops them.

  The discovery extension is an interface: a record of its two methods over a state of its own
  and the mesh. The overlay is the one inside the engine; both point to the same object. Events of
  memberlist that arrive while \<open>Join\<close> is under way are a parameter.
\<close>

section \<open>Model\<close>

datatype mesh_handler = EngineHandler engine_handler | ReflectHandler reflect_handler

text \<open>The same transport with handlers of a larger type.\<close>

definition map_handlers :: "('a \<Rightarrow> 'b) \<Rightarrow> 'a Transport \<Rightarrow> 'b Transport" where
  "map_handlers f t = \<lparr>appConns = appConns t, closedConns = closedConns t, loops = loops t, tr_closed = tr_closed t,
     onEagerGossip = map_option f (onEagerGossip t), onLazyBatch = map_option f (onLazyBatch t),
     onRepair = map_option f (onRepair t), bidiHandlers = map_option f \<circ> bidiHandlers t,
     uniHandlers = map_option f \<circ> uniHandlers t, datagramHandlers = map_option f \<circ> datagramHandlers t\<rparr>"

record 'c mesh_config =
  cf_NodeID :: string
  cf_BindAddr :: string
  cf_BindPort :: int
  cf_SeedAddrs :: "string list"
  cf_TLS :: "tls_config option"
  cf_AdvertiseAddr :: string
  cf_AdvertisePort :: int
  cf_Meta :: "'c NodeMeta"
  cf_Overlay :: OverlayConfig
  cf_Engine :: EngineConfig

text \<open>The clock gives the times that are read, one per byte of the identifier.\<close>

definition generateNodeID :: "(nat \<Rightarrow> int) \<Rightarrow> string" where
  "generateNodeID clock = ''node-'' @ EncodeToString (map (\<lambda>i. of_int (drop_bit (i * 8) (clock i))) [0..<8])"

definition mesh_withDefaults :: "(nat \<Rightarrow> int) \<Rightarrow> 'c mesh_config \<Rightarrow> 'c mesh_config" where
  "mesh_withDefaults clock c = c\<lparr>cf_NodeID := (if cf_NodeID c = '''' then generateNodeID clock else cf_NodeID c)\<rparr>"

text \<open>The functions that the mesh and its extension give to the membership layer.\<close>

datatype mesh_fn = ReclassifyFn | DeregisterFn

record ('v, 'c) Mesh =
  me_Membership :: "('v, 'c, mesh_fn) Membership"
  me_Transport :: "mesh_handler Transport option"
  me_Engine :: "GossipEngine option"
  me_cfg :: "'c mesh_config"
  me_cancelled :: bool

record ('d, 'm) discovery =
  dx_Start :: "'m \<Rightarrow> 'd \<Rightarrow> (bool \<times> 'm \<times> 'd) option"
  dx_Stop :: "'d \<Rightarrow> 'd"

definition memCfg :: "'c mesh_config \<Rightarrow> tls_config \<Rightarrow> 'c MembershipConfig" where
  "memCfg cfg tls =
     \<lparr>mc_NodeID = cf_NodeID cfg, mc_BindAddr = cf_BindAddr cfg, mc_BindPort = cf_BindPort cfg,
      mc_AdvertiseAddr = cf_AdvertiseAddr cfg, mc_AdvertisePort = cf_AdvertisePort cfg, mc_SeedAddrs = cf_SeedAddrs cfg,
      mc_ProbeInterval = 0, mc_ProbeTimeout = 0, mc_SuspicionMult = 0, mc_Meta = cf_Meta cfg, mc_TLS = Some tls\<rparr>"

definition overlayPeer :: "'c MemberInfo \<Rightarrow> PeerInfo" where
  "overlayPeer p = \<lparr>NodeID = pi_NodeID p,
     Addr = JoinHostPort (nm_QUICAddr (pi_Meta p)) (itoa (nm_QUICPort (pi_Meta p))), RTT = pi_RTT p\<rparr>"

definition reclassify_fn ::
  "(PeerInfo list \<Rightarrow> PeerInfo list) \<Rightarrow> 'c MemberInfo list \<Rightarrow> GossipEngine \<Rightarrow> GossipEngine" where
  "reclassify_fn sortf peers g = g\<lparr>overlay := Reclassify sortf (overlay g) (map overlayPeer peers)\<rparr>"

text \<open>What the callbacks of the membership layer do to the mesh. The leave callback is the extension's.\<close>

fun run_call ::
  "(PeerInfo list \<Rightarrow> PeerInfo list) \<Rightarrow> ('v, 'c) Mesh \<Rightarrow> ('c, mesh_fn) callback \<Rightarrow> ('v, 'c) Mesh" where
  "run_call sortf me (CallChange ReclassifyFn peers) = me\<lparr>me_Engine := map_option (reclassify_fn sortf peers) (me_Engine me)\<rparr>"
| "run_call sortf me _ = me"

text \<open>Closing the channel a second time panics.\<close>

definition transport_Shutdown :: "'h Transport \<Rightarrow> 'h Transport option" where
  "transport_Shutdown t = (if tr_closed t then None else Some (Shutdown t))"

datatype join_error = JoinTLS | JoinMembership start_error | JoinTransport transport_error | JoinDiscovery

text \<open>Sockets and the clock; \<open>mn_before\<close> are the events that arrive after the membership layer is started and
  before the callback is set, \<open>mn_create\<close> those during its creation.\<close>

record mesh_net =
  mn_listenUDP :: bool
  mn_listen :: "string \<Rightarrow> bool"
  mn_clock :: "nat \<Rightarrow> int"
  mn_create :: "mesh_fn member_event list"
  mn_before :: "mesh_fn member_event list"
  mn_pool :: "string list option"

definition new_mesh :: "'c mesh_config \<Rightarrow> ('v, 'c) Mesh" where
  "new_mesh cfg =
     \<lparr>me_Membership = zeroMembership, me_Transport = None, me_Engine = None, me_cfg = cfg, me_cancelled = False\<rparr>"

text \<open>The part of \<open>Join\<close> after the transport: overlay, engine and callback.\<close>

definition wire_mesh ::
  "mesh_net \<Rightarrow> ('v, 'c, mesh_fn) Membership \<Rightarrow> engine_handler Transport \<Rightarrow> ('v, 'c) Mesh \<Rightarrow> ('v, 'c) Mesh" where
  "wire_mesh mn mem t me =
     (let ov = Overlay_New (cf_NodeID (me_cfg me)) (cf_Overlay (me_cfg me));
          (eng, t1) = Engine_New ov t (cf_Engine (me_cfg me));
          mem1 = SetOnChange mem (Some ReclassifyFn);
          t2 = StartAcceptLoopAll (mn_pool mn) t1
      in me\<lparr>me_Membership := mem1, me_Transport := Some (map_handlers EngineHandler t2), me_Engine := Some eng\<rparr>)"

definition start_discovery ::
  "ml_env \<Rightarrow> ('d, ('v, 'c) Mesh) discovery option \<Rightarrow> ('v, 'c) Mesh \<Rightarrow> 'd \<Rightarrow> (join_error option \<times> ('v, 'c) Mesh \<times> 'd) option" where
  "start_discovery env discovery me d =
     (case discovery of
        None \<Rightarrow> Some (None, me, d)
      | Some dx \<Rightarrow>
          (case dx_Start dx me d of
             None \<Rightarrow> None
           | Some (True, me1, d1) \<Rightarrow> Some (None, me1, d1)
           | Some (False, me1, d1) \<Rightarrow>
               (case Option.bind (me_Transport me1) transport_Shutdown of
                  None \<Rightarrow> None
                | Some t \<Rightarrow>
                    Some (Some JoinDiscovery,
                      me1\<lparr>me_Transport := Some t, me_Membership := snd (Membership_Stop env (me_Membership me1)),
                          me_cancelled := True\<rparr>, d1))))"

definition Mesh_Join ::
  "('v, 'c) vivaldi_lib \<Rightarrow> 'c meta_codec \<Rightarrow> 'c range \<Rightarrow> ml_env \<Rightarrow> mesh_net \<Rightarrow> ('d, ('v, 'c) Mesh) discovery option \<Rightarrow>
     'c mesh_config \<Rightarrow> 'd \<Rightarrow> (join_error option \<times> ('v, 'c) Mesh \<times> 'd) option" where
  "Mesh_Join vl json ord env mn discovery cfg d =
     (let cfg = mesh_withDefaults (mn_clock mn) cfg; me = new_mesh cfg in
      case cf_TLS cfg of
        None \<Rightarrow> Some (Some JoinTLS, me\<lparr>me_cancelled := True\<rparr>, d)
      | Some tls \<Rightarrow>
          (case Membership_Start vl json ord env (mn_create mn) zeroMembership (memCfg cfg tls) of
             None \<Rightarrow> None
           | Some (Some err, mem, _) \<Rightarrow>
               Some (Some (JoinMembership err), me\<lparr>me_Membership := mem, me_cancelled := True\<rparr>, d)
           | Some (None, mem, _) \<Rightarrow>
               (case member_run vl json ord mem (mn_before mn) of
                  None \<Rightarrow> None
                | Some (mem1, _) \<Rightarrow>
                    (case Transport_New (mn_listenUDP mn) (mn_listen mn) \<lparr>tc_TLS = True, tc_ALPN = ''''\<rparr> of
                       Inl err \<Rightarrow>
                         Some (Some (JoinTransport err),
                           me\<lparr>me_Membership := snd (Membership_Stop env mem1), me_cancelled := True\<rparr>, d)
                     | Inr t \<Rightarrow> start_discovery env discovery (wire_mesh mn mem1 t me) d))))"

definition Mesh_Leave ::
  "ml_env \<Rightarrow> ('d, ('v, 'c) Mesh) discovery option \<Rightarrow> ('v, 'c) Mesh \<Rightarrow> 'd \<Rightarrow> (stop_error option \<times> ('v, 'c) Mesh \<times> 'd) option" where
  "Mesh_Leave env discovery me d =
     (let d1 = (case discovery of None \<Rightarrow> d | Some dx \<Rightarrow> dx_Stop dx d);
          me1 = me\<lparr>me_cancelled := True\<rparr>;
          stop = (\<lambda>me. let (err, mem) = Membership_Stop env (me_Membership me) in Some (err, me\<lparr>me_Membership := mem\<rparr>, d1))
      in case me_Transport me1 of
           None \<Rightarrow> stop me1
         | Some t \<Rightarrow>
             (case transport_Shutdown t of
                None \<Rightarrow> None
              | Some t1 \<Rightarrow> stop (me1\<lparr>me_Transport := Some t1\<rparr>)))"

subsection \<open>A running mesh\<close>

datatype mesh_event = MeshMember "mesh_fn member_event" | MeshEngine engine_event

text \<open>One step: an event of memberlist with its callbacks, or a step of the engine.\<close>

fun mesh_step ::
  "('v, 'c) vivaldi_lib \<Rightarrow> 'c meta_codec \<Rightarrow> 'c range \<Rightarrow> 'w stream_ops \<Rightarrow> engine_params \<Rightarrow>
     ('v, 'c) Mesh \<times> 'w \<Rightarrow> mesh_event \<Rightarrow> (('v, 'c) Mesh \<times> 'w) option" where
  "mesh_step vl json ord ops ep (me, w) (MeshMember e) =
     (case member_step vl json ord (me_Membership me) e of
        None \<Rightarrow> None
      | Some (mem, cs) \<Rightarrow> Some (foldl (run_call (sort_peers ep)) (me\<lparr>me_Membership := mem\<rparr>) cs, w))"
| "mesh_step vl json ord ops ep (me, w) (MeshEngine e) =
     (case me_Engine me of
        None \<Rightarrow> None
      | Some g \<Rightarrow> (let (g1, w1) = engine_step ops ep (g, w) e in Some (me\<lparr>me_Engine := Some g1\<rparr>, w1)))"

fun mesh_run ::
  "('v, 'c) vivaldi_lib \<Rightarrow> 'c meta_codec \<Rightarrow> 'c range \<Rightarrow> 'w stream_ops \<Rightarrow> engine_params \<Rightarrow>
     ('v, 'c) Mesh \<times> 'w \<Rightarrow> mesh_event list \<Rightarrow> (('v, 'c) Mesh \<times> 'w) option" where
  "mesh_run vl json ord ops ep mw [] = Some mw"
| "mesh_run vl json ord ops ep mw (e # es) =
     (case mesh_step vl json ord ops ep mw e of None \<Rightarrow> None | Some mw' \<Rightarrow> mesh_run vl json ord ops ep mw' es)"


section \<open>A running mesh\<close>

text \<open>The mesh is wired: the membership layer is well formed and calls back, and the engine is there and
  well formed.\<close>

definition mesh_ok :: "('v, 'c) Mesh \<Rightarrow> bool" where
  "mesh_ok me \<longleftrightarrow> member_ok (me_Membership me) \<and> ms_onChange (me_Membership me) = Some ReclassifyFn \<and>
     (\<exists>g. me_Engine me = Some g \<and> engine_ok g)"

text \<open>Events that leave the wiring alone: nobody replaces the callback or classifies by hand.\<close>

fun wired :: "mesh_event \<Rightarrow> bool" where
  "wired (MeshMember (EvSetOnChange fn)) = False"
| "wired (MeshEngine (EvReclassify peers)) = False"
| "wired _ = True"

text \<open>Whether the event says something about some node.\<close>

fun tells :: "'c meta_codec \<Rightarrow> mesh_event \<Rightarrow> bool" where
  "tells json (MeshMember (EvJoin n)) = (DecodeMeta json (ml_Meta n) \<noteq> None)"
| "tells json (MeshMember (EvUpdate n)) = (DecodeMeta json (ml_Meta n) \<noteq> None)"
| "tells json (MeshMember (EvLeave n)) = True"
| "tells json _ = False"

lemma tells_news: "tells json (MeshMember e) \<longleftrightarrow> \<not> (\<forall>x. news json x e = None)"
  by (cases e) auto

lemma engine_step_overlay:
  assumes "wired (MeshEngine e)"
  shows "overlay (fst (engine_step ops ep (g, w) e)) = overlay g"
proof -
  have lazy: "overlay (fst (foldl (lazyReceiveEntry ops v a) gw es)) = overlay (fst gw)" for v a gw es
    by (induction es arbitrary: gw) (simp_all add: lazyReceiveEntry_def should_process_eq split_beta split: bool.split)
  show ?thesis
  proof (cases e)
    case EvLocal
    then show ?thesis by (cases "localCh g") (simp_all add: handleLocal_def Let_def split_beta should_process_eq eagerForward_eq enqueueForLazy_eq)
  next
    case (EvLazy a d)
    then show ?thesis by (simp add: onLazyBatchReceive_def lazy Let_def split: sum.split option.split)
  next
    case (EvEager a d)
    then show ?thesis by (simp add: onEagerReceive_def should_process_eq split_beta Let_def split: sum.split bool.split)
  next
    case (EvReclassify ps)
    then show ?thesis using assms by simp
  next
    case EvTick
    then show ?thesis by (simp add: flushLazyBatches_def Let_def)
  next
    case (EvWake i net)
    then show ?thesis by (simp add: engine_wake_def split_beta)
  next
    case (EvEnqueue entry)
    then show ?thesis by (simp add: Enqueue_def)
  next
    case (EvSetInitialSeq t q)
    then show ?thesis by (simp add: SetInitialSeq_def)
  qed simp_all
qed

text \<open>A classification depends on the list it is given, not on earlier ones.\<close>

lemma Reclassify_frame:
  obtains es ls where "\<And>ov. ov_cfg ov = c \<Longrightarrow> self ov = x \<Longrightarrow> Reclassify sf ov qs = ov\<lparr>eagerPeers := es, lazyPeers := ls\<rparr>"
proof (cases "filter (\<lambda>p. NodeID p \<noteq> x) qs = []")
  case True
  show thesis by (rule that [of "[]" "[]"]) (simp add: Reclassify_def True)
next
  case False
  define ps where "ps = cap_peers c (sf (filter (\<lambda>p. NodeID p \<noteq> x) qs))"
  define ops where "ops = map classify_peer (zip ps (selectEager c ps))"
  show thesis
    by (rule that [of "filter (\<lambda>p. \<not> IsEager p) ops" "filter IsEager ops"])
       (simp only: Reclassify_def Let_def if_not_P [OF False] ps_def [symmetric] ops_def [symmetric])
qed

lemma Reclassify_again: "Reclassify sf (Reclassify sf ov ps) qs = Reclassify sf ov qs"
proof -
  obtain es ls where 1: "\<And>ov'. ov_cfg ov' = ov_cfg ov \<Longrightarrow> self ov' = self ov \<Longrightarrow> Reclassify sf ov' ps = ov'\<lparr>eagerPeers := es, lazyPeers := ls\<rparr>"
    using Reclassify_frame by blast
  obtain es' ls' where 2: "\<And>ov'. ov_cfg ov' = ov_cfg ov \<Longrightarrow> self ov' = self ov \<Longrightarrow> Reclassify sf ov' qs = ov'\<lparr>eagerPeers := es', lazyPeers := ls'\<rparr>"
    using Reclassify_frame by blast
  show ?thesis by (simp add: 1 2)
qed

definition classified :: "(PeerInfo list \<Rightarrow> PeerInfo list) \<Rightarrow> Overlay \<Rightarrow> 'c MemberInfo list \<Rightarrow> Overlay" where
  "classified sf ov ps = Reclassify sf ov (map overlayPeer ps)"

lemma run_calls_leave:
  "\<forall>c \<in> set cs. \<exists>f x. c = CallLeave f x \<Longrightarrow> foldl (run_call sf) me cs = me"
  by (induction cs) auto

lemma mesh_step_ok:
  assumes "mesh_ok me" and "wired e" and "me_Engine me = Some g"
  shows "\<exists>me' g' w'. mesh_step vl json ord ops ep (me, w) e = Some (me', w') \<and> mesh_ok me' \<and> me_Engine me' = Some g' \<and>
    (if tells json e then overlay g' = classified (sort_peers ep) (overlay g) (LivePeers ord (me_Membership me'))
     else overlay g' = overlay g \<and> peers_of (me_Membership me') = peers_of (me_Membership me))"
proof (cases e)
  case (MeshEngine ev)
  obtain g' w' where s: "engine_step ops ep (g, w) ev = (g', w')" by fastforce
  have "engine_ok g'" using engine_ok_step [of "(g, w)" ops ep ev] assms(1,3) s by (simp add: mesh_ok_def)
  moreover have "overlay g' = overlay g" using engine_step_overlay assms(2) s MeshEngine by (metis fst_conv)
  ultimately show ?thesis using MeshEngine s assms(1,3) by (simp add: mesh_ok_def)
next
  case (MeshMember ev)
  let ?m = "me_Membership me"
  obtain m' cs where m': "member_step vl json ord ?m ev = Some (m', cs)" "member_ok m'" "calls_ok json ord ?m ev m' cs"
    using member_step_ok assms(1) unfolding mesh_ok_def by blast
  show ?thesis
  proof (cases "tells json e")
    case True
    then have t: "\<not> (\<forall>x. news json x ev = None)" using tells_news MeshMember by metis
    with m'(3) obtain ls where ls: "ms_onChange m' = ms_onChange ?m" "cs = ls @ notifyChange ord m'"
      "\<forall>c \<in> set ls. \<exists>f x. c = CallLeave f x"
      unfolding calls_ok_def by (metis (no_types, lifting))
    then have "foldl (run_call (sort_peers ep)) (me\<lparr>me_Membership := m'\<rparr>) cs =
        me\<lparr>me_Membership := m', me_Engine := Some (reclassify_fn (sort_peers ep) (LivePeers ord m') g)\<rparr>"
      using assms(1,3) by (simp add: run_calls_leave notifyChange_def mesh_ok_def)
    then show ?thesis
      using MeshMember m'(1,2) True assms(1,3) ls(1)
      by (simp add: mesh_ok_def reclassify_fn_def classified_def engine_ok_def)
  next
    case False
    then have "cs = []" "peers_of m' = peers_of ?m"
      using m'(3) tells_news [of json ev] MeshMember by (simp_all add: calls_ok_def)
    moreover have "ms_onChange m' = ms_onChange ?m"
      using m'(1) MeshMember assms(2) False
      by (cases ev) (auto simp: NotifyUpdate_eq NotifyJoin_def NotifyPingComplete_def UpdateMeta_def ml_log_def SetOnLeave_def
          Let_def split: option.splits if_splits prod.splits)
    ultimately show ?thesis using MeshMember m'(1,2) False assms(1,3) by (simp add: mesh_ok_def)
  qed
qed


lemma mesh_run_ok:
  assumes "mesh_ok me" and "list_all wired es" and "me_Engine me = Some g"
  shows "\<exists>me' g' w'. mesh_run vl json ord ops ep (me, w) es = Some (me', w') \<and> mesh_ok me' \<and> me_Engine me' = Some g' \<and>
    (if list_ex (tells json) es
     then overlay g' = classified (sort_peers ep) (overlay g) (LivePeers ord (me_Membership me'))
     else overlay g' = overlay g \<and> peers_of (me_Membership me') = peers_of (me_Membership me))"
  using assms
proof (induction es arbitrary: me g w)
  case (Cons e es)
  then have "wired e" "list_all wired es" by simp_all
  with mesh_step_ok [OF Cons.prems(1) _ Cons.prems(3), of e vl json ord ops ep w]
  obtain me1 g1 w1 where s: "mesh_step vl json ord ops ep (me, w) e = Some (me1, w1)" "mesh_ok me1" "me_Engine me1 = Some g1"
    "if tells json e then overlay g1 = classified (sort_peers ep) (overlay g) (LivePeers ord (me_Membership me1))
     else overlay g1 = overlay g \<and> peers_of (me_Membership me1) = peers_of (me_Membership me)" by blast
  from Cons.IH [OF s(2) \<open>list_all wired es\<close> s(3), of w1] obtain me' g' w' where
    r: "mesh_run vl json ord ops ep (me1, w1) es = Some (me', w')" "mesh_ok me'" "me_Engine me' = Some g'"
    "if list_ex (tells json) es then overlay g' = classified (sort_peers ep) (overlay g1) (LivePeers ord (me_Membership me'))
     else overlay g' = overlay g1 \<and> peers_of (me_Membership me') = peers_of (me_Membership me1)" by blast
  have same: "LivePeers ord m = LivePeers ord m'" if "peers_of m = peers_of m'" for m m' :: "('a, 'b, mesh_fn) Membership"
    using that by (simp add: LivePeers_def)
  have "if list_ex (tells json) (e # es)
     then overlay g' = classified (sort_peers ep) (overlay g) (LivePeers ord (me_Membership me'))
     else overlay g' = overlay g \<and> peers_of (me_Membership me') = peers_of (me_Membership me)"
    using s(4) r(4) same [of "me_Membership me'" "me_Membership me1"]
    by (cases "tells json e"; cases "list_ex (tells json) es") (simp_all add: classified_def Reclassify_again)
  then show ?case using s(1) r(1-3) by auto
qed simp

section \<open>Joining and leaving\<close>

text \<open>What may change in a mesh while an extension starts: the leave callback, the log of memberlist
  calls, and the connections and handlers of the transport.\<close>

definition same_core :: "('v, 'c) Mesh \<Rightarrow> ('v, 'c) Mesh \<Rightarrow> bool" where
  "same_core me me' \<longleftrightarrow> me_Engine me' = me_Engine me \<and> me_cfg me' = me_cfg me \<and>
     map_option tr_closed (me_Transport me') = map_option tr_closed (me_Transport me) \<and>
     (me_Membership me')\<lparr>ms_onLeave := None, ml_calls := []\<rparr> = (me_Membership me)\<lparr>ms_onLeave := None, ml_calls := []\<rparr>"

definition running :: "('v, 'c) Mesh \<Rightarrow> bool" where
  "running me \<longleftrightarrow> resources (me_Membership me) = (True, True, True, True) \<and> map_option tr_closed (me_Transport me) = Some False"

definition released :: "ml_env \<Rightarrow> ('v, 'c) Mesh \<Rightarrow> bool" where
  "released env me \<longleftrightarrow> me_cancelled me \<and> (\<forall>t. me_Transport me = Some t \<longrightarrow> tr_closed t \<and> appConns t = []) \<and>
     (ml_leave env 1000 \<longrightarrow> ml_shutdown env \<longrightarrow> qt_shutdown env \<longrightarrow> \<not> ml_up (me_Membership me) \<and> \<not> qt_up (me_Membership me))"

lemma membership_core:
  assumes "m'\<lparr>ms_onLeave := None, ml_calls := []\<rparr> = m\<lparr>ms_onLeave := None, ml_calls := []\<rparr>"
  shows "resources m' = resources m" "member_ok m' = member_ok m" "ms_onChange m' = ms_onChange m" "peers_of m' = peers_of m"
  using assms by (cases m, cases m', simp add: resources_def member_ok_def peers_of_def)+

lemma same_core_ok:
  assumes "same_core me me'"
  shows "mesh_ok me' = mesh_ok me" "running me' = running me" "me_Engine me' = me_Engine me" "me_cfg me' = me_cfg me"
    "peers_of (me_Membership me') = peers_of (me_Membership me)"
  using assms membership_core [of "me_Membership me'" "me_Membership me"]
  by (simp_all add: same_core_def mesh_ok_def running_def)

lemma Membership_Stop_resources:
  "ms_list m = ml_up m \<Longrightarrow> (qt_up m \<Longrightarrow> ms_quicTransport m) \<Longrightarrow> ml_leave env 1000 \<Longrightarrow> ml_shutdown env \<Longrightarrow> qt_shutdown env \<Longrightarrow>
   \<not> ml_up (snd (Membership_Stop env m)) \<and> \<not> qt_up (snd (Membership_Stop env m))"
  by (auto simp: Membership_Stop_def StopWithTimeout_def Let_def)

lemma wire_mesh_ok:
  assumes "member_ok mem" and "resources mem = (True, True, True, True)" and "\<not> tr_closed t"
  shows "mesh_ok (wire_mesh mn mem t me)" and "running (wire_mesh mn mem t me)"
    and "me_Engine (wire_mesh mn mem t me) =
      Some (fst (Engine_New (Overlay_New (cf_NodeID (me_cfg me)) (cf_Overlay (me_cfg me))) t (cf_Engine (me_cfg me))))"
    and "peers_of (me_Membership (wire_mesh mn mem t me)) = peers_of mem"
proof -
  have s: "StartAcceptLoopAll pool u = u" for pool and u :: "engine_handler Transport"
  proof -
    have "foldl (\<lambda>u a. u) u as = u" for as :: "string list" by (induction as) simp_all
    then show ?thesis by (simp add: StartAcceptLoopAll_def split: option.split)
  qed
  have c: "tr_closed (snd (Engine_New ov t cfg)) = tr_closed t" for ov cfg
    by (simp add: Engine_New_def SetHandlers_def RegisterUniHandler_def Let_def)
  show "mesh_ok (wire_mesh mn mem t me)" "running (wire_mesh mn mem t me)"
    "peers_of (me_Membership (wire_mesh mn mem t me)) = peers_of mem"
    using assms engine_ok_New [of "Overlay_New (cf_NodeID (me_cfg me)) (cf_Overlay (me_cfg me))" t "cf_Engine (me_cfg me)"]
    by (simp_all add: wire_mesh_def mesh_ok_def running_def resources_def member_ok_def peers_of_def SetOnChange_def map_handlers_def
        s c Let_def split_beta)
  show "me_Engine (wire_mesh mn mem t me) =
      Some (fst (Engine_New (Overlay_New (cf_NodeID (me_cfg me)) (cf_Overlay (me_cfg me))) t (cf_Engine (me_cfg me))))"
    by (simp add: wire_mesh_def Let_def split_beta)
qed


lemma Start_error:
  assumes "Membership_Start vl json ord env during zeroMembership cfg = Some (Some err, m', cs)"
  shows "\<not> ml_up m' \<and> (qt_shutdown env \<longrightarrow> \<not> qt_up m')"
  using assms
  by (auto simp: Membership_Start_def zeroMembership_def Let_def resources_def
      split: option.splits if_splits dest!: member_run_resources)

text \<open>The contract of a discovery extension: started in a running mesh it returns, and it keeps to the
  parts of the mesh that \<open>same_core\<close> leaves open.\<close>

locale discovery_extension =
  fixes discovery :: "('d, ('v, 'c) Mesh) discovery option"
  assumes starts: "discovery = Some dx \<Longrightarrow> running me \<Longrightarrow> dx_Start dx me d \<noteq> None"
    and keeps: "discovery = Some dx \<Longrightarrow> running me \<Longrightarrow> dx_Start dx me d = Some (ok, me', d') \<Longrightarrow> same_core me me'"
begin

lemma start_discovery_cases:
  assumes "running me"
  obtains (started) me' d' where "start_discovery env discovery me d = Some (None, me', d')" "same_core me me'"
  | (failed) me' d' where "start_discovery env discovery me d = Some (Some JoinDiscovery, me', d')" "released env me'"
proof (cases discovery)
  case None
  then show thesis by (intro started [of me d]) (simp_all add: start_discovery_def same_core_def)
next
  case (Some dx)
  obtain ok me1 d1 where r: "dx_Start dx me d = Some (ok, me1, d1)" using starts [OF Some assms, of d] by auto
  note core = keeps [OF Some assms r]
  show thesis
  proof (cases ok)
    case True
    then show thesis using Some r core by (intro started [of me1 d1]) (simp_all add: start_discovery_def)
  next
    case False
    have "running me1" using core assms same_core_ok(2) by blast
    then obtain t where t: "me_Transport me1 = Some t" "\<not> tr_closed t" "resources (me_Membership me1) = (True, True, True, True)"
      by (auto simp: running_def)
    let ?me = "me1\<lparr>me_Transport := Some (Shutdown t), me_Membership := snd (Membership_Stop env (me_Membership me1)), me_cancelled := True\<rparr>"
    have "released env ?me"
      using Membership_Stop_resources [of "me_Membership me1" env] t(3) Shutdown_fields [of t] by (auto simp: released_def resources_def)
    then show thesis
      using Some r False t by (intro failed [of ?me d1]) (simp_all add: start_discovery_def transport_Shutdown_def)
  qed
qed

text \<open>The rest of \<open>Join\<close> once the membership layer is started.\<close>

lemma Join_started:
  assumes st: "Membership_Start vl json ord env (mn_create mn) zeroMembership (memCfg cfg tls) = Some (None, mem, cs)"
    and cfg: "mesh_withDefaults (mn_clock mn) cfg0 = cfg" "cf_TLS cfg = Some tls"
  obtains (joined) me d' where "Mesh_Join vl json ord env mn discovery cfg0 d = Some (None, me, d')"
    "mesh_ok me" "running me" "\<And>x. view (me_Membership me) x = latest_news json x (mn_create mn @ mn_before mn)"
    "\<exists>t. me_Engine me = Some (fst (Engine_New (Overlay_New (cf_NodeID cfg) (cf_Overlay cfg)) t (cf_Engine cfg)))"
  | (failed) err me d' where "Mesh_Join vl json ord env mn discovery cfg0 d = Some (Some err, me, d')" "released env me"
proof -
  note ok = Start_ok [OF st]
  obtain mem1 cs1 where r1: "member_run vl json ord mem (mn_before mn) = Some (mem1, cs1)" "member_ok mem1"
    "\<forall>x. view mem1 x = latest_news json x (mn_create mn @ mn_before mn)"
    using member_run_ok [OF ok(1,2), where es = "mn_before mn"] by blast
  have res: "resources mem1 = (True, True, True, True)" using member_run_resources [OF r1(1)] ok(3) by simp
  let ?new = "Transport_New (mn_listenUDP mn) (mn_listen mn) \<lparr>tc_TLS = True, tc_ALPN = ''''\<rparr> :: transport_error + engine_handler Transport"
  show thesis
  proof (cases ?new)
    case (Inl err)
    let ?me = "(new_mesh cfg)\<lparr>me_Membership := snd (Membership_Stop env mem1), me_cancelled := True\<rparr>"
    have "released env ?me"
      using Membership_Stop_resources [of mem1 env] res by (auto simp: released_def new_mesh_def resources_def)
    then show thesis
      using Inl cfg st r1(1) by (intro failed [of "JoinTransport err" ?me d]) (simp_all add: Mesh_Join_def Let_def)
  next
    case (Inr t)
    let ?me = "wire_mesh mn mem1 t (new_mesh cfg)"
    have "\<not> tr_closed t" using Inr by (auto simp: Transport_New_def emptyTransport_def split: if_splits)
    note w = wire_mesh_ok [OF r1(2) res this, of mn "new_mesh cfg"]
    have j: "Mesh_Join vl json ord env mn discovery cfg0 d = start_discovery env discovery ?me d"
      using Inr cfg st r1(1) by (simp add: Mesh_Join_def Let_def)
    from w(2) show thesis
    proof (cases rule: start_discovery_cases [where env = env and d = d])
      case (started me' d')
      note c = same_core_ok [OF started(2)]
      have "view (me_Membership me') x = latest_news json x (mn_create mn @ mn_before mn)" for x
        using r1(3) c(5) w(4) by (simp add: view_def)
      then show thesis using joined [of me' d'] j started(1) c(1-3) w(1-3) by (auto simp: new_mesh_def)
    next
      case (failed me' d')
      then show thesis using that(2) j by simp
    qed
  qed
qed

lemma Join_cases:
  obtains (joined) me d' where "Mesh_Join vl json ord env mn discovery cfg d = Some (None, me, d')"
    "mesh_ok me" "running me" "\<And>x. view (me_Membership me) x = latest_news json x (mn_create mn @ mn_before mn)"
    "\<exists>t. me_Engine me = Some (fst (Engine_New (Overlay_New (cf_NodeID (mesh_withDefaults (mn_clock mn) cfg)) (cf_Overlay cfg)) t (cf_Engine cfg)))"
  | (failed) err me d' where "Mesh_Join vl json ord env mn discovery cfg d = Some (Some err, me, d')" "released env me"
proof (cases "cf_TLS (mesh_withDefaults (mn_clock mn) cfg)")
  case None
  let ?me = "(new_mesh (mesh_withDefaults (mn_clock mn) cfg))\<lparr>me_cancelled := True\<rparr>"
  show thesis using None
    by (intro failed [of JoinTLS ?me d]) (simp_all add: Mesh_Join_def released_def new_mesh_def zeroMembership_def Let_def)
next
  case (Some tls)
  let ?cfg = "mesh_withDefaults (mn_clock mn) cfg"
  have cfg: "cf_Overlay ?cfg = cf_Overlay cfg" "cf_Engine ?cfg = cf_Engine cfg" by (simp_all add: mesh_withDefaults_def)
  obtain r mem cs where st: "Membership_Start vl json ord env (mn_create mn) zeroMembership (memCfg ?cfg tls) = Some (r, mem, cs)"
    using Start_total by (metis prod_cases3)
  show thesis
  proof (cases r)
    case None
    from st [unfolded None] refl Some show thesis
    proof (cases rule: Join_started [where d = d])
      case (joined me d')
      then show thesis using that(1) cfg by simp
    next
      case (failed err me d')
      then show thesis by (rule that(2))
    qed
  next
    case (Some err)
    let ?me = "(new_mesh ?cfg)\<lparr>me_Membership := mem, me_cancelled := True\<rparr>"
    have "released env ?me" using Start_error [OF st [unfolded Some]] by (simp add: released_def new_mesh_def)
    then show thesis
      using st Some \<open>cf_TLS ?cfg = Some tls\<close> by (intro failed [of "JoinMembership err" ?me d]) (simp_all add: Mesh_Join_def Let_def)
  qed
qed

end


lemma mesh_step_running:
  assumes "mesh_step vl json ord ops ep (me, w) e = Some (me', w')" and "running me"
  shows "running me'"
proof (cases e)
  case (MeshMember ev)
  then obtain mem cs where m: "member_step vl json ord (me_Membership me) ev = Some (mem, cs)"
    "me' = foldl (run_call (sort_peers ep)) (me\<lparr>me_Membership := mem\<rparr>) cs"
    using assms(1) by (auto split: option.splits)
  have keep: "running (run_call sf me c) = running me" for sf and me :: "('a, 'b) Mesh" and c
    by (cases "(sf, me, c)" rule: run_call.cases) (simp_all add: running_def)
  have "running (foldl (run_call sf) me cs) = running me" for sf and me :: "('a, 'b) Mesh"
    by (induction cs arbitrary: me) (simp_all add: keep)
  then show ?thesis using m assms(2) member_step_resources [OF m(1)] by (simp add: running_def)
next
  case (MeshEngine ev)
  then show ?thesis using assms by (auto simp: running_def Let_def split: option.splits prod.splits)
qed

lemma mesh_run_running:
  "mesh_run vl json ord ops ep mw es = Some (me', w') \<Longrightarrow> running (fst mw) \<Longrightarrow> running me'"
  by (induction es arbitrary: mw) (auto split: option.splits dest: mesh_step_running)

text \<open>Leaving a running mesh.\<close>

lemma Leave_running:
  assumes "running me"
  obtains err me' d' where "Mesh_Leave env discovery me d = Some (err, me', d')" "released env me'"
    "err = None \<Longrightarrow> \<not> ml_up (me_Membership me') \<and> \<not> qt_up (me_Membership me')"
    "\<not> ml_leave env 1000 \<Longrightarrow> err = Some LeaveFailed \<and> ml_up (me_Membership me') \<and> qt_up (me_Membership me')"
    "Mesh_Leave env discovery me' d' = None"
proof -
  let ?d = "case discovery of None \<Rightarrow> d | Some dx \<Rightarrow> dx_Stop dx d"
  obtain t where t: "me_Transport me = Some t" "\<not> tr_closed t" "resources (me_Membership me) = (True, True, True, True)"
    using assms by (auto simp: running_def)
  obtain err mem where s: "Membership_Stop env (me_Membership me) = (err, mem)" by fastforce
  let ?me = "me\<lparr>me_cancelled := True, me_Transport := Some (Shutdown t), me_Membership := mem\<rparr>"
  have "Mesh_Leave env discovery me d = Some (err, ?me, ?d)"
    using t(1,2) s by (simp add: Mesh_Leave_def transport_Shutdown_def Let_def)
  moreover have "released env ?me"
    using Membership_Stop_resources [of "me_Membership me" env] s t(3) Shutdown_fields [of t] by (auto simp: released_def resources_def)
  moreover have "err = None \<Longrightarrow> \<not> ml_up mem \<and> \<not> qt_up mem"
    and "\<not> ml_leave env 1000 \<Longrightarrow> err = Some LeaveFailed \<and> ml_up mem \<and> qt_up mem"
    using s t(3) by (auto simp: Membership_Stop_def StopWithTimeout_def Let_def resources_def split: if_splits)
  moreover have "Mesh_Leave env discovery ?me ?d = None"
    using Shutdown_fields [of t] by (simp add: Mesh_Leave_def transport_Shutdown_def Let_def)
  ultimately show thesis using that [of err ?me ?d] by simp
qed


text \<open>The events of memberlist in a run, and what they make of the peer table.\<close>

fun member_events :: "mesh_event list \<Rightarrow> mesh_fn member_event list" where
  "member_events [] = []"
| "member_events (MeshMember e # es) = e # member_events es"
| "member_events (MeshEngine e # es) = member_events es"

lemma run_calls_membership: "me_Membership (foldl (run_call sf) me cs) = me_Membership me"
proof (induction cs arbitrary: me)
  case (Cons c cs)
  have "me_Membership (run_call sf me c) = me_Membership me"
    by (cases "(sf, me, c)" rule: run_call.cases) simp_all
  then show ?case using Cons by simp
qed simp

lemma mesh_run_view:
  assumes "mesh_run vl json ord ops ep (me, w) es = Some (me', w')"
    and "member_ok (me_Membership me)" and "\<And>x. view (me_Membership me) x = latest_news json x es0"
  shows "view (me_Membership me') x = latest_news json x (es0 @ member_events es)"
  using assms
proof (induction es arbitrary: me w es0)
  case (Cons e es)
  show ?case
  proof (cases e)
    case (MeshMember ev)
    obtain mem cs where m: "member_step vl json ord (me_Membership me) ev = Some (mem, cs)" "member_ok mem"
      "\<forall>x. view mem x = (case news json x ev of None \<Rightarrow> view (me_Membership me) x | Some v \<Rightarrow> v)"
      using member_step_ok [OF Cons.prems(2)] by blast
    let ?me = "foldl (run_call (sort_peers ep)) (me\<lparr>me_Membership := mem\<rparr>) cs"
    have "mesh_run vl json ord ops ep (?me, w) es = Some (me', w')" using Cons.prems(1) MeshMember m(1) by simp
    moreover have "view (me_Membership ?me) x = latest_news json x (es0 @ [ev])" for x
      using m(3) Cons.prems(3) by (simp add: run_calls_membership latest_news_snoc split: option.split)
    ultimately show ?thesis
      using Cons.IH [of ?me w "es0 @ [ev]"] m(2) MeshMember by (simp add: run_calls_membership)
  next
    case (MeshEngine ev)
    then obtain g g1 w1 where "mesh_run vl json ord ops ep (me\<lparr>me_Engine := Some g1\<rparr>, w1) es = Some (me', w')"
      using Cons.prems(1) by (auto simp: Let_def split: option.splits prod.splits)
    from Cons.IH [OF this, of es0] show ?thesis using Cons.prems(2,3) MeshEngine by simp
  qed
qed simp

end
