(* ===== verification/ObjStore.thy ===== *)
theory ObjStore
  imports Hosts "HOL-Library.AList"
begin

text \<open>
  \<open>objstore/objstore.go\<close> and \<open>objstore/memstore.go\<close>: object storage with conditional writes.

  The Go interface \<open>ObjectStore\<close> is the record \<open>store_ops\<close> of its four operations over a state of
  any type; its clients (\<open>Bootstrap\<close>, \<open>HolePunch\<close>, \<open>S3nat\<close>) are written over it. The locale
  \<open>object_store\<close> is the contract a client relies on, stated for a function \<open>content\<close> from keys to
  data, and the in-memory store is its interpretation. A store backed by S3 may moreover fail with
  other errors, \<open>StoreFailed\<close>.
\<close>

section \<open>The interface\<close>

datatype store_error = ErrNotFound | ErrPreconditionFailed | StoreFailed

record ObjectInfo =
  Size :: int64
  ETag :: string
  LastModified :: int

record putOptions =
  ifNoneMatch :: bool
  ifMatch :: string

datatype PutOption = IfNoneMatch | IfMatch string

fun apply_option :: "putOptions \<Rightarrow> PutOption \<Rightarrow> putOptions" where
  "apply_option opt IfNoneMatch = opt\<lparr>ifNoneMatch := True\<rparr>"
| "apply_option opt (IfMatch etag) = opt\<lparr>ifMatch := etag\<rparr>"

definition resolvePutOptions :: "PutOption list \<Rightarrow> putOptions" where
  "resolvePutOptions opts = foldl apply_option \<lparr>ifNoneMatch = False, ifMatch = ''''\<rparr> opts"

record 's store_ops =
  st_put :: "'s \<Rightarrow> string \<Rightarrow> bytes \<Rightarrow> PutOption list \<Rightarrow> (store_error + ObjectInfo) \<times> 's"
  st_get :: "'s \<Rightarrow> string \<Rightarrow> store_error + (bytes \<times> ObjectInfo)"
  st_list :: "'s \<Rightarrow> string \<Rightarrow> store_error + string list"
  st_delete :: "'s \<Rightarrow> string \<Rightarrow> store_error option \<times> 's"

text \<open>The contract: plain and if-none-match writes, reads, listings in order, deletes.\<close>

locale object_store =
  fixes ops :: "'s store_ops" and content :: "'s \<Rightarrow> string \<rightharpoonup> bytes" and ok :: "'s \<Rightarrow> bool"
  assumes get_missing: "ok s \<Longrightarrow> content s k = None \<Longrightarrow> st_get ops s k = Inl ErrNotFound"
    and get_found: "ok s \<Longrightarrow> content s k = Some d \<Longrightarrow> \<exists>i. st_get ops s k = Inr (d, i)"
    and put_plain: "ok s \<Longrightarrow> \<exists>i s'. st_put ops s k d [] = (Inr i, s') \<and> ok s' \<and> content s' = (content s)(k \<mapsto> d)"
    and put_new: "ok s \<Longrightarrow> content s k = None \<Longrightarrow>
      \<exists>i s'. st_put ops s k d [IfNoneMatch] = (Inr i, s') \<and> ok s' \<and> content s' = (content s)(k \<mapsto> d)"
    and put_taken: "ok s \<Longrightarrow> content s k = Some d' \<Longrightarrow> st_put ops s k d [IfNoneMatch] = (Inl ErrPreconditionFailed, s)"
    and list_keys: "ok s \<Longrightarrow> \<exists>ks. st_list ops s p = Inr ks \<and> sorted ks \<and> distinct ks \<and>
      set ks = {k \<in> dom (content s). prefix p k}"
    and delete_key: "ok s \<Longrightarrow> \<exists>s'. st_delete ops s k = (None, s') \<and> ok s' \<and> content s' = (content s)(k := None)"
begin

lemma get_cases:
  assumes "ok s"
  obtains (missing) "st_get ops s k = Inl ErrNotFound" "content s k = None"
  | (found) d i where "st_get ops s k = Inr (d, i)" "content s k = Some d"
  using get_missing [OF assms, of k] get_found [OF assms, of k] by (cases "content s k") auto

lemma put_new_cases:
  assumes "ok s"
  obtains (stored) i s' where "st_put ops s k d [IfNoneMatch] = (Inr i, s')" "ok s'" "content s k = None"
    "content s' = (content s)(k \<mapsto> d)"
  | (taken) d' where "st_put ops s k d [IfNoneMatch] = (Inl ErrPreconditionFailed, s)" "content s k = Some d'"
  using put_new [OF assms, of k d] put_taken [OF assms, of k _ d] by (cases "content s k") auto

lemma put_new_stored:
  assumes "ok s" and "st_put ops s k d [IfNoneMatch] = (Inr i, s')"
  shows "ok s'" "content s k = None" "content s' = (content s)(k \<mapsto> d)"
proof -
  have "ok s' \<and> content s k = None \<and> content s' = (content s)(k \<mapsto> d)"
    by (rule put_new_cases [OF assms(1), of k d]) (use assms(2) in simp_all)
  then show "ok s'" "content s k = None" "content s' = (content s)(k \<mapsto> d)" by blast+
qed

lemma put_new_refused:
  assumes "ok s" and "st_put ops s k d [IfNoneMatch] = (Inl e, s')"
  shows "s' = s" "e = ErrPreconditionFailed"
proof -
  have "s' = s \<and> e = ErrPreconditionFailed"
    by (rule put_new_cases [OF assms(1), of k d]) (use assms(2) in simp_all)
  then show "s' = s" "e = ErrPreconditionFailed" by blast+
qed

text \<open>A listing is determined by the content.\<close>

lemma list_eq:
  assumes "ok s" and "sorted ks" and "distinct ks" and "set ks = {k \<in> dom (content s). prefix p k}"
  shows "st_list ops s p = Inr ks"
  using list_keys [OF assms(1), of p] assms(2-4) by (metis sorted_distinct_set_unique)

end

section \<open>The store in memory\<close>

record memObject =
  mo_data :: bytes
  mo_etag :: string
  mo_lastModified :: int

record MemoryObjectStore =
  objects :: "(string \<times> memObject) list"
  version :: uint64

definition NewMemoryObjectStore :: MemoryObjectStore where
  "NewMemoryObjectStore = \<lparr>objects = [], version = 0\<rparr>"

definition nextETag :: "MemoryObjectStore \<Rightarrow> string \<times> MemoryObjectStore" where
  "nextETag s = (''v'' @ dec_nat (unat (version s)), s\<lparr>version := version s + 1\<rparr>)"

text \<open>\<open>now\<close> is the time of the call.\<close>

definition MemoryObjectStore_Put ::
  "int \<Rightarrow> MemoryObjectStore \<Rightarrow> string \<Rightarrow> bytes \<Rightarrow> PutOption list \<Rightarrow> (store_error + ObjectInfo) \<times> MemoryObjectStore" where
  "MemoryObjectStore_Put now s key data opts =
     (let opt = resolvePutOptions opts; existing = map_of (objects s) key in
      if ifNoneMatch opt \<and> existing \<noteq> None then (Inl ErrPreconditionFailed, s)
      else if ifMatch opt \<noteq> '''' \<and> existing = None then (Inl ErrNotFound, s)
      else if ifMatch opt \<noteq> '''' \<and> map_option mo_etag existing \<noteq> Some (ifMatch opt) then (Inl ErrPreconditionFailed, s)
      else (let (etag, s1) = nextETag s;
                obj = \<lparr>mo_data = data, mo_etag = etag, mo_lastModified = now\<rparr>
            in (Inr \<lparr>Size = of_nat (length data), ETag = etag, LastModified = 0\<rparr>,
                s1\<lparr>objects := AList.update key obj (objects s1)\<rparr>)))"

definition MemoryObjectStore_Get ::
  "MemoryObjectStore \<Rightarrow> string \<Rightarrow> store_error + (bytes \<times> ObjectInfo)" where
  "MemoryObjectStore_Get s key =
     (case map_of (objects s) key of
        None \<Rightarrow> Inl ErrNotFound
      | Some obj \<Rightarrow> Inr (mo_data obj, \<lparr>Size = of_nat (length (mo_data obj)), ETag = mo_etag obj,
                                     LastModified = mo_lastModified obj\<rparr>))"

definition MemoryObjectStore_List :: "MemoryObjectStore \<Rightarrow> string \<Rightarrow> store_error + string list" where
  "MemoryObjectStore_List s pre = Inr (sort (filter (prefix pre) (map fst (objects s))))"

definition MemoryObjectStore_Delete :: "MemoryObjectStore \<Rightarrow> string \<Rightarrow> store_error option \<times> MemoryObjectStore" where
  "MemoryObjectStore_Delete s key = (None, s\<lparr>objects := AList.delete key (objects s)\<rparr>)"

definition mem_ops :: "int \<Rightarrow> MemoryObjectStore store_ops" where
  "mem_ops now = \<lparr>st_put = MemoryObjectStore_Put now, st_get = MemoryObjectStore_Get,
     st_list = MemoryObjectStore_List, st_delete = MemoryObjectStore_Delete\<rparr>"

section \<open>The contract in memory\<close>

definition mem_content :: "MemoryObjectStore \<Rightarrow> string \<rightharpoonup> bytes" where
  "mem_content s k = map_option mo_data (map_of (objects s) k)"

definition mem_ok :: "MemoryObjectStore \<Rightarrow> bool" where
  "mem_ok s \<longleftrightarrow> distinct (map fst (objects s))"

lemma resolve_simps [simp]:
  "resolvePutOptions [] = \<lparr>ifNoneMatch = False, ifMatch = ''''\<rparr>"
  "resolvePutOptions [IfNoneMatch] = \<lparr>ifNoneMatch = True, ifMatch = ''''\<rparr>"
  "resolvePutOptions [IfMatch e] = \<lparr>ifNoneMatch = False, ifMatch = e\<rparr>"
  by (simp_all add: resolvePutOptions_def)

text \<open>A write that passes its conditions.\<close>

lemma Put_store:
  assumes "MemoryObjectStore_Put now s k d opts = (Inr i, s')"
  shows "mem_content s' = (mem_content s)(k \<mapsto> d)" "mem_ok s \<Longrightarrow> mem_ok s'"
    "map_of (objects s') k = Some \<lparr>mo_data = d, mo_etag = ETag i, mo_lastModified = now\<rparr>"
    "\<And>k'. k' \<noteq> k \<Longrightarrow> map_of (objects s') k' = map_of (objects s) k'"
    "ETag i = ''v'' @ dec_nat (unat (version s))" "version s' = version s + 1"
proof -
  have s': "s' = s\<lparr>version := version s + 1, objects := AList.update k
      \<lparr>mo_data = d, mo_etag = ''v'' @ dec_nat (unat (version s)), mo_lastModified = now\<rparr> (objects s)\<rparr>"
    and i: "ETag i = ''v'' @ dec_nat (unat (version s))"
    using assms by (auto simp: MemoryObjectStore_Put_def nextETag_def Let_def split: if_splits)
  show "mem_content s' = (mem_content s)(k \<mapsto> d)" by (auto simp: s' mem_content_def update_conv' fun_eq_iff)
  show "mem_ok s \<Longrightarrow> mem_ok s'" by (simp add: s' mem_ok_def distinct_update)
  show "map_of (objects s') k = Some \<lparr>mo_data = d, mo_etag = ETag i, mo_lastModified = now\<rparr>"
    by (simp add: s' i update_conv')
  show "k' \<noteq> k \<Longrightarrow> map_of (objects s') k' = map_of (objects s) k'" for k' by (simp add: s' update_conv')
  show "ETag i = ''v'' @ dec_nat (unat (version s))" by (rule i)
  show "version s' = version s + 1" by (simp add: s')
qed

lemma Put_error: "MemoryObjectStore_Put now s k d opts = (Inl e, s') \<Longrightarrow> s' = s"
  by (auto simp: MemoryObjectStore_Put_def Let_def split: if_splits prod.splits)

lemma dom_mem_content: "dom (mem_content s) = fst ` set (objects s)"
  by (auto simp: mem_content_def dom_map_of_conv_image_fst [symmetric])

interpretation mem: object_store "mem_ops now" mem_content mem_ok for now
proof
  fix s k d d' p
  assume ok: "mem_ok s"
  show "mem_content s k = None \<Longrightarrow> st_get (mem_ops now) s k = Inl ErrNotFound"
    by (simp add: mem_ops_def MemoryObjectStore_Get_def mem_content_def)
  show "mem_content s k = Some d \<Longrightarrow> \<exists>i. st_get (mem_ops now) s k = Inr (d, i)"
    by (auto simp: mem_ops_def MemoryObjectStore_Get_def mem_content_def)
  obtain i s' where plain: "MemoryObjectStore_Put now s k d [] = (Inr i, s')"
    by (simp add: MemoryObjectStore_Put_def nextETag_def Let_def)
  show "\<exists>i s'. st_put (mem_ops now) s k d [] = (Inr i, s') \<and> mem_ok s' \<and> mem_content s' = (mem_content s)(k \<mapsto> d)"
    using plain Put_store(1,2) [OF plain] ok by (simp add: mem_ops_def)
  show "\<exists>i s'. st_put (mem_ops now) s k d [IfNoneMatch] = (Inr i, s') \<and> mem_ok s' \<and> mem_content s' = (mem_content s)(k \<mapsto> d)"
    if none: "mem_content s k = None"
  proof -
    obtain i s' where p: "MemoryObjectStore_Put now s k d [IfNoneMatch] = (Inr i, s')"
      using none by (simp add: MemoryObjectStore_Put_def nextETag_def mem_content_def Let_def)
    then show ?thesis using Put_store(1,2) [OF p] ok by (simp add: mem_ops_def)
  qed
  show "mem_content s k = Some d' \<Longrightarrow> st_put (mem_ops now) s k d [IfNoneMatch] = (Inl ErrPreconditionFailed, s)"
    by (auto simp: mem_ops_def MemoryObjectStore_Put_def mem_content_def Let_def)
  show "\<exists>ks. st_list (mem_ops now) s p = Inr ks \<and> sorted ks \<and> distinct ks \<and> set ks = {k \<in> dom (mem_content s). prefix p k}"
    using ok by (auto simp: mem_ops_def MemoryObjectStore_List_def dom_mem_content mem_ok_def)
  show "\<exists>s'. st_delete (mem_ops now) s k = (None, s') \<and> mem_ok s' \<and> mem_content s' = (mem_content s)(k := None)"
    using ok by (auto simp: mem_ops_def MemoryObjectStore_Delete_def mem_ok_def mem_content_def delete_conv' distinct_delete fun_eq_iff)
qed

section \<open>Optimistic updates\<close>

datatype store_op = OpPut int string bytes "PutOption list" | OpDelete string

fun store_step :: "MemoryObjectStore \<Rightarrow> store_op \<Rightarrow> MemoryObjectStore" where
  "store_step s (OpPut now k d opts) = snd (MemoryObjectStore_Put now s k d opts)"
| "store_step s (OpDelete k) = snd (MemoryObjectStore_Delete s k)"

definition store_run :: "MemoryObjectStore \<Rightarrow> store_op list \<Rightarrow> MemoryObjectStore" where
  "store_run s steps = foldl store_step s steps"

text \<open>Whether a run writes or deletes a key: failed conditional writes do not count.\<close>

fun touches :: "string \<Rightarrow> MemoryObjectStore \<Rightarrow> store_op \<Rightarrow> bool" where
  "touches k s (OpPut now k' d opts) \<longleftrightarrow> k' = k \<and> \<not> isl (fst (MemoryObjectStore_Put now s k' d opts))"
| "touches k s (OpDelete k') \<longleftrightarrow> k' = k"

fun touched :: "string \<Rightarrow> MemoryObjectStore \<Rightarrow> store_op list \<Rightarrow> bool" where
  "touched k s [] = False"
| "touched k s (x # xs) \<longleftrightarrow> touches k s x \<or> touched k (store_step s x) xs"

definition tag :: "nat \<Rightarrow> string" where
  "tag n = ''v'' @ dec_nat n"

lemma tag_inject [simp]: "tag m = tag n \<longleftrightarrow> m = n"
  by (simp add: tag_def)

text \<open>Every stored entity tag is that of an earlier version.\<close>

definition tags_inv :: "MemoryObjectStore \<Rightarrow> bool" where
  "tags_inv s \<longleftrightarrow> (\<forall>k obj. map_of (objects s) k = Some obj \<longrightarrow> (\<exists>n < unat (version s). mo_etag obj = tag n))"

text \<open>One step: the version grows by at most one, other keys keep their object, and the step touches
  the key by removing it or giving it the next tag.\<close>

lemma store_step_cases:
  assumes "unat (version s) + 1 < 2 ^ 64" and "s' = store_step s x"
  shows "unat (version s) \<le> unat (version s')" "unat (version s') \<le> unat (version s) + 1"
    "\<not> touches k s x \<Longrightarrow> map_of (objects s') k = map_of (objects s) k"
    "touches k s x \<Longrightarrow> map_of (objects s') k = None \<or>
       (\<exists>obj. map_of (objects s') k = Some obj \<and> mo_etag obj = tag (unat (version s)) \<and>
          unat (version s') = unat (version s) + 1)"
proof -
  have suc: "unat (version s + 1) = unat (version s) + 1"
    using assms(1) by (simp add: unat_word_ariths)
  have "unat (version s) \<le> unat (version s') \<and> unat (version s') \<le> unat (version s) + 1 \<and>
    (\<not> touches k s x \<longrightarrow> map_of (objects s') k = map_of (objects s) k) \<and>
    (touches k s x \<longrightarrow> map_of (objects s') k = None \<or>
       (\<exists>obj. map_of (objects s') k = Some obj \<and> mo_etag obj = tag (unat (version s)) \<and>
          unat (version s') = unat (version s) + 1))"
  proof (cases x)
    case (OpPut now k' d opts)
    show ?thesis
    proof (cases "MemoryObjectStore_Put now s k' d opts")
      case (Pair r s1)
      then have s1: "s' = s1" using assms(2) OpPut by simp
      show ?thesis
      proof (cases r)
        case (Inl e)
        then show ?thesis using Put_error [of now s k' d opts e s1] Pair s1 OpPut by simp
      next
        case (Inr i)
        note st = Put_store [OF Pair [unfolded Inr]]
        then show ?thesis using Pair Inr s1 OpPut suc by (cases "k' = k") (auto simp: tag_def)
      qed
    qed
  next
    case (OpDelete k')
    then show ?thesis using assms(2) by (auto simp: MemoryObjectStore_Delete_def delete_conv')
  qed
  then show "unat (version s) \<le> unat (version s')" "unat (version s') \<le> unat (version s) + 1"
    "\<not> touches k s x \<Longrightarrow> map_of (objects s') k = map_of (objects s) k"
    "touches k s x \<Longrightarrow> map_of (objects s') k = None \<or>
       (\<exists>obj. map_of (objects s') k = Some obj \<and> mo_etag obj = tag (unat (version s)) \<and>
          unat (version s') = unat (version s) + 1)"
    by blast+
qed

lemma tags_inv_step:
  assumes "tags_inv s" and "unat (version s) + 1 < 2 ^ 64"
  shows "tags_inv (store_step s x)"
  unfolding tags_inv_def
proof (intro allI impI)
  fix k obj
  assume o: "map_of (objects (store_step s x)) k = Some obj"
  note c = store_step_cases(1,2) [OF assms(2) refl, of x] store_step_cases(3,4) [OF assms(2) refl, of k x]
  show "\<exists>n < unat (version (store_step s x)). mo_etag obj = tag n"
  proof (cases "touches k s x")
    case True
    then show ?thesis using c(4) o by auto
  next
    case False
    then have "map_of (objects s) k = Some obj" using c(3) o by simp
    then obtain n where "n < unat (version s)" "mo_etag obj = tag n" using assms(1) unfolding tags_inv_def by blast
    then show ?thesis using c(1) by (intro exI [of _ n]) simp
  qed
qed

lemma tags_inv_run:
  assumes "tags_inv s" and "unat (version s) + length steps < 2 ^ 64"
  shows "tags_inv (store_run s steps) \<and> unat (version (store_run s steps)) \<le> unat (version s) + length steps"
  using assms
proof (induction steps arbitrary: s)
  case (Cons x xs)
  have b: "unat (version s) + 1 < 2 ^ 64" using Cons.prems(2) by simp
  note c = store_step_cases(1,2) [OF b refl, of x]
  show ?case using Cons.IH [OF tags_inv_step [OF Cons.prems(1) b, of x]] c Cons.prems(2) by (simp add: store_run_def)
qed (simp add: store_run_def)

text \<open>After a run a key that was touched is missing or has a newer tag; one that was not is the same.\<close>

lemma touched_run:
  assumes "unat (version s) + length steps < 2 ^ 64"
  shows "(\<not> touched k s steps \<longrightarrow> map_of (objects (store_run s steps)) k = map_of (objects s) k) \<and>
    (touched k s steps \<longrightarrow> map_of (objects (store_run s steps)) k = None \<or>
      (\<exists>obj n. map_of (objects (store_run s steps)) k = Some obj \<and> mo_etag obj = tag n \<and> unat (version s) \<le> n))"
  using assms
proof (induction steps arbitrary: s)
  case (Cons x xs)
  have b: "unat (version s) + 1 < 2 ^ 64" using Cons.prems by simp
  let ?s = "store_step s x"
  note c = store_step_cases(1,2) [OF b refl, of x] store_step_cases(3,4) [OF b refl, of k x]
  have IH: "(\<not> touched k ?s xs \<longrightarrow> map_of (objects (store_run ?s xs)) k = map_of (objects ?s) k) \<and>
    (touched k ?s xs \<longrightarrow> map_of (objects (store_run ?s xs)) k = None \<or>
      (\<exists>obj n. map_of (objects (store_run ?s xs)) k = Some obj \<and> mo_etag obj = tag n \<and> unat (version ?s) \<le> n))"
    using c(2) Cons.prems by (intro Cons.IH) simp
  have r: "store_run s (x # xs) = store_run ?s xs" by (simp add: store_run_def)
  show ?case
  proof (cases "touched k ?s xs")
    case True
    then have "map_of (objects (store_run ?s xs)) k = None \<or>
        (\<exists>obj n. map_of (objects (store_run ?s xs)) k = Some obj \<and> mo_etag obj = tag n \<and> unat (version s) \<le> n)"
      using IH c(1) by (meson order_trans)
    then show ?thesis using True r by simp
  next
    case False
    then have "map_of (objects (store_run ?s xs)) k = map_of (objects ?s) k" using IH by simp
    then show ?thesis using False r c(3,4) by auto
  qed
qed (simp add: store_run_def)

section \<open>Properties\<close>

text \<open>C32: no lost updates. Read an object, let any sequence of writes and deletes happen, then write it
  back on condition of the entity tag that was read: the write succeeds if and only if the object
  was not written or deleted in between, and otherwise fails without changing the store. The
  version counter must not wrap: fewer than 2^64 operations in total.\<close>

theorem IfMatch_no_lost_update:
  assumes "s = store_run NewMemoryObjectStore before" and "MemoryObjectStore_Get s k = Inr (d, i)"
    and "length before + length between < 2 ^ 64"
  shows "let r = MemoryObjectStore_Put now (store_run s between) k d' [IfMatch (ETag i)]
    in (isl (fst r) \<longleftrightarrow> touched k s between) \<and> (isl (fst r) \<longrightarrow> snd r = store_run s between) \<and>
       (\<not> isl (fst r) \<longrightarrow> mem_content (snd r) = (mem_content (store_run s between))(k \<mapsto> d'))"
proof -
  let ?s2 = "store_run s between"
  have "tags_inv NewMemoryObjectStore" by (simp add: tags_inv_def NewMemoryObjectStore_def)
  then have inv: "tags_inv s" "unat (version s) \<le> length before"
    using tags_inv_run [of NewMemoryObjectStore before] assms(1,3) by (simp_all add: NewMemoryObjectStore_def)
  obtain obj where obj: "map_of (objects s) k = Some obj" "mo_etag obj = ETag i"
    using assms(2) by (auto simp: MemoryObjectStore_Get_def split: option.splits)
  then obtain n where n: "n < unat (version s)" "ETag i = tag n" using inv(1) unfolding tags_inv_def by metis
  have ne: "tag n \<noteq> ''''" by (simp add: tag_def)
  note t = touched_run [of s between k]
  obtain r s3 where p: "MemoryObjectStore_Put now ?s2 k d' [IfMatch (ETag i)] = (r, s3)" by fastforce
  have "isl r \<longleftrightarrow> touched k s between"
  proof (cases "touched k s between")
    case True
    then have "map_option mo_etag (map_of (objects ?s2) k) \<noteq> Some (tag n)"
      using t inv(2) assms(3) n(1) by auto
    then show ?thesis using True p n(2) ne by (auto simp: MemoryObjectStore_Put_def Let_def split: if_splits)
  next
    case False
    then have "map_of (objects ?s2) k = Some obj" using t inv(2) assms(3) obj(1) by simp
    then show ?thesis using False p n(2) ne obj(2) by (auto simp: MemoryObjectStore_Put_def Let_def split: if_splits prod.splits)
  qed
  moreover have "isl r \<Longrightarrow> s3 = ?s2" using p Put_error by (auto simp: isl_def)
  moreover have "\<not> isl r \<Longrightarrow> mem_content s3 = (mem_content ?s2)(k \<mapsto> d')"
    using p Put_store(1) by (cases r) auto
  ultimately show ?thesis by (simp add: p)
qed

definition sampleOps :: "store_op list" where
  "sampleOps = [OpPut 1 ''a'' [1] [], OpPut 2 ''b'' [2] []]"

theorem IfMatch_no_lost_update_witness:
  "let s = store_run NewMemoryObjectStore sampleOps
   in isl (fst (MemoryObjectStore_Put 4 (store_run s [OpPut 3 ''a'' [3] []]) ''a'' [4] [IfMatch ''v0''])) \<and>
      \<not> isl (fst (MemoryObjectStore_Put 4 (store_run s [OpPut 3 ''b'' [3] []]) ''a'' [4] [IfMatch ''v0'']))"
proof -
  let ?s = "store_run NewMemoryObjectStore sampleOps"
  have g: "MemoryObjectStore_Get ?s ''a'' = Inr ([1], \<lparr>Size = 1, ETag = ''v0'', LastModified = 1\<rparr>)"
    by code_simp
  have t: "touched ''a'' ?s [OpPut 3 ''a'' [3] []]" "\<not> touched ''a'' ?s [OpPut 3 ''b'' [3] []]"
    by code_simp+
  show ?thesis
    using IfMatch_no_lost_update [OF refl g, of "[OpPut 3 ''a'' [3] []]" 4 "[4]"]
      IfMatch_no_lost_update [OF refl g, of "[OpPut 3 ''b'' [3] []]" 4 "[4]"] t
    by (simp add: sampleOps_def Let_def)
qed

end
