(* ===== verification/Bootstrap.thy ===== *)
theory Bootstrap
  imports ObjStore
begin

text \<open>
  \<open>bootstrap/registry.go\<close> and \<open>bootstrap/tls.go\<close>: the registry of nodes and the cluster's
  certificate authority in an object store.

  The operations are written over any \<open>store_ops\<close>. JSON encoding (\<open>encoding/json\<close>) and certificate
  generation (\<open>tlsutil\<close>) are parameters. \<open>getOrCreateCA\<close> calls itself when it loses a race and may
  not return, so it is a partial function; \<open>ca_action\<close> cuts the same body at its store operations,
  which are the points where calls on different nodes interleave.
\<close>

section \<open>The registry\<close>

definition nodePrefix :: string where "nodePrefix = ''nodes/''"

text \<open>The zero time is \<open>None\<close>.\<close>

record NodeRegistration =
  nr_NodeID :: string
  nr_Addrs :: "string list"
  nr_PublicAddr :: string
  nr_IsRelay :: bool
  nr_RegisteredAt :: "int option"

datatype registry_error = MarshalRegistration | PutRegistration store_error | ListNodes store_error
  | GetNode string store_error

record reg_codec =
  rc_marshal :: "NodeRegistration \<Rightarrow> bytes option"
  rc_unmarshal :: "bytes \<Rightarrow> NodeRegistration option"

definition Register ::
  "'s store_ops \<Rightarrow> reg_codec \<Rightarrow> int \<Rightarrow> 's \<Rightarrow> NodeRegistration \<Rightarrow> registry_error option \<times> 's" where
  "Register ops json now s reg =
     (let reg = (if nr_RegisteredAt reg = None then reg\<lparr>nr_RegisteredAt := Some now\<rparr> else reg) in
      case rc_marshal json reg of
        None \<Rightarrow> (Some MarshalRegistration, s)
      | Some data \<Rightarrow>
          (case st_put ops s (nodePrefix @ nr_NodeID reg) data [] of
             (Inl err, s1) \<Rightarrow> (Some (PutRegistration err), s1)
           | (Inr _, s1) \<Rightarrow> (None, s1)))"

definition Deregister :: "'s store_ops \<Rightarrow> 's \<Rightarrow> string \<Rightarrow> store_error option \<times> 's" where
  "Deregister ops s nodeID = st_delete ops s (nodePrefix @ nodeID)"

fun discover_loop ::
  "'s store_ops \<Rightarrow> reg_codec \<Rightarrow> 's \<Rightarrow> string list \<Rightarrow> NodeRegistration list \<Rightarrow> registry_error + NodeRegistration list" where
  "discover_loop ops json s [] peers = Inr peers"
| "discover_loop ops json s (key # keys) peers =
     (case st_get ops s key of
        Inl err \<Rightarrow>
          if err = ErrNotFound then discover_loop ops json s keys peers else Inl (GetNode key err)
      | Inr (data, _) \<Rightarrow>
          (case rc_unmarshal json data of
             None \<Rightarrow> discover_loop ops json s keys peers
           | Some reg \<Rightarrow> discover_loop ops json s keys (peers @ [reg])))"

definition DiscoverPeers :: "'s store_ops \<Rightarrow> reg_codec \<Rightarrow> 's \<Rightarrow> registry_error + NodeRegistration list" where
  "DiscoverPeers ops json s =
     (case st_list ops s nodePrefix of
        Inl err \<Rightarrow> Inl (ListNodes err)
      | Inr keys \<Rightarrow> discover_loop ops json s keys [])"

section \<open>The certificate authority\<close>

definition caKeyPath :: string where "caKeyPath = ''ca/key.pem''"
definition caCertPath :: string where "caCertPath = ''ca/cert.pem''"

datatype ca_error = GetCA store_error | GenerateCA | StoreCert store_error | StoreKey store_error

text \<open>The two reads, and what follows when one of them finds nothing: a generated authority is
  stored; \<open>None\<close> means that another node was first.\<close>

definition ca_lookup :: "'s store_ops \<Rightarrow> 's \<Rightarrow> store_error + bytes \<times> bytes" where
  "ca_lookup ops s =
     (case st_get ops s caCertPath of
        Inl err \<Rightarrow> Inl err
      | Inr (cert, _) \<Rightarrow>
          (case st_get ops s caKeyPath of
             Inl err \<Rightarrow> Inl err
           | Inr (key, _) \<Rightarrow> Inr (cert, key)))"

definition ca_create ::
  "'s store_ops \<Rightarrow> (bytes \<times> bytes) option \<Rightarrow> 's \<Rightarrow> (ca_error + bytes \<times> bytes) option \<times> 's" where
  "ca_create ops generated s =
     (case generated of
        None \<Rightarrow> (Some (Inl GenerateCA), s)
      | Some (cert, key) \<Rightarrow>
          (case st_put ops s caCertPath cert [IfNoneMatch] of
             (Inl err, s1) \<Rightarrow> (if err = ErrPreconditionFailed then None else Some (Inl (StoreCert err)), s1)
           | (Inr _, s1) \<Rightarrow>
               (case st_put ops s1 caKeyPath key [IfNoneMatch] of
                  (Inl err, s2) \<Rightarrow> (if err = ErrPreconditionFailed then None else Some (Inl (StoreKey err)), s2)
                | (Inr _, s2) \<Rightarrow> (Some (Inr (cert, key)), s2))))"

text \<open>\<open>gen n\<close> is the certificate and key that the \<open>n\<close>th generation gives; the result says how many
  were generated.\<close>

partial_function (option) getOrCreateCA ::
  "'s store_ops \<Rightarrow> (nat \<Rightarrow> (bytes \<times> bytes) option) \<Rightarrow> nat \<Rightarrow> 's \<Rightarrow> ((ca_error + bytes \<times> bytes) \<times> nat \<times> 's) option" where
  "getOrCreateCA ops gen n s =
     (case ca_lookup ops s of
        Inr ca \<Rightarrow> Some (Inr ca, n, s)
      | Inl err \<Rightarrow>
          if err \<noteq> ErrNotFound then Some (Inl (GetCA err), n, s)
          else (case ca_create ops (gen n) s of
                  (Some r, s1) \<Rightarrow> Some (r, Suc n, s1)
                | (None, s1) \<Rightarrow> getOrCreateCA ops gen (Suc n) s1))"

definition GetCACert ::
  "'s store_ops \<Rightarrow> (nat \<Rightarrow> (bytes \<times> bytes) option) \<Rightarrow> nat \<Rightarrow> 's \<Rightarrow> ((ca_error + bytes \<times> bytes) \<times> nat \<times> 's) option" where
  "GetCACert ops gen n s = getOrCreateCA ops gen n s"

datatype tls_error = StoreRequired | ClusterCA ca_error | GenerateNodeCert | CreateMutualTLS

text \<open>The functions of \<open>tlsutil\<close>: a node certificate with addresses signed by the authority, and the
  configuration made from it.\<close>

record 'c tls_util =
  GenerateNodeCertWithIPs :: "bytes \<Rightarrow> bytes \<Rightarrow> string \<Rightarrow> string list \<Rightarrow> (bytes \<times> bytes) option"
  MutualTLSConfig :: "bytes \<Rightarrow> bytes \<Rightarrow> bytes \<Rightarrow> 'c option"

text \<open>\<open>ops\<close> is \<open>None\<close> for a nil store.\<close>

definition SetupClusterTLS ::
  "'s store_ops option \<Rightarrow> 'c tls_util \<Rightarrow> (nat \<Rightarrow> (bytes \<times> bytes) option) \<Rightarrow> 's \<Rightarrow> string \<Rightarrow> string list \<Rightarrow>
     ((tls_error + 'c) \<times> 's) option" where
  "SetupClusterTLS ops tls gen s nodeID ips =
     (case ops of
        None \<Rightarrow> Some (Inl StoreRequired, s)
      | Some ops \<Rightarrow>
          (case getOrCreateCA ops gen 0 s of
             None \<Rightarrow> None
           | Some (Inl err, _, s1) \<Rightarrow> Some (Inl (ClusterCA err), s1)
           | Some (Inr (caCert, caKey), _, s1) \<Rightarrow>
               (case GenerateNodeCertWithIPs tls caCert caKey nodeID ips of
                  None \<Rightarrow> Some (Inl GenerateNodeCert, s1)
                | Some (nodeCert, nodeKey) \<Rightarrow>
                    (case MutualTLSConfig tls nodeCert nodeKey caCert of
                       None \<Rightarrow> Some (Inl CreateMutualTLS, s1)
                     | Some cfg \<Rightarrow> Some (Inr cfg, s1)))))"

subsection \<open>Concurrent calls\<close>

text \<open>Where a call of \<open>getOrCreateCA\<close> is: before one of its store operations, or returned.\<close>

datatype ca_pc = CaGetCert | CaGetKey bytes | CaPutCert bytes bytes | CaPutKey bytes bytes
  | CaDone "ca_error + bytes \<times> bytes"

record ca_call =
  ca_pc :: ca_pc
  ca_gens :: nat

definition ca_not_found :: "(nat \<Rightarrow> (bytes \<times> bytes) option) \<Rightarrow> ca_call \<Rightarrow> store_error \<Rightarrow> ca_call" where
  "ca_not_found gen c err =
     (if err \<noteq> ErrNotFound then c\<lparr>ca_pc := CaDone (Inl (GetCA err))\<rparr>
      else (case gen (ca_gens c) of
              None \<Rightarrow> c\<lparr>ca_pc := CaDone (Inl GenerateCA), ca_gens := Suc (ca_gens c)\<rparr>
            | Some (cert, key) \<Rightarrow> c\<lparr>ca_pc := CaPutCert cert key, ca_gens := Suc (ca_gens c)\<rparr>))"

text \<open>What a call does with the answer of its store operation.\<close>

definition ca_put_answer :: "ca_call \<Rightarrow> (store_error \<Rightarrow> ca_error) \<Rightarrow> ca_pc \<Rightarrow> store_error + ObjectInfo \<Rightarrow> ca_call" where
  "ca_put_answer c fail succ r =
     c\<lparr>ca_pc := (case r of
        Inr _ \<Rightarrow> succ
      | Inl err \<Rightarrow> if err = ErrPreconditionFailed then CaGetCert else CaDone (Inl (fail err)))\<rparr>"

definition ca_action :: "'s store_ops \<Rightarrow> (nat \<Rightarrow> (bytes \<times> bytes) option) \<Rightarrow> 's \<Rightarrow> ca_call \<Rightarrow> 's \<times> ca_call" where
  "ca_action ops gen s c =
     (case ca_pc c of
        CaGetCert \<Rightarrow>
          (s, case st_get ops s caCertPath of
                Inr (cert, _) \<Rightarrow> c\<lparr>ca_pc := CaGetKey cert\<rparr>
              | Inl err \<Rightarrow> ca_not_found gen c err)
      | CaGetKey cert \<Rightarrow>
          (s, case st_get ops s caKeyPath of
                Inr (key, _) \<Rightarrow> c\<lparr>ca_pc := CaDone (Inr (cert, key))\<rparr>
              | Inl err \<Rightarrow> ca_not_found gen c err)
      | CaPutCert cert key \<Rightarrow>
          (let (r, s1) = st_put ops s caCertPath cert [IfNoneMatch]
           in (s1, ca_put_answer c StoreCert (CaPutKey cert key) r))
      | CaPutKey cert key \<Rightarrow>
          (let (r, s1) = st_put ops s caKeyPath key [IfNoneMatch]
           in (s1, ca_put_answer c StoreKey (CaDone (Inr (cert, key))) r))
      | CaDone r \<Rightarrow> (s, c))"

text \<open>A store operation may also fail with an error of the store; a write that fails so may have taken
  effect all the same (\<open>took\<close>).\<close>

definition ca_failure :: "'s store_ops \<Rightarrow> bool \<Rightarrow> 's \<Rightarrow> ca_call \<Rightarrow> 's \<times> ca_call" where
  "ca_failure ops took s c =
     (case ca_pc c of
        CaGetCert \<Rightarrow> (s, c\<lparr>ca_pc := CaDone (Inl (GetCA StoreFailed))\<rparr>)
      | CaGetKey cert \<Rightarrow> (s, c\<lparr>ca_pc := CaDone (Inl (GetCA StoreFailed))\<rparr>)
      | CaPutCert cert key \<Rightarrow>
          (if took then snd (st_put ops s caCertPath cert [IfNoneMatch]) else s, c\<lparr>ca_pc := CaDone (Inl (StoreCert StoreFailed))\<rparr>)
      | CaPutKey cert key \<Rightarrow>
          (if took then snd (st_put ops s caKeyPath key [IfNoneMatch]) else s, c\<lparr>ca_pc := CaDone (Inl (StoreKey StoreFailed))\<rparr>)
      | CaDone r \<Rightarrow> (s, c))"

datatype ca_event = CaAct nat | CaFault nat bool

definition new_call :: ca_call where
  "new_call = \<lparr>ca_pc = CaGetCert, ca_gens = 0\<rparr>"

text \<open>Node \<open>i\<close> generates with \<open>gen i\<close>; the state is the store and the calls of the nodes.\<close>

fun ca_step ::
  "'s store_ops \<Rightarrow> (nat \<Rightarrow> nat \<Rightarrow> (bytes \<times> bytes) option) \<Rightarrow> 's \<times> (nat \<Rightarrow> ca_call) \<Rightarrow> ca_event \<Rightarrow> 's \<times> (nat \<Rightarrow> ca_call)" where
  "ca_step ops gen (s, cs) (CaAct i) =
     (let (s1, c) = ca_action ops (gen i) s (cs i) in (s1, cs(i := c)))"
| "ca_step ops gen (s, cs) (CaFault i took) =
     (let (s1, c) = ca_failure ops took s (cs i) in (s1, cs(i := c)))"

definition ca_run ::
  "'s store_ops \<Rightarrow> (nat \<Rightarrow> nat \<Rightarrow> (bytes \<times> bytes) option) \<Rightarrow> 's \<Rightarrow> ca_event list \<Rightarrow> 's \<times> (nat \<Rightarrow> ca_call)" where
  "ca_run ops gen s evs = foldl (ca_step ops gen) (s, \<lambda>_. new_call) evs"

section \<open>The registry on any store\<close>

datatype reg_op = RegOp NodeRegistration int | DeregOp string

fun registry_step :: "'s store_ops \<Rightarrow> reg_codec \<Rightarrow> 's \<Rightarrow> reg_op \<Rightarrow> 's" where
  "registry_step ops json s (RegOp r now) = snd (Register ops json now s r)"
| "registry_step ops json s (DeregOp nodeID) = snd (Deregister ops s nodeID)"

definition registry_run :: "'s store_ops \<Rightarrow> reg_codec \<Rightarrow> 's \<Rightarrow> reg_op list \<Rightarrow> 's" where
  "registry_run ops json s steps = foldl (registry_step ops json) s steps"

text \<open>What the registry is meant to be: a map from node ids to their last registration.\<close>

definition stamped :: "NodeRegistration \<Rightarrow> int \<Rightarrow> NodeRegistration" where
  "stamped r now = (if nr_RegisteredAt r = None then r\<lparr>nr_RegisteredAt := Some now\<rparr> else r)"

fun registry_spec :: "(string \<rightharpoonup> NodeRegistration) \<Rightarrow> reg_op \<Rightarrow> (string \<rightharpoonup> NodeRegistration)" where
  "registry_spec m (RegOp r now) = m(nr_NodeID r \<mapsto> stamped r now)"
| "registry_spec m (DeregOp nodeID) = m(nodeID := None)"

definition roundtrips :: "reg_codec \<Rightarrow> NodeRegistration \<Rightarrow> bool" where
  "roundtrips json r \<longleftrightarrow> Option.bind (rc_marshal json r) (rc_unmarshal json) = Some r"

fun step_roundtrips :: "reg_codec \<Rightarrow> reg_op \<Rightarrow> bool" where
  "step_roundtrips json (RegOp r now) = roundtrips json (stamped r now)"
| "step_roundtrips json (DeregOp nodeID) = True"

lemma stamped_id [simp]: "nr_NodeID (stamped r now) = nr_NodeID r"
  by (simp add: stamped_def)

context object_store
begin

text \<open>The store holds the encodings of a map of registrations, and nothing else under the prefix.\<close>

definition registered_as :: "reg_codec \<Rightarrow> 's \<Rightarrow> (string \<rightharpoonup> NodeRegistration) \<Rightarrow> bool" where
  "registered_as json s m \<longleftrightarrow> ok s \<and> finite (dom m) \<and> (\<forall>n. content s (nodePrefix @ n) = Option.bind (m n) (rc_marshal json)) \<and>
     (\<forall>n r. m n = Some r \<longrightarrow> roundtrips json r)"

lemma registered_content:
  assumes "registered_as json s m"
  shows "m n = None \<Longrightarrow> content s (nodePrefix @ n) = None"
    and "m n = Some r \<Longrightarrow> \<exists>d. content s (nodePrefix @ n) = Some d \<and> rc_unmarshal json d = Some r"
proof -
  have c: "content s (nodePrefix @ n) = Option.bind (m n) (rc_marshal json)"
    and rt: "m n = Some r \<Longrightarrow> roundtrips json r" for r
    using assms by (simp_all add: registered_as_def)
  show "m n = None \<Longrightarrow> content s (nodePrefix @ n) = None" using c by simp
  show "m n = Some r \<Longrightarrow> \<exists>d. content s (nodePrefix @ n) = Some d \<and> rc_unmarshal json d = Some r"
    using c rt by (cases "rc_marshal json r") (auto simp: roundtrips_def)
qed

lemma discover_loop_map:
  assumes "registered_as json s m" and "set ns \<subseteq> dom m"
  shows "discover_loop ops json s (map ((@) nodePrefix) ns) acc = Inr (acc @ map (the \<circ> m) ns)"
  using assms(2)
proof (induction ns arbitrary: acc)
  case (Cons n ns)
  then obtain r where r: "m n = Some r" by auto
  then obtain d where d: "content s (nodePrefix @ n) = Some d" "rc_unmarshal json d = Some r"
    using registered_content(2) [OF assms(1)] by blast
  moreover have "ok s" using assms(1) by (simp add: registered_as_def)
  ultimately obtain i where "st_get ops s (nodePrefix @ n) = Inr (d, i)" using get_found by blast
  then show ?case using Cons d r by simp
qed simp

lemma DiscoverPeers_registered:
  assumes "registered_as json s m"
  shows "DiscoverPeers ops json s = Inr (map (the \<circ> m) (sorted_list_of_set (dom m)))"
proof -
  let ?ns = "sorted_list_of_set (dom m)" and ?p = "(@) nodePrefix"
  have ns: "finite (dom m)" "set ?ns = dom m" "sorted ?ns" "distinct ?ns" using assms by (simp_all add: registered_as_def)
  have "sorted (map ?p ?ns)" using ns(3) by (simp add: sorted_map)
  moreover have "distinct (map ?p ?ns)" using ns(4) by (simp add: distinct_map inj_on_def)
  moreover have "set (map ?p ?ns) = {k \<in> dom (content s). prefix nodePrefix k}"
  proof -
    have iff: "nodePrefix @ n \<in> dom (content s) \<longleftrightarrow> n \<in> dom m" for n
      using registered_content [OF assms, of n] by (cases "m n") auto
    then have "{k \<in> dom (content s). prefix nodePrefix k} = ?p ` dom m" by (fastforce simp: prefix_def)
    then show ?thesis using ns(2) by simp
  qed
  ultimately have "st_list ops s nodePrefix = Inr (map ?p ?ns)"
    using assms list_eq by (simp add: registered_as_def)
  then show ?thesis using discover_loop_map [OF assms, of ?ns "[]"] ns(2) by (simp add: DiscoverPeers_def)
qed

lemma registered_step:
  assumes "registered_as json s m" and "step_roundtrips json x"
  shows "registered_as json (registry_step ops json s x) (registry_spec m x)"
proof (cases x)
  case (RegOp r now)
  then obtain d where d: "rc_marshal json (stamped r now) = Some d" "rc_unmarshal json d = Some (stamped r now)"
    using assms(2) by (auto simp: roundtrips_def split: bind_splits)
  obtain i s' where p: "st_put ops s (nodePrefix @ nr_NodeID r) d [] = (Inr i, s')" "ok s'"
    "content s' = (content s)(nodePrefix @ nr_NodeID r \<mapsto> d)"
    using put_plain assms(1) by (metis registered_as_def)
  have "registry_step ops json s x = s'"
    using d(1) p(1) RegOp by (simp add: Register_def stamped_def [symmetric])
  then show ?thesis using assms p d RegOp by (auto simp: registered_as_def roundtrips_def)
next
  case (DeregOp n)
  obtain s' where "st_delete ops s (nodePrefix @ n) = (None, s')" "ok s'" "content s' = (content s)(nodePrefix @ n := None)"
    using delete_key assms(1) by (metis registered_as_def)
  then show ?thesis using assms DeregOp by (auto simp: registered_as_def Deregister_def)
qed

lemma registered_run:
  assumes "registered_as json s m" and "list_all (step_roundtrips json) steps"
  shows "registered_as json (registry_run ops json s steps) (foldl registry_spec m steps)"
  using assms by (induction steps arbitrary: s m) (simp_all add: registry_run_def registered_step)

end

section \<open>The certificate authority on any store\<close>

lemma ca_paths [simp]: "caKeyPath \<noteq> caCertPath" "caCertPath \<noteq> caKeyPath"
  by (simp_all add: caKeyPath_def caCertPath_def)

context object_store
begin

lemma ca_lookup_eq:
  assumes "ok s"
  shows "ca_lookup ops s = (case (content s caCertPath, content s caKeyPath) of
    (Some cert, Some key) \<Rightarrow> Inr (cert, key) | _ \<Rightarrow> Inl ErrNotFound)"
  using get_cases [OF assms, of caCertPath] get_cases [OF assms, of caKeyPath]
  by (metis (mono_tags, lifting) ca_lookup_def case_prod_conv option.simps(4,5) old.sum.simps(5,6))

text \<open>What the four states of the two keys lead to.\<close>

lemma create_both:
  assumes "ok s" and "content s caCertPath = None" and "content s caKeyPath = None"
  shows "\<exists>s'. ca_create ops (Some (cert, key)) s = (Some (Inr (cert, key)), s') \<and> ok s' \<and>
    content s' = (content s)(caCertPath \<mapsto> cert, caKeyPath \<mapsto> key)"
proof -
  obtain i s1 where s1: "st_put ops s caCertPath cert [IfNoneMatch] = (Inr i, s1)" "ok s1"
    "content s1 = (content s)(caCertPath \<mapsto> cert)"
    using put_new [OF assms(1,2)] by blast
  then have "content s1 caKeyPath = None" using assms(3) by simp
  then obtain i2 s2 where "st_put ops s1 caKeyPath key [IfNoneMatch] = (Inr i2, s2)" "ok s2"
    "content s2 = (content s1)(caKeyPath \<mapsto> key)"
    using put_new [OF s1(2)] by blast
  then show ?thesis using s1 by (simp add: ca_create_def)
qed

lemma create_cert_taken:
  assumes "ok s" and "content s caCertPath = Some cert'"
  shows "ca_create ops (Some (cert, key)) s = (None, s)"
  using put_taken [OF assms] by (simp add: ca_create_def)

lemma create_key_taken:
  assumes "ok s" and "content s caCertPath = None" and "content s caKeyPath = Some key'"
  shows "\<exists>s'. ca_create ops (Some (cert, key)) s = (None, s') \<and> ok s' \<and> content s' = (content s)(caCertPath \<mapsto> cert)"
proof -
  obtain i s1 where s1: "st_put ops s caCertPath cert [IfNoneMatch] = (Inr i, s1)" "ok s1"
    "content s1 = (content s)(caCertPath \<mapsto> cert)"
    using put_new [OF assms(1,2)] by blast
  then have "st_put ops s1 caKeyPath key [IfNoneMatch] = (Inl ErrPreconditionFailed, s1)"
    using put_taken [OF s1(2)] assms(3) by simp
  then show ?thesis using s1 by (simp add: ca_create_def)
qed

lemma getOrCreateCA_found:
  "ok s \<Longrightarrow> content s caCertPath = Some cert \<Longrightarrow> content s caKeyPath = Some key \<Longrightarrow>
   getOrCreateCA ops gen n s = Some (Inr (cert, key), n, s)"
  by (subst getOrCreateCA.simps) (simp add: ca_lookup_eq)

lemma getOrCreateCA_stuck:
  assumes "ok s" and "content s caCertPath = Some cert" and "content s caKeyPath = None" and "\<And>m. gen m \<noteq> None"
  shows "getOrCreateCA ops gen n s = None"
proof -
  have no: "gen' = gen \<longrightarrow> ops' = ops \<longrightarrow> ok s' \<and> content s' caCertPath = Some cert \<and> content s' caKeyPath = None \<longrightarrow> False"
    if "getOrCreateCA ops' gen' n' s' = Some r" for ops' gen' n' s' r
  proof (rule getOrCreateCA.raw_induct [OF _ that], goal_cases)
    case (1 f ops' gen' n' s' y)
    show ?case
    proof (intro impI)
      assume e: "gen' = gen" "ops' = ops" and st: "ok s' \<and> content s' caCertPath = Some cert \<and> content s' caKeyPath = None"
      obtain a b where g: "gen n' = Some (a, b)" using assms(4) [of n'] by auto
      have "ca_create ops (Some (a, b)) s' = (None, s')" using st create_cert_taken by blast
      then have "f ops gen (Suc n') s' = Some y" using 1(2) e st g by (simp add: ca_lookup_eq)
      then show False using 1(1) st by blast
    qed
  qed
  show ?thesis
  proof (cases "getOrCreateCA ops gen n s")
    case (Some r)
    then show ?thesis using no [OF Some] assms(1-3) by blast
  qed simp
qed

text \<open>All four cases together.\<close>

lemma getOrCreateCA_cases:
  assumes "ok s" and "\<And>m. gen m \<noteq> None"
  shows "case (content s caCertPath, content s caKeyPath) of
      (Some cert, Some key) \<Rightarrow> getOrCreateCA ops gen n s = Some (Inr (cert, key), n, s)
    | (Some cert, None) \<Rightarrow> getOrCreateCA ops gen n s = None
    | (None, None) \<Rightarrow> \<exists>s'. getOrCreateCA ops gen n s = Some (Inr (the (gen n)), Suc n, s') \<and> ok s' \<and>
        content s' = (content s)(caCertPath \<mapsto> fst (the (gen n)), caKeyPath \<mapsto> snd (the (gen n)))
    | (None, Some key) \<Rightarrow> \<exists>s'. getOrCreateCA ops gen n s = Some (Inr (fst (the (gen n)), key), Suc n, s') \<and> ok s'"
proof -
  obtain a b where g: "gen n = Some (a, b)" using assms(2) [of n] by auto
  show ?thesis
  proof (cases "content s caCertPath")
    case cert: None
    show ?thesis
    proof (cases "content s caKeyPath")
      case None
      then show ?thesis
        using create_both [OF assms(1) cert None, of a b] cert g assms(1)
        by (subst getOrCreateCA.simps) (auto simp: ca_lookup_eq)
    next
      case (Some key)
      obtain s' where s': "ca_create ops (Some (a, b)) s = (None, s')" "ok s'" "content s' = (content s)(caCertPath \<mapsto> a)"
        using create_key_taken [OF assms(1) cert Some] by blast
      then have "getOrCreateCA ops gen n s = getOrCreateCA ops gen (Suc n) s'"
        using cert g assms(1) by (subst getOrCreateCA.simps) (simp add: ca_lookup_eq)
      moreover have "getOrCreateCA ops gen (Suc n) s' = Some (Inr (a, key), Suc n, s')"
        using s' Some by (intro getOrCreateCA_found) simp_all
      ultimately show ?thesis using cert Some g s'(2) by simp
    qed
  next
    case cert: (Some c)
    then show ?thesis
      using getOrCreateCA_found [OF assms(1)] getOrCreateCA_stuck [OF assms(1) cert _ assms(2)]
      by (cases "content s caKeyPath") simp_all
  qed
qed

end

text \<open>Concurrent calls. While no certificate is stored no call is past its first write; afterwards
  there is one pair, generated by one call, to which all further progress is bound.\<close>

definition unset_call :: "ca_call \<Rightarrow> bool" where
  "unset_call c = (case ca_pc c of CaGetKey _ \<Rightarrow> False | CaPutKey _ _ \<Rightarrow> False | CaDone (Inr _) \<Rightarrow> False | _ \<Rightarrow> True)"

definition set_call :: "bytes \<Rightarrow> bytes \<Rightarrow> bytes option \<Rightarrow> ca_call \<Rightarrow> bool" where
  "set_call cert key stored c = (case ca_pc c of CaGetKey x \<Rightarrow> x = cert | CaPutKey x y \<Rightarrow> x = cert \<and> y = key
     | CaDone (Inr p) \<Rightarrow> p = (cert, key) \<and> stored = Some key | _ \<Rightarrow> True)"

definition ca_generated :: "(nat \<Rightarrow> (bytes \<times> bytes) option) \<Rightarrow> ca_call \<Rightarrow> bool" where
  "ca_generated gen c = (case ca_pc c of CaPutCert cert key \<Rightarrow> \<exists>n. gen n = Some (cert, key) | _ \<Rightarrow> True)"

lemmas call_defs = unset_call_def set_call_def ca_generated_def

lemma set_call_unset: "unset_call c \<Longrightarrow> set_call cert key stored c"
  by (auto simp: call_defs split: ca_pc.splits sum.splits)

lemma set_call_stored: "set_call cert key stored c \<Longrightarrow> set_call cert key (Some key) c"
  by (auto simp: call_defs split: ca_pc.splits sum.splits)

lemma ca_not_found_call:
  "ca_generated gen (ca_not_found gen c ErrNotFound)" "unset_call (ca_not_found gen c ErrNotFound)"
  by (auto simp: ca_not_found_def call_defs split: option.split)

context object_store
begin

definition ca_unset :: "'s \<times> (nat \<Rightarrow> ca_call) \<Rightarrow> bool" where
  "ca_unset x \<longleftrightarrow> content (fst x) caCertPath = None \<and> content (fst x) caKeyPath = None \<and> (\<forall>i. unset_call (snd x i))"

definition ca_set :: "bytes \<Rightarrow> bytes \<Rightarrow> 's \<times> (nat \<Rightarrow> ca_call) \<Rightarrow> bool" where
  "ca_set cert key x \<longleftrightarrow> content (fst x) caCertPath = Some cert \<and> content (fst x) caKeyPath \<in> {None, Some key} \<and>
     (\<forall>i. set_call cert key (content (fst x) caKeyPath) (snd x i))"

definition ca_inv :: "(nat \<Rightarrow> nat \<Rightarrow> (bytes \<times> bytes) option) \<Rightarrow> 's \<times> (nat \<Rightarrow> ca_call) \<Rightarrow> bool" where
  "ca_inv gen x \<longleftrightarrow> ok (fst x) \<and> (\<forall>i. ca_generated (gen i) (snd x i)) \<and>
     (ca_unset x \<or> (\<exists>cert key i n. gen i n = Some (cert, key) \<and> ca_set cert key x))"

text \<open>A step of a call that leaves the store alone.\<close>

lemma ca_inv_call:
  assumes "ca_inv gen (s, cs)" and "ca_generated (gen i) c"
    and "ca_unset (s, cs) \<Longrightarrow> unset_call c"
    and "\<And>cert key. ca_set cert key (s, cs) \<Longrightarrow> set_call cert key (content s caKeyPath) c"
  shows "ca_inv gen (s, cs(i := c))"
proof -
  have "ca_unset (s, cs(i := c))" if "ca_unset (s, cs)" using that assms(3) by (simp add: ca_unset_def)
  moreover have "ca_set cert key (s, cs(i := c))" if "ca_set cert key (s, cs)" for cert key
    using that assms(4) [OF that] by (simp add: ca_set_def)
  moreover have "\<forall>j. ca_generated (gen j) ((cs(i := c)) j)" using assms(1,2) by (simp add: ca_inv_def)
  ultimately show ?thesis using assms(1) unfolding ca_inv_def fst_conv snd_conv by blast
qed

lemma ca_inv_setI:
  "ok s \<Longrightarrow> (\<And>j. ca_generated (gen j) (cs j)) \<Longrightarrow> gen i n = Some (cert, key) \<Longrightarrow> ca_set cert key (s, cs) \<Longrightarrow>
   ca_inv gen (s, cs)"
  unfolding ca_inv_def fst_conv snd_conv by blast

lemma ca_inv_stop:
  assumes "ca_inv gen (s, cs)" and "ca_generated (gen i) c" and "unset_call c"
  shows "ca_inv gen (s, cs(i := c))"
  using assms by (intro ca_inv_call) (simp_all add: set_call_unset)

lemma ca_get_cert_inv:
  assumes "ca_inv gen (s, cs)" and "ca_pc (cs i) = CaGetCert"
  shows "ca_inv gen (s, cs(i := snd (ca_action ops (gen i) s (cs i))))"
proof -
  have ok: "ok s" using assms(1) by (simp add: ca_inv_def)
  then show ?thesis
  proof (cases rule: get_cases [where k = caCertPath])
    case missing
    then show ?thesis
      using assms ca_not_found_call [of "gen i" "cs i"] by (simp add: ca_action_def ca_inv_stop)
  next
    case (found cert info)
    then show ?thesis
      using assms by (auto simp: ca_action_def ca_unset_def ca_set_def call_defs intro!: ca_inv_call)
  qed
qed

lemma ca_get_key_inv:
  assumes "ca_inv gen (s, cs)" and "ca_pc (cs i) = CaGetKey cert"
  shows "ca_inv gen (s, cs(i := snd (ca_action ops (gen i) s (cs i))))"
proof -
  have ok: "ok s" using assms(1) by (simp add: ca_inv_def)
  then show ?thesis
  proof (cases rule: get_cases [where k = caKeyPath])
    case missing
    then show ?thesis
      using assms ca_not_found_call [of "gen i" "cs i"] by (simp add: ca_action_def ca_inv_stop)
  next
    case (found key info)
    have own: "set_call c k st (cs i) \<Longrightarrow> c = cert" for c k st using assms(2) by (simp add: set_call_def)
    show ?thesis
    proof (rule ca_inv_call [OF assms(1)])
      have a: "snd (ca_action ops (gen i) s (cs i)) = cs i\<lparr>ca_pc := CaDone (Inr (cert, key))\<rparr>"
        using assms(2) found(1) by (simp add: ca_action_def)
      show "ca_generated (gen i) (snd (ca_action ops (gen i) s (cs i)))" by (simp add: a ca_generated_def)
      show "ca_unset (s, cs) \<Longrightarrow> unset_call (snd (ca_action ops (gen i) s (cs i)))"
        using found(2) by (simp add: ca_unset_def)
      show "ca_set c k (s, cs) \<Longrightarrow> set_call c k (content s caKeyPath) (snd (ca_action ops (gen i) s (cs i)))" for c k
        using found(2) own [of c k "content s caKeyPath"] by (auto simp: ca_set_def a set_call_def [of _ _ _ "cs i\<lparr>ca_pc := _\<rparr>"])
    qed
  qed
qed

text \<open>The first write: it decides the pair if no certificate is stored.\<close>

lemma ca_put_cert_inv:
  assumes "ca_inv gen (s, cs)" and "ca_pc (cs i) = CaPutCert cert key" and "ca_pc c \<in> {CaPutKey cert key, CaDone (Inl e)}"
    and "st_put ops s caCertPath cert [IfNoneMatch] = (Inr info, s')"
  shows "ca_inv gen (s', cs(i := c))"
proof -
  have ok: "ok s" using assms(1) by (simp add: ca_inv_def)
  then have s': "ok s'" "content s caCertPath = None" "content s' = (content s)(caCertPath \<mapsto> cert)"
    using put_new_stored [OF _ assms(4)] by blast+
  then have un: "ca_unset (s, cs)" using assms(1) by (auto simp: ca_inv_def ca_set_def)
  have "ca_generated (gen i) (cs i)" using assms(1) by (simp add: ca_inv_def)
  then obtain n where n: "gen i n = Some (cert, key)" using assms(2) by (auto simp: ca_generated_def)
  have "set_call cert key None c" using assms(3) by (auto simp: set_call_def)
  then have "ca_set cert key (s', cs(i := c))"
    using un s'(3) set_call_unset by (simp add: ca_set_def ca_unset_def)
  moreover have "ca_generated (gen i) c" using assms(3) by (auto simp: ca_generated_def)
  ultimately show ?thesis using assms(1) s'(1) n by (intro ca_inv_setI) (simp_all add: ca_inv_def)
qed

text \<open>The second write.\<close>


lemma ca_put_key_inv:
  assumes "ca_inv gen (s, cs)" and "ca_pc (cs i) = CaPutKey cert key"
    and "ca_pc c \<in> {CaDone (Inr (cert, key)), CaDone (Inl e)}"
    and "st_put ops s caKeyPath key [IfNoneMatch] = (Inr info, s')"
  shows "ca_inv gen (s', cs(i := c))"
proof -
  have ok: "ok s" using assms(1) by (simp add: ca_inv_def)
  then have s': "ok s'" "content s caKeyPath = None" "content s' = (content s)(caKeyPath \<mapsto> key)"
    using put_new_stored [OF _ assms(4)] by blast+
  have "\<not> unset_call (cs i)" using assms(2) by (simp add: unset_call_def)
  then obtain c' k' j n where g: "gen j n = Some (c', k')" and st: "ca_set c' k' (s, cs)"
    using assms(1) by (auto simp: ca_inv_def ca_unset_def)
  have "set_call c' k' None (cs i)" using st s'(2) by (auto simp: ca_set_def)
  then have e: "c' = cert" "k' = key" using assms(2) by (simp_all add: set_call_def)
  have "set_call cert key (Some key) c" using assms(3) by (auto simp: set_call_def)
  moreover have "set_call cert key (content s caKeyPath) (cs j)" for j using st e by (simp add: ca_set_def)
  then have "set_call cert key (Some key) (cs j)" for j by (rule set_call_stored)
  ultimately have "ca_set cert key (s', cs(i := c))"
    using st s'(3) e by (simp add: ca_set_def)
  moreover have "ca_generated (gen i) c" using assms(3) by (auto simp: ca_generated_def)
  ultimately show ?thesis using assms(1) s'(1) g e by (intro ca_inv_setI) (simp_all add: ca_inv_def)
qed

lemma ca_put_refused_inv:
  assumes "ca_inv gen (s, cs)" and "unset_call c" and "ca_generated (gen i) c"
    and "st_put ops s k d [IfNoneMatch] = (Inl e, s')"
  shows "ca_inv gen (s', cs(i := c))"
  using ca_inv_stop [OF assms(1,3,2)] put_new_refused [OF _ assms(4)] assms(1) by (simp add: ca_inv_def)

lemma ca_act_inv:
  assumes "ca_inv gen (s, cs)" and "ca_action ops (gen i) s (cs i) = (s', c)"
  shows "ca_inv gen (s', cs(i := c))"
proof (cases "ca_pc (cs i)")
  case CaGetCert
  then have "s' = s" using assms(2) by (simp add: ca_action_def)
  then show ?thesis using ca_get_cert_inv [OF assms(1) CaGetCert] assms(2) by simp
next
  case (CaGetKey cert)
  then have "s' = s" using assms(2) by (simp add: ca_action_def)
  then show ?thesis using ca_get_key_inv [OF assms(1) CaGetKey] assms(2) by simp
next
  case (CaPutCert cert key)
  obtain r s1 where p: "st_put ops s caCertPath cert [IfNoneMatch] = (r, s1)" by fastforce
  then have e: "s' = s1" "c = ca_put_answer (cs i) StoreCert (CaPutKey cert key) r"
    using CaPutCert assms(2) by (simp_all add: ca_action_def)
  show ?thesis
  proof (cases r)
    case (Inl err)
    moreover from this have "err = ErrPreconditionFailed" using put_new_refused(2) p assms(1) by (auto simp: ca_inv_def)
    ultimately show ?thesis
      using ca_put_refused_inv [OF assms(1)] p by (simp add: e ca_put_answer_def call_defs)
  next
    case (Inr info)
    then show ?thesis using ca_put_cert_inv [OF assms(1) CaPutCert] p by (simp add: e ca_put_answer_def)
  qed
next
  case (CaPutKey cert key)
  obtain r s1 where p: "st_put ops s caKeyPath key [IfNoneMatch] = (r, s1)" by fastforce
  then have e: "s' = s1" "c = ca_put_answer (cs i) StoreKey (CaDone (Inr (cert, key))) r"
    using CaPutKey assms(2) by (simp_all add: ca_action_def)
  show ?thesis
  proof (cases r)
    case (Inl err)
    moreover from this have "err = ErrPreconditionFailed" using put_new_refused(2) p assms(1) by (auto simp: ca_inv_def)
    ultimately show ?thesis
      using ca_put_refused_inv [OF assms(1)] p by (simp add: e ca_put_answer_def call_defs)
  next
    case (Inr info)
    then show ?thesis using ca_put_key_inv [OF assms(1) CaPutKey] p by (simp add: e ca_put_answer_def)
  qed
next
  case (CaDone r)
  then have "s' = s" "cs(i := c) = cs" using assms(2) by (auto simp: ca_action_def fun_upd_idem)
  then show ?thesis using assms(1) by simp
qed

lemma ca_fault_inv:
  assumes "ca_inv gen (s, cs)" and "ca_failure ops took s (cs i) = (s', c)"
  shows "ca_inv gen (s', cs(i := c))"
proof -
  have stop: "ca_inv gen (s, cs(i := cs i\<lparr>ca_pc := CaDone (Inl e)\<rparr>))" for e
    using assms(1) by (intro ca_inv_stop) (simp_all add: call_defs)
  have put: "ca_inv gen (snd (st_put ops s k d [IfNoneMatch]), cs(i := cs i\<lparr>ca_pc := CaDone (Inl e)\<rparr>))"
    if "\<And>info s'. st_put ops s k d [IfNoneMatch] = (Inr info, s') \<Longrightarrow>
      ca_inv gen (s', cs(i := cs i\<lparr>ca_pc := CaDone (Inl e)\<rparr>))" for k d e
  proof (cases "st_put ops s k d [IfNoneMatch]")
    case (Pair r s1)
    then show ?thesis
      using that put_new_refused(1) [of s k d _ s1] assms(1) stop by (cases r) (auto simp: ca_inv_def)
  qed
  show ?thesis
  proof (cases "ca_pc (cs i)")
    case (CaPutCert cert key)
    then show ?thesis
      using assms(2) stop put [OF ca_put_cert_inv [OF assms(1) CaPutCert]] by (auto simp: ca_failure_def split: if_splits)
  next
    case (CaPutKey cert key)
    then show ?thesis
      using assms(2) stop put [OF ca_put_key_inv [OF assms(1) CaPutKey]] by (auto simp: ca_failure_def split: if_splits)
  next
    case (CaDone r)
    then have "s' = s" "cs(i := c) = cs" using assms(2) by (auto simp: ca_failure_def fun_upd_idem)
    then show ?thesis using assms(1) by simp
  qed (use assms(2) stop in \<open>auto simp: ca_failure_def\<close>)
qed

lemma ca_run_inv:
  assumes "ok s" and "content s caCertPath = None" and "content s caKeyPath = None"
  shows "ca_inv gen (ca_run ops gen s evs)"
proof -
  have "ca_inv gen x \<Longrightarrow> ca_inv gen (ca_step ops gen x ev)" for x ev
    by (cases x; cases ev) (auto simp: split_beta Let_def intro: ca_act_inv ca_fault_inv)
  then have "ca_inv gen x \<Longrightarrow> ca_inv gen (foldl (ca_step ops gen) x evs)" for x
    by (induction evs arbitrary: x) simp_all
  moreover have "ca_inv gen (s, \<lambda>_. new_call)"
    using assms by (simp add: ca_inv_def ca_unset_def new_call_def call_defs)
  ultimately show ?thesis by (simp add: ca_run_def)
qed

lemma ca_run_agree:
  assumes "ok s" and "content s caCertPath = None" and "content s caKeyPath = None"
    and "ca_run ops gen s evs = (s', cs)" and "ca_pc (cs i) = CaDone (Inr p)"
  shows "\<exists>j n. gen j n = Some p \<and> content s' caCertPath = Some (fst p) \<and> content s' caKeyPath = Some (snd p)"
proof -
  have inv: "ca_inv gen (s', cs)" using ca_run_inv [OF assms(1-3), of gen evs] assms(4) by simp
  have "\<not> unset_call (cs i)" using assms(5) by (simp add: unset_call_def)
  then obtain cert key j n where g: "gen j n = Some (cert, key)" "ca_set cert key (s', cs)"
    using inv by (auto simp: ca_inv_def ca_unset_def)
  then have "set_call cert key (content s' caKeyPath) (cs i)" by (simp add: ca_set_def)
  then show ?thesis using g assms(5) by (auto simp: set_call_def ca_set_def)
qed

end

section \<open>Properties\<close>

text \<open>C33: the registry implements a map. After any sequence of registrations and deregistrations,
  discovery returns exactly the last registration of every node that is registered, in the
  order of the node ids. The hypothesis is that the JSON encoding of these registrations decodes
  to them.\<close>

theorem DiscoverPeers_registry:
  assumes "list_all (step_roundtrips json) steps"
  shows "DiscoverPeers (mem_ops now) json (registry_run (mem_ops now) json NewMemoryObjectStore steps) =
    (let m = foldl registry_spec Map.empty steps in Inr (map (the \<circ> m) (sorted_list_of_set (dom m))))"
proof -
  have "mem.registered_as json NewMemoryObjectStore Map.empty"
    by (simp add: mem.registered_as_def mem_ok_def mem_content_def NewMemoryObjectStore_def)
  from mem.DiscoverPeers_registered [OF mem.registered_run [OF this assms]] show ?thesis by (simp add: Let_def)
qed

definition regA :: NodeRegistration where
  "regA = \<lparr>nr_NodeID = ''a'', nr_Addrs = [''1.2.3.4:7946''], nr_PublicAddr = '''', nr_IsRelay = False, nr_RegisteredAt = Some 1\<rparr>"

definition regB :: NodeRegistration where
  "regB = \<lparr>nr_NodeID = ''b'', nr_Addrs = [], nr_PublicAddr = ''5.6.7.8:7946'', nr_IsRelay = True, nr_RegisteredAt = Some 2\<rparr>"

definition sampleCodec :: reg_codec where
  "sampleCodec = \<lparr>rc_marshal = (\<lambda>r. if r = regA then Some [1] else if r = regB then Some [2] else None),
     rc_unmarshal = (\<lambda>d. if d = [1] then Some regA else if d = [2] then Some regB else None)\<rparr>"

theorem DiscoverPeers_registry_witness:
  "DiscoverPeers (mem_ops 0) sampleCodec (registry_run (mem_ops 0) sampleCodec NewMemoryObjectStore
     [RegOp regB 5, RegOp regA 6, DeregOp ''c'']) = Inr [regA, regB]"
proof -
  let ?steps = "[RegOp regB 5, RegOp regA 6, DeregOp ''c'']"
  have st: "stamped regA n = regA" "stamped regB n = regB" for n by (simp_all add: stamped_def regA_def regB_def)
  have "regA \<noteq> regB" by (simp add: regA_def regB_def)
  then have "list_all (step_roundtrips sampleCodec) ?steps"
    by (simp add: st roundtrips_def sampleCodec_def)
  note d = DiscoverPeers_registry [OF this, of 0]
  have m: "foldl registry_spec Map.empty ?steps = [''b'' \<mapsto> regB, ''a'' \<mapsto> regA]"
    by (simp add: st) (simp add: regA_def regB_def fun_upd_idem)
  have "sorted_list_of_set (dom [''b'' \<mapsto> regB, ''a'' \<mapsto> regA]) = [''a'', ''b'']"
    by (simp add: sorted_list_of_set_sort_remdups [of "[''b'', ''a'']", simplified])
  then show ?thesis using d unfolding m by simp
qed

text \<open>C7: one authority. Let any number of nodes call \<open>getOrCreateCA\<close> on an empty store, their store
  operations interleaved in any way, calls stopping or failing anywhere, failed writes taking
  effect or not: all calls that return an authority return the same one, its certificate and key
  were generated together by one node, and they are what is stored.\<close>

theorem getOrCreateCA_agreement:
  assumes "ca_run (mem_ops now) gen NewMemoryObjectStore evs = (s, cs)"
    and "ca_pc (cs i) = CaDone (Inr p)" and "ca_pc (cs j) = CaDone (Inr q)"
  shows "p = q \<and> (\<exists>l n. gen l n = Some p) \<and> mem_content s caCertPath = Some (fst p) \<and> mem_content s caKeyPath = Some (snd p)"
proof -
  have "mem_ok NewMemoryObjectStore" "mem_content NewMemoryObjectStore caCertPath = None"
    "mem_content NewMemoryObjectStore caKeyPath = None"
    by (simp_all add: mem_ok_def mem_content_def NewMemoryObjectStore_def)
  note ag = mem.ca_run_agree [OF this assms(1)]
  show ?thesis using ag [OF assms(2)] ag [OF assms(3)] by (auto simp: prod_eq_iff)
qed

text \<open>Node 1 loses the race for the certificate, finds no key yet, tries again and gets the
  authority of node 0.\<close>

definition caEvents :: "ca_event list" where
  "caEvents = map CaAct [0, 1, 0, 1, 1, 1, 1, 0, 1, 1]"

definition caGen :: "nat \<Rightarrow> nat \<Rightarrow> (bytes \<times> bytes) option" where
  "caGen i n = Some ([of_nat i, of_nat n], [of_nat i, of_nat n, 1])"

theorem getOrCreateCA_agreement_witness:
  "let r = ca_run (mem_ops 0) caGen NewMemoryObjectStore caEvents
   in ca_pc (snd r 0) = CaDone (Inr ([0, 0], [0, 0, 1])) \<and> ca_pc (snd r 1) = CaDone (Inr ([0, 0], [0, 0, 1])) \<and>
      mem_content (fst r) caKeyPath = Some [0, 0, 1]"
proof -
  obtain s cs where r: "ca_run (mem_ops 0) caGen NewMemoryObjectStore caEvents = (s, cs)" by fastforce
  have "ca_pc (snd (ca_run (mem_ops 0) caGen NewMemoryObjectStore caEvents) 0) = CaDone (Inr ([0, 0], [0, 0, 1]))"
    "ca_pc (snd (ca_run (mem_ops 0) caGen NewMemoryObjectStore caEvents) 1) = CaDone (Inr ([0, 0], [0, 0, 1]))"
    by code_simp+
  then show ?thesis using getOrCreateCA_agreement [OF r, of 0 _ 1] by (simp add: r)
qed

text \<open>C34: when \<open>getOrCreateCA\<close> returns. For a node alone and a generator that does not fail: with both
  keys stored it returns them; with neither it stores and returns a new pair; with a certificate
  but no key, as a node that stops between its two writes leaves them, it never returns; with
  a key but no certificate it returns a new certificate with the old key.\<close>

theorem getOrCreateCA_outcome:
  assumes "mem_ok s" and "\<And>m. gen m \<noteq> None"
  shows "case (mem_content s caCertPath, mem_content s caKeyPath) of
      (Some cert, Some key) \<Rightarrow> getOrCreateCA (mem_ops now) gen n s = Some (Inr (cert, key), n, s)
    | (Some cert, None) \<Rightarrow> getOrCreateCA (mem_ops now) gen n s = None
    | (None, None) \<Rightarrow> \<exists>s'. getOrCreateCA (mem_ops now) gen n s = Some (Inr (the (gen n)), Suc n, s') \<and> mem_ok s' \<and>
        mem_content s' = (mem_content s)(caCertPath \<mapsto> fst (the (gen n)), caKeyPath \<mapsto> snd (the (gen n)))
    | (None, Some key) \<Rightarrow> \<exists>s'. getOrCreateCA (mem_ops now) gen n s = Some (Inr (fst (the (gen n)), key), Suc n, s') \<and> mem_ok s'"
  by (rule mem.getOrCreateCA_cases [OF assms])

definition orphanCert :: MemoryObjectStore where
  "orphanCert = store_run NewMemoryObjectStore [OpPut 1 caCertPath [9] [IfNoneMatch]]"

theorem getOrCreateCA_outcome_witness:
  "getOrCreateCA (mem_ops 0) (caGen 0) 0 orphanCert = None \<and>
   (\<exists>s'. getOrCreateCA (mem_ops 0) (caGen 0) 0 NewMemoryObjectStore = Some (Inr ([0, 0], [0, 0, 1]), 1, s'))"
proof -
  have "mem_ok orphanCert" "mem_content orphanCert caCertPath = Some [9]" "mem_content orphanCert caKeyPath = None"
    unfolding mem_content_def by code_simp+
  moreover have "mem_ok NewMemoryObjectStore" "mem_content NewMemoryObjectStore k = None" for k
    by (simp_all add: mem_ok_def mem_content_def NewMemoryObjectStore_def)
  ultimately show ?thesis
    using getOrCreateCA_outcome [of orphanCert "caGen 0" 0 0] getOrCreateCA_outcome [of NewMemoryObjectStore "caGen 0" 0 0]
    by (auto simp: caGen_def)
qed

end
