(* ===== verification/HolePunch.thy ===== *)
theory HolePunch
  imports ObjStore
begin

text \<open>
  \<open>holepunch/signal.go\<close> and \<open>holepunch/punch.go\<close>: two peers behind NAT meet through the object
  store and then dial each other.

  JSON encoding, the random nonce, name resolution and the QUIC dial are parameters. The poll loop
  of \<open>AttemptHolePunch\<close> is a recursion over its ticks up to the deadline; each tick carries what
  others did to the store since the last one.
\<close>

section \<open>Signals\<close>

record Signal =
  sg_NodeID :: string
  sg_Addr :: string
  sg_Nonce :: string
  sg_Time :: int

definition pair_ids :: "string \<Rightarrow> string \<Rightarrow> string \<times> string" where
  "pair_ids id1 id2 = (if id1 > id2 then (id2, id1) else (id1, id2))"

definition signalKey :: "string \<Rightarrow> string \<Rightarrow> string \<Rightarrow> string" where
  "signalKey id1 id2 writerID =
     (let (lower, higher) = pair_ids id1 id2 in ''signal/'' @ lower @ ''/'' @ higher @ ''/'' @ writerID)"

definition signalPrefix :: "string \<Rightarrow> string \<Rightarrow> string" where
  "signalPrefix id1 id2 =
     (let (lower, higher) = pair_ids id1 id2 in ''signal/'' @ lower @ ''/'' @ higher @ ''/'')"

record sig_codec =
  sc_marshal :: "Signal \<Rightarrow> bytes option"
  sc_unmarshal :: "bytes \<Rightarrow> Signal option"

datatype signal_error = MarshalSignal | PutSignal store_error | ListSignals store_error | GetSignal string store_error

definition write_signal ::
  "'s store_ops \<Rightarrow> sig_codec \<Rightarrow> int \<Rightarrow> 's \<Rightarrow> string \<Rightarrow> Signal \<Rightarrow> signal_error option \<times> 's" where
  "write_signal ops json now s key sig =
     (case sc_marshal json (sig\<lparr>sg_Time := now\<rparr>) of
        None \<Rightarrow> (Some MarshalSignal, s)
      | Some data \<Rightarrow>
          (case st_put ops s key data [] of
             (Inl err, s1) \<Rightarrow> (Some (PutSignal err), s1)
           | (Inr _, s1) \<Rightarrow> (None, s1)))"

definition WriteSignal :: "'s store_ops \<Rightarrow> sig_codec \<Rightarrow> int \<Rightarrow> 's \<Rightarrow> Signal \<Rightarrow> signal_error option \<times> 's" where
  "WriteSignal ops json now s sig =
     write_signal ops json now s (signalKey (sg_NodeID sig) (sg_Addr sig) (sg_NodeID sig)) sig"

definition WriteSignalForPeer ::
  "'s store_ops \<Rightarrow> sig_codec \<Rightarrow> int \<Rightarrow> 's \<Rightarrow> string \<Rightarrow> string \<Rightarrow> Signal \<Rightarrow> signal_error option \<times> 's" where
  "WriteSignalForPeer ops json now s selfID targetID sig =
     write_signal ops json now s (signalKey selfID targetID selfID) sig"

fun read_loop ::
  "'s store_ops \<Rightarrow> sig_codec \<Rightarrow> 's \<Rightarrow> string \<Rightarrow> string \<Rightarrow> string list \<Rightarrow> Signal option \<times> Signal option \<Rightarrow>
     signal_error + Signal option \<times> Signal option" where
  "read_loop ops json s selfID targetID [] found = Inr found"
| "read_loop ops json s selfID targetID (key # keys) found =
     (case st_get ops s key of
        Inl err \<Rightarrow>
          if err = ErrNotFound then read_loop ops json s selfID targetID keys found else Inl (GetSignal key err)
      | Inr (data, _) \<Rightarrow>
          (case sc_unmarshal json data of
             None \<Rightarrow> read_loop ops json s selfID targetID keys found
           | Some sig \<Rightarrow>
               read_loop ops json s selfID targetID keys
                 (if sg_NodeID sig = selfID then (Some sig, snd found)
                  else if sg_NodeID sig = targetID then (fst found, Some sig)
                  else found)))"

definition ReadSignals ::
  "'s store_ops \<Rightarrow> sig_codec \<Rightarrow> 's \<Rightarrow> string \<Rightarrow> string \<Rightarrow> signal_error + Signal option \<times> Signal option" where
  "ReadSignals ops json s selfID targetID =
     (case st_list ops s (signalPrefix selfID targetID) of
        Inl err \<Rightarrow> Inl (ListSignals err)
      | Inr keys \<Rightarrow> read_loop ops json s selfID targetID keys (None, None))"

definition CleanupSignal :: "'s store_ops \<Rightarrow> 's \<Rightarrow> string \<Rightarrow> string \<Rightarrow> signal_error option \<times> 's" where
  "CleanupSignal ops s selfID targetID =
     (case st_list ops s (signalPrefix selfID targetID) of
        Inl err \<Rightarrow> (Some (ListSignals err), s)
      | Inr keys \<Rightarrow> (None, foldl (\<lambda>s key. snd (st_delete ops s key)) s keys))"

section \<open>The attempt\<close>

text \<open>The nonce bytes, name resolution to an address of type \<open>'a\<close>, its IP as text, and the dial with
  that name as server name.\<close>

record 'a punch_net =
  pn_rand :: "bytes option"
  pn_resolve :: "string \<Rightarrow> 'a option"
  pn_ip :: "'a \<Rightarrow> string"
  pn_dial :: "'a \<Rightarrow> string \<Rightarrow> nat option"

record PunchParams =
  pp_SelfID :: string
  pp_TargetID :: string
  pp_SelfAddr :: string
  pp_PollInterval :: int
  pp_Timeout :: int

definition PunchParams_defaults :: "PunchParams \<Rightarrow> PunchParams" where
  "PunchParams_defaults p =
     p\<lparr>pp_PollInterval := (if pp_PollInterval p = 0 then 500 * 1000000 else pp_PollInterval p),
       pp_Timeout := (if pp_Timeout p = 0 then 10 * 1000000000 else pp_Timeout p)\<rparr>"

definition punch_ticks :: "PunchParams \<Rightarrow> nat" where
  "punch_ticks p = nat (pp_Timeout p div pp_PollInterval p)"

datatype punch_error = GenerateNonce | WriteSignalFailed signal_error | PunchTimeout | ResolvePeer | PunchDial

text \<open>The poll loop: a tick is what the other nodes do to the store before it; the end of the list is the
  deadline. There are at most \<open>punch_ticks\<close> ticks before it.\<close>

fun poll_loop ::
  "'s store_ops \<Rightarrow> sig_codec \<Rightarrow> PunchParams \<Rightarrow> 's \<Rightarrow> ('s \<Rightarrow> 's) list \<Rightarrow> Signal option \<times> 's" where
  "poll_loop ops json p s [] = (None, s)"
| "poll_loop ops json p s (others # ticks) =
     (let s1 = others s in
      case ReadSignals ops json s1 (pp_SelfID p) (pp_TargetID p) of
        Inl err \<Rightarrow> poll_loop ops json p s1 ticks
      | Inr (_, None) \<Rightarrow> poll_loop ops json p s1 ticks
      | Inr (_, Some peer) \<Rightarrow> (Some peer, s1))"

definition punch_dial :: "'a punch_net \<Rightarrow> Signal \<Rightarrow> punch_error + nat" where
  "punch_dial net peer =
     (case pn_resolve net (sg_Addr peer) of
        None \<Rightarrow> Inl ResolvePeer
      | Some addr \<Rightarrow>
          (case pn_dial net addr (pn_ip net addr) of
             None \<Rightarrow> Inl PunchDial
           | Some conn \<Rightarrow> Inr conn))"

definition AttemptHolePunch ::
  "'s store_ops \<Rightarrow> sig_codec \<Rightarrow> 'a punch_net \<Rightarrow> int \<Rightarrow> PunchParams \<Rightarrow> 's \<Rightarrow> ('s \<Rightarrow> 's) list \<Rightarrow> (punch_error + nat) \<times> 's" where
  "AttemptHolePunch ops json net now p s ticks =
     (let p = PunchParams_defaults p in
      case pn_rand net of
        None \<Rightarrow> (Inl GenerateNonce, s)
      | Some nonce \<Rightarrow>
          (case WriteSignalForPeer ops json now s (pp_SelfID p) (pp_TargetID p)
                  \<lparr>sg_NodeID = pp_SelfID p, sg_Addr = pp_SelfAddr p, sg_Nonce = EncodeToString nonce, sg_Time = 0\<rparr> of
             (Some err, s1) \<Rightarrow> (Inl (WriteSignalFailed err), s1)
           | (None, s1) \<Rightarrow>
               (let (peerSignal, s2) = poll_loop ops json p s1 (take (punch_ticks p) ticks);
                    r = (case peerSignal of None \<Rightarrow> Inl PunchTimeout | Some peer \<Rightarrow> punch_dial net peer)
                in (r, snd (CleanupSignal ops s2 (pp_SelfID p) (pp_TargetID p))))))"

section \<open>Keys\<close>

lemma pair_ids_sym: "pair_ids a b = pair_ids b a"
  by (auto simp: pair_ids_def)

lemma signalPrefix_sym: "signalPrefix a b = signalPrefix b a"
  by (simp add: signalPrefix_def pair_ids_sym [of a b])

lemma signalKey_eq: "signalKey a b w = signalPrefix a b @ w"
  by (simp add: signalKey_def signalPrefix_def split_beta)

section \<open>Signals on any store\<close>

definition signal_at :: "sig_codec \<Rightarrow> bytes option \<Rightarrow> Signal option \<Rightarrow> bool" where
  "signal_at json c x = (case c of None \<Rightarrow> x = None | Some d \<Rightarrow> x \<noteq> None \<and> sc_unmarshal json d = x)"

context object_store
begin

text \<open>The signals of a pair are those of a map from writers.\<close>

definition signals_as :: "sig_codec \<Rightarrow> string \<Rightarrow> 's \<Rightarrow> (string \<rightharpoonup> Signal) \<Rightarrow> bool" where
  "signals_as json pre s m \<longleftrightarrow> ok s \<and> (\<forall>w. signal_at json (content s (pre @ w)) (m w))"

lemma write_signals:
  assumes "signals_as json pre s m" and "sc_marshal json (sig\<lparr>sg_Time := now\<rparr>) = Some d"
    and "sc_unmarshal json d = Some (sig\<lparr>sg_Time := now\<rparr>)"
  shows "\<exists>s'. write_signal ops json now s (pre @ w) sig = (None, s') \<and> signals_as json pre s' (m(w \<mapsto> sig\<lparr>sg_Time := now\<rparr>)) \<and>
    content s' = (content s)(pre @ w \<mapsto> d)"
proof -
  obtain i s' where "st_put ops s (pre @ w) d [] = (Inr i, s')" "ok s'" "content s' = (content s)(pre @ w \<mapsto> d)"
    using put_plain assms(1) by (metis signals_as_def)
  moreover have "signal_at json (Some d) (Some (sig\<lparr>sg_Time := now\<rparr>))" using assms(3) by (simp add: signal_at_def)
  ultimately show ?thesis using assms(1,2) by (simp add: write_signal_def signals_as_def)
qed

lemma read_loop_writers:
  assumes "signals_as json pre s m" and "set ws \<subseteq> dom m"
  shows "read_loop ops json s self target (map ((@) pre) ws) found =
    Inr (foldl (\<lambda>found w. let sig = the (m w) in if sg_NodeID sig = self then (Some sig, snd found)
      else if sg_NodeID sig = target then (fst found, Some sig) else found) found ws)"
  using assms(2)
proof (induction ws arbitrary: found)
  case (Cons w ws)
  then obtain sig where sig: "m w = Some sig" by auto
  then obtain d where d: "content s (pre @ w) = Some d" "sc_unmarshal json d = Some sig"
    using assms(1) spec [of "\<lambda>w. signal_at json (content s (pre @ w)) (m w)" w]
    by (auto simp: signals_as_def signal_at_def split: option.splits)
  moreover have "ok s" using assms(1) by (simp add: signals_as_def)
  ultimately obtain i where "st_get ops s (pre @ w) = Inr (d, i)" using get_found by blast
  then show ?case using Cons d(2) sig by (simp add: Let_def)
qed simp

lemma signals_keys:
  assumes "signals_as json pre s m"
  shows "{k \<in> dom (content s). prefix pre k} = (@) pre ` dom m"
proof -
  have "pre @ w \<in> dom (content s) \<longleftrightarrow> w \<in> dom m" for w
    using assms spec [of "\<lambda>w. signal_at json (content s (pre @ w)) (m w)" w]
    by (auto simp: signals_as_def signal_at_def split: option.splits)
  then show ?thesis by (fastforce simp: prefix_def)
qed

lemma signals_list:
  assumes "signals_as json pre s m" and "finite (dom m)"
  shows "st_list ops s pre = Inr (map ((@) pre) (sorted_list_of_set (dom m)))"
  using assms signals_keys [OF assms(1)]
  by (intro list_eq) (simp_all add: signals_as_def sorted_map distinct_map inj_on_def)

lemma CleanupSignal_all:
  assumes "ok s"
  shows "\<exists>s'. CleanupSignal ops s a b = (None, s') \<and> ok s' \<and>
    content s' = (\<lambda>k. if prefix (signalPrefix a b) k then None else content s k)"
proof -
  obtain ks where ks: "st_list ops s (signalPrefix a b) = Inr ks" "set ks = {k \<in> dom (content s). prefix (signalPrefix a b) k}"
    using list_keys [OF assms] by blast
  have del: "ok (foldl (\<lambda>s key. snd (st_delete ops s key)) t ks') \<and>
      content (foldl (\<lambda>s key. snd (st_delete ops s key)) t ks') = (\<lambda>k. if k \<in> set ks' then None else content t k)"
    if "ok t" for t ks'
    using that
  proof (induction ks' arbitrary: t)
    case (Cons k ks')
    obtain t' where "st_delete ops t k = (None, t')" "ok t'" "content t' = (content t)(k := None)"
      using delete_key [OF Cons.prems] by blast
    then show ?case using Cons.IH [of t'] by (auto simp: fun_eq_iff)
  qed simp
  show ?thesis using ks del [OF assms, of ks] by (auto simp: CleanupSignal_def fun_eq_iff)
qed

lemma ReadSignals_two:
  assumes "signals_as json (signalPrefix a b) s [a \<mapsto> sa, b \<mapsto> sb]" and "a \<noteq> b" and "sg_NodeID sa = a" and "sg_NodeID sb = b"
  shows "ReadSignals ops json s a b = Inr (Some sa, Some sb)"
proof -
  let ?m = "[a \<mapsto> sa, b \<mapsto> sb]"
  let ?ws = "sorted_list_of_set (dom ?m)"
  have "{a} - {b} = {a}" using assms(2) by blast
  then have "?ws = [a, b] \<or> ?ws = [b, a]" by simp
  then show ?thesis
    using signals_list [OF assms(1)] read_loop_writers [OF assms(1), of ?ws a b "(None, None)"] assms(2-4)
    by (auto simp: ReadSignals_def Let_def)
qed

lemma ReadSignals_none:
  assumes "signals_as json (signalPrefix a b) s Map.empty"
  shows "ReadSignals ops json s a b = Inr (None, None)"
  using signals_list [OF assms] by (simp add: ReadSignals_def)

lemma ReadSignals_self:
  assumes "signals_as json (signalPrefix a b) s [a \<mapsto> sa]" and "sg_NodeID sa = a"
  shows "ReadSignals ops json s a b = Inr (Some sa, None)"
  using signals_list [OF assms(1)] read_loop_writers [OF assms(1), of "[a]" a b "(None, None)"] assms(2)
  by (simp add: ReadSignals_def Let_def)

lemma poll_meets:
  assumes "signals_as json (signalPrefix a b) s [a \<mapsto> sa]" and "sg_NodeID sa = a" and "sg_NodeID sb = b" and "a \<noteq> b"
    and "signals_as json (signalPrefix a b) (others s) [a \<mapsto> sa, b \<mapsto> sb]" and "pp_SelfID p = a" and "pp_TargetID p = b"
  shows "poll_loop ops json p s (replicate k id @ [others]) = (Some sb, others s)"
proof (induction k)
  case 0
  then show ?case using ReadSignals_two [OF assms(5,4,2,3)] assms(6,7) by simp
next
  case (Suc k)
  then show ?case using ReadSignals_self [OF assms(1,2)] assms(6,7) by simp
qed

end

section \<open>Properties\<close>

text \<open>C35: two peers meet. Node \<open>a\<close> attempts a hole punch to \<open>b\<close>; before the last
  tick \<open>b\<close> writes its signal. Then \<open>a\<close> dials the address of that signal, and returns with the store as
  it was before the attempt. The signal of \<open>b\<close> is gone as well: \<open>b\<close> finds neither its own nor that of \<open>a\<close> if it
  polls only then. The hypotheses are that the JSON encoding of the two signals decodes to
  them and that no signals of the pair are left from before.\<close>

theorem AttemptHolePunch_meets:
  assumes "mem_ok s" and "\<And>w. mem_content s (signalPrefix a b @ w) = None" and "a \<noteq> b"
    and "pp_SelfID p = a" and "pp_TargetID p = b" and "pn_rand net = Some nonce"
    and sa: "sa = \<lparr>sg_NodeID = a, sg_Addr = pp_SelfAddr p, sg_Nonce = EncodeToString nonce, sg_Time = now\<rparr>"
    and "sc_marshal json sa = Some da" and "sc_unmarshal json da = Some sa"
    and "sg_NodeID sb = b" and "sg_Time sb = t" and "sc_marshal json sb = Some db" and "sc_unmarshal json db = Some sb"
    and "k < punch_ticks (PunchParams_defaults p)"
  shows "let (r, s') = AttemptHolePunch (mem_ops now) json net now p s
      (replicate k id @ [\<lambda>s. snd (WriteSignalForPeer (mem_ops t) json t s b a sb)])
    in r = punch_dial net sb \<and> mem_content s' = mem_content s \<and> ReadSignals (mem_ops now) json s' b a = Inr (None, None)"
proof -
  let ?pre = "signalPrefix a b" and ?others = "\<lambda>s. snd (WriteSignalForPeer (mem_ops t) json t s b a sb)"
  have pre: "signalKey a b a = ?pre @ a" "signalKey b a b = ?pre @ b"
    by (simp_all add: signalKey_eq signalPrefix_sym [of b a])
  have ids: "sg_NodeID sa = a" "sa\<lparr>sg_Time := now\<rparr> = sa" "sb\<lparr>sg_Time := t\<rparr> = sb" using sa assms(11) by auto
  have "mem.signals_as json ?pre s Map.empty" using assms(1,2) by (simp add: mem.signals_as_def signal_at_def)
  then obtain s1 where
    w1: "write_signal (mem_ops now) json now s (?pre @ a) sa = (None, s1)"
    and s1: "mem.signals_as json ?pre s1 [a \<mapsto> sa]" "mem_content s1 = (mem_content s)(?pre @ a \<mapsto> da)"
    using mem.write_signals assms(8,9) ids(2) by metis
  from s1(1) obtain s2 where
    w2: "write_signal (mem_ops t) json t s1 (?pre @ b) sb = (None, s2)"
    and s2: "mem.signals_as json ?pre s2 [a \<mapsto> sa, b \<mapsto> sb]" "mem_content s2 = (mem_content s1)(?pre @ b \<mapsto> db)"
    using mem.write_signals assms(12,13) ids(3) by metis
  have o: "?others s1 = s2" using w2 by (simp add: WriteSignalForPeer_def pre)
  let ?p = "PunchParams_defaults p"
  have p: "pp_SelfID ?p = a" "pp_TargetID ?p = b" "pp_SelfAddr ?p = pp_SelfAddr p"
    using assms(4,5) by (simp_all add: PunchParams_defaults_def)
  have poll: "poll_loop (mem_ops now) json ?p s1 (replicate k id @ [?others]) = (Some sb, s2)"
    using mem.poll_meets [OF s1(1) ids(1) assms(10,3), where others = ?others and p = ?p] s2(1) p
    unfolding o by blast
  obtain s3 where c: "CleanupSignal (mem_ops now) s2 a b = (None, s3)" "mem_ok s3"
    "mem_content s3 = (\<lambda>x. if prefix ?pre x then None else mem_content s2 x)"
    using mem.CleanupSignal_all s2(1) by (metis mem.signals_as_def)
  have none: "mem_content s x = None" if "prefix ?pre x" for x using that assms(2) by (auto simp: prefix_def)
  have "mem_content s3 = mem_content s"
    unfolding c(3) s2(2) s1(2) using none by (auto simp: fun_eq_iff)
  moreover from this have "mem.signals_as json (signalPrefix b a) s3 Map.empty"
    using c(2) assms(2) by (simp add: mem.signals_as_def signal_at_def signalPrefix_sym [of b a])
  then have "ReadSignals (mem_ops now) json s3 b a = Inr (None, None)" by (rule mem.ReadSignals_none)
  moreover have "WriteSignalForPeer (mem_ops now) json now s a b (sa\<lparr>sg_Time := 0\<rparr>) = (None, s1)"
    using w1 by (simp add: WriteSignalForPeer_def pre write_signal_def)
  ultimately show ?thesis
    using assms(6,14) poll c(1) by (simp add: AttemptHolePunch_def sa p)
qed

definition punchSignal :: "string \<Rightarrow> string \<Rightarrow> Signal" where
  "punchSignal n addr = \<lparr>sg_NodeID = n, sg_Addr = addr, sg_Nonce = ''0a'', sg_Time = 5\<rparr>"

definition punchCodec :: sig_codec where
  "punchCodec = \<lparr>sc_marshal = (\<lambda>x. if x = punchSignal ''a'' ''1:1'' then Some [1] else if x = punchSignal ''b'' ''2:2'' then Some [2] else None),
     sc_unmarshal = (\<lambda>d. if d = [1] then Some (punchSignal ''a'' ''1:1'') else if d = [2] then Some (punchSignal ''b'' ''2:2'') else None)\<rparr>"

definition punchNet :: "string punch_net" where
  "punchNet = \<lparr>pn_rand = Some [10], pn_resolve = Some, pn_ip = id, pn_dial = (\<lambda>a _. if a = ''2:2'' then Some 7 else None)\<rparr>"

definition punchParams :: PunchParams where
  "punchParams = \<lparr>pp_SelfID = ''a'', pp_TargetID = ''b'', pp_SelfAddr = ''1:1'', pp_PollInterval = 0, pp_Timeout = 0\<rparr>"

theorem AttemptHolePunch_meets_witness:
  "fst (AttemptHolePunch (mem_ops 5) punchCodec punchNet 5 punchParams NewMemoryObjectStore
     (replicate 3 id @ [\<lambda>s. snd (WriteSignalForPeer (mem_ops 5) punchCodec 5 s ''b'' ''a'' (punchSignal ''b'' ''2:2''))])) = Inr 7"
proof -
  have hex: "EncodeToString [10] = ''0a''" by code_simp
  have ne: "punchSignal ''b'' ''2:2'' \<noteq> punchSignal ''a'' ''1:1''" by (simp add: punchSignal_def)
  show ?thesis
    using AttemptHolePunch_meets [of NewMemoryObjectStore "''a''" "''b''" punchParams punchNet "[10]" _ 5 punchCodec "[1]"
        "punchSignal ''b'' ''2:2''" 5 "[2]" 3, OF _ _ _ _ _ _ refl] ne
    by (simp add: hex punch_ticks_def PunchParams_defaults_def mem_ok_def mem_content_def NewMemoryObjectStore_def punchParams_def punchNet_def punchCodec_def
        punchSignal_def [symmetric] punch_dial_def split_beta Let_def) (simp add: punchSignal_def)
qed

end
