(* ===== verification/Relay.thy ===== *)
theory Relay
  imports Transport
begin

text \<open>
  \<open>relay/relay.go\<close> and \<open>relay/client.go\<close>: relaying a stream through a third node.

  A request stream is the bytes the server reads from it. What quic-go does with the stream to the
  target (opening it, accepting the header, the bytes it answers) is the record \<open>relay_net\<close>. The two
  copy loops run until both streams end: each side gets all bytes of the other.
\<close>

section \<open>Model\<close>

definition relay_header :: "string \<Rightarrow> bytes" where
  "relay_header nodeID = [StreamTypeRelay, of_nat (length nodeID)] @ str_bytes nodeID"

datatype relay_error = RelayOpenStream | RelayWriteHeader

text \<open>\<open>writes\<close> says whether the header is accepted. The result is the connection of the stream.\<close>

definition DialViaRelay ::
  "quic_net \<Rightarrow> ('h Transport \<Rightarrow> 'h Transport) \<Rightarrow> (bytes \<Rightarrow> bool) \<Rightarrow> 'h Transport \<Rightarrow> string \<Rightarrow> string \<Rightarrow>
     (relay_error + conn \<times> bytes) \<times> 'h Transport" where
  "DialViaRelay net meanwhile writes t relayAddr targetNodeID =
     (case OpenStream net meanwhile t relayAddr of
        (None, t1) \<Rightarrow> (Inl RelayOpenStream, t1)
      | (Some c, t1) \<Rightarrow>
          (let header = relay_header targetNodeID
           in if writes header then (Inr (c, header), t1) else (Inl RelayWriteHeader, t1)))"

definition findAddrForNode :: "'h Transport \<Rightarrow> string \<Rightarrow> string" where
  "findAddrForNode t nodeID = ''''"

record relay_net =
  rn_open :: "conn \<Rightarrow> bool"
  rn_header :: "bytes \<Rightarrow> bool"
  rn_reply :: bytes

text \<open>\<open>Bridged c h to back\<close>: the target behind connection \<open>c\<close> gets the header \<open>h\<close> and then the bytes \<open>to\<close>, and
  the client gets \<open>back\<close>.\<close>

datatype relay_outcome = ReadLengthFailed | InvalidLength | ReadIDFailed | NoTarget string | OpenFailed conn
  | HeaderFailed conn | Bridged conn bytes bytes bytes

definition handleRelay ::
  "quic_net \<Rightarrow> relay_net \<Rightarrow> 'h Transport \<Rightarrow> string \<Rightarrow> bytes \<Rightarrow> relay_outcome \<times> 'h Transport" where
  "handleRelay net rn t from stream =
     (case ReadFull 1 stream of
        None \<Rightarrow> (ReadLengthFailed, t)
      | Some (lenBuf, rest) \<Rightarrow>
          (let idLen = unat (hd lenBuf) in
           if idLen = 0 \<or> idLen > 255 then (InvalidLength, t)
           else (case ReadFull idLen rest of
                   None \<Rightarrow> (ReadIDFailed, t)
                 | Some (idBuf, rest) \<Rightarrow>
                     (let targetNodeID = bytes_str idBuf in
                      case GetConnection net t (findAddrForNode t targetNodeID) of
                        (None, t1) \<Rightarrow> (NoTarget targetNodeID, t1)
                      | (Some c, t1) \<Rightarrow>
                          if \<not> rn_open rn c then (OpenFailed c, t1)
                          else (let header = relay_header from
                                in if \<not> rn_header rn header then (HeaderFailed c, t1)
                                   else (Bridged c header rest (rn_reply rn), t1))))))"

definition Relay_NewServer :: "'h Transport \<Rightarrow> 'h \<Rightarrow> 'h Transport" where
  "Relay_NewServer t h = RegisterBidiHandler t StreamTypeRelay h"

subsection \<open>A stream as a connection\<close>

text \<open>The state of a stream that the wrapper \<open>StreamConn\<close> changes; the two results of \<open>ok\<close> say
  whether setting the read and the write deadline succeeds.\<close>

record StreamConn =
  sc_readCancelled :: bool
  sc_closed :: bool
  sc_readDeadline :: "int option"
  sc_writeDeadline :: "int option"

definition StreamConn_Close :: "StreamConn \<Rightarrow> StreamConn" where
  "StreamConn_Close c = c\<lparr>sc_readCancelled := True, sc_closed := True\<rparr>"

definition StreamConn_SetReadDeadline :: "bool \<times> bool \<Rightarrow> StreamConn \<Rightarrow> int \<Rightarrow> bool \<times> StreamConn" where
  "StreamConn_SetReadDeadline oks c t = (fst oks, if fst oks then c\<lparr>sc_readDeadline := Some t\<rparr> else c)"

definition StreamConn_SetWriteDeadline :: "bool \<times> bool \<Rightarrow> StreamConn \<Rightarrow> int \<Rightarrow> bool \<times> StreamConn" where
  "StreamConn_SetWriteDeadline oks c t = (snd oks, if snd oks then c\<lparr>sc_writeDeadline := Some t\<rparr> else c)"

definition StreamConn_SetDeadline :: "bool \<times> bool \<Rightarrow> StreamConn \<Rightarrow> int \<Rightarrow> bool \<times> StreamConn" where
  "StreamConn_SetDeadline oks c t =
     (let (ok, c1) = StreamConn_SetReadDeadline oks c t
      in if \<not> ok then (False, c1) else StreamConn_SetWriteDeadline oks c1 t)"

section \<open>Requests\<close>

lemma bytes_str_take: "bytes_str (take n (str_bytes s)) = take n s"
proof -
  have "take n (str_bytes s) = str_bytes (take n s)" by (simp add: str_bytes_def take_map)
  then show ?thesis by simp
qed

text \<open>What the server makes of a request with any identifier: the length is sent modulo 256.\<close>

lemma handleRelay_request:
  assumes "n = length nodeID mod 256"
  shows "handleRelay net rn t from (tl (relay_header nodeID) @ data) =
    (if n = 0 then (InvalidLength, t)
     else case GetConnection net t '''' of
       (None, t1) \<Rightarrow> (NoTarget (take n nodeID), t1)
     | (Some c, t1) \<Rightarrow>
         if \<not> rn_open rn c then (OpenFailed c, t1)
         else if \<not> rn_header rn (relay_header from) then (HeaderFailed c, t1)
         else (Bridged c (relay_header from) (str_bytes (drop n nodeID) @ data) (rn_reply rn), t1))"
proof -
  have len: "unat (of_nat (length nodeID) :: byte) = n" using assms by (simp add: unat_of_nat_byte)
  have n: "n < 256" "n \<le> length nodeID" using assms by (simp_all add: mod_less_eq_dividend)
  have s: "str_bytes nodeID @ data = take n (str_bytes nodeID) @ (drop n (str_bytes nodeID) @ data)"
    by (metis append_assoc append_take_drop_id)
  have "ReadFull n (str_bytes nodeID @ data) = Some (take n (str_bytes nodeID), drop n (str_bytes nodeID) @ data)"
    unfolding s using n(2) by (intro ReadFull_append') simp
  moreover have "drop n (str_bytes nodeID) = str_bytes (drop n nodeID)" by (simp add: str_bytes_def drop_map)
  moreover have "ReadFull 1 (x # xs) = Some ([x], xs)" for x xs by (simp add: ReadFull_def)
  moreover have "tl (relay_header nodeID) @ data = of_nat (length nodeID) # str_bytes nodeID @ data"
    by (simp add: relay_header_def)
  ultimately show ?thesis
    using n(1)
    by (simp add: handleRelay_def findAddrForNode_def bytes_str_take Let_def len del: One_nat_def
        split: option.split prod.split)
qed

section \<open>Properties\<close>

text \<open>C36: the relay server. A request of \<open>DialViaRelay\<close> reaches the handler through the dispatcher with its
  identifier, cut to its length modulo 256; but as long as no connection is stored under the
  empty address the server finds no target and never bridges, whatever connections it has.\<close>

theorem handleRelay_never_bridges:
  assumes "DialViaRelay net mw writes u relayAddr nodeID = (Inr (c, header), u')"
    and "bidiHandlers t StreamTypeRelay = Some h" and "map_of (appConns t) '''' = None"
  shows "\<exists>rest. fst (dispatchBidiStream t from (header @ data) True) = Handled h from rest \<and>
    handleRelay net rn t from rest =
      (if length nodeID mod 256 = 0 then InvalidLength else NoTarget (take (length nodeID mod 256) nodeID), t)"
proof -
  have h: "header = relay_header nodeID"
    using assms(1) by (auto simp: DialViaRelay_def Let_def split: option.splits prod.splits if_splits)
  have "header @ data = StreamTypeRelay # tl (relay_header nodeID) @ data" by (simp add: h relay_header_def)
  moreover have "StreamTypeRelay \<noteq> StreamTypeRepair" "StreamTypeRelay \<noteq> MsgTypeEagerGossip"
    by (simp_all add: StreamTypeRelay_def StreamTypeRepair_def MsgTypeEagerGossip_def)
  ultimately have "fst (dispatchBidiStream t from (header @ data) True) = Handled h from (tl (relay_header nodeID) @ data)"
    using assms(2) by simp
  moreover have "GetConnection net t '''' = (None, t)" using assms(3) by (simp add: GetConnection_def)
  ultimately show ?thesis using handleRelay_request [OF refl, of net rn t "from" nodeID data] by auto
qed

definition relayTransport :: "unit Transport" where
  "relayTransport = (Relay_NewServer emptyTransport ())\<lparr>appConns := [(''p:1'', 3)]\<rparr>"

definition relayNet :: quic_net where
  "relayNet = sampleNet\<lparr>opensStream := (\<lambda>_. True)\<rparr>"

theorem handleRelay_never_bridges_witness:
  "\<exists>rest. fst (dispatchBidiStream relayTransport ''c:1'' (relay_header ''node-b'' @ [1, 2]) True) = Handled () ''c:1'' rest \<and>
     handleRelay relayNet \<lparr>rn_open = (\<lambda>_. True), rn_header = (\<lambda>_. True), rn_reply = []\<rparr> relayTransport ''c:1'' rest =
       (NoTarget ''node-b'', relayTransport)"
proof -
  obtain u' where d: "DialViaRelay relayNet id (\<lambda>_. True) (emptyTransport :: unit Transport) ''p:1'' ''node-b'' =
      (Inr (7, relay_header ''node-b''), u')"
    by (simp add: DialViaRelay_def OpenStream_def open_on_def relayNet_def transport_eval)
  have "bidiHandlers relayTransport StreamTypeRelay = Some ()" "map_of (appConns relayTransport) [] = None"
    by (simp_all add: relayTransport_def Relay_NewServer_def RegisterBidiHandler_def)
  from handleRelay_never_bridges [OF d this, of "''c:1''" "[1, 2]"
      "\<lparr>rn_open = (\<lambda>_. True), rn_header = (\<lambda>_. True), rn_reply = []\<rparr>"]
  show ?thesis by simp
qed

end
