(* ===== verification/S3nat.thy ===== *)
theory S3nat
  imports Mesh Bootstrap HolePunch Relay
begin

text \<open>
  \<open>s3nat/s3nat.go\<close>: the discovery extension that finds peers in the object store and escalates from a
  memberlist join over a hole punch to a relay.

  The store, the network, memberlist and the clock are the record \<open>nat_env\<close>; what other nodes do to
  the store while a hole punch to a peer polls is \<open>ne_ticks\<close>. \<open>ex_attempts\<close> records which attempts were
  made for which peer, and whether they succeeded.
\<close>

section \<open>Model\<close>

record ('s, 'a) nat_env =
  ne_ops :: "'s store_ops"
  ne_json :: reg_codec
  ne_sigs :: sig_codec
  ne_now :: int
  ne_ml :: ml_env
  ne_net :: quic_net
  ne_punch :: "'a punch_net"
  ne_ticks :: "string \<Rightarrow> ('s \<Rightarrow> 's) list"
  ne_writes :: "bytes \<Rightarrow> bool"

datatype attempt = TriedJoin string bool | TriedPunch string bool | TriedRelay string string bool

text \<open>The interval is in seconds; \<open>ex_polling\<close> says that the poll loop runs.\<close>

record 's Extension =
  ex_PollInterval :: int
  ex_store :: 's
  ex_reg :: "NodeRegistration option"
  ex_cancelled :: bool
  ex_polling :: bool
  ex_attempts :: "attempt list"

definition s3_withDefaults :: "int \<Rightarrow> int" where
  "s3_withDefaults pollInterval = (if pollInterval = 0 then 60 else pollInterval)"

definition Extension_New :: "'s \<Rightarrow> int \<Rightarrow> 's Extension" where
  "Extension_New store pollInterval =
     \<lparr>ex_PollInterval = s3_withDefaults pollInterval, ex_store = store, ex_reg = None, ex_cancelled = False,
      ex_polling = False, ex_attempts = []\<rparr>"

definition Extension_SetupTLS ::
  "('s, 'a) nat_env \<Rightarrow> 't tls_util \<Rightarrow> (nat \<Rightarrow> (bytes \<times> bytes) option) \<Rightarrow> 's Extension \<Rightarrow> string \<Rightarrow> string list \<Rightarrow>
     ((tls_error + 't) \<times> 's Extension) option" where
  "Extension_SetupTLS P tls gen ex nodeID ips =
     map_option (\<lambda>(r, s). (r, ex\<lparr>ex_store := s\<rparr>)) (SetupClusterTLS (Some (ne_ops P)) tls gen (ex_store ex) nodeID ips)"

definition tried :: "'s Extension \<Rightarrow> attempt \<Rightarrow> 's Extension" where
  "tried ex a = ex\<lparr>ex_attempts := ex_attempts ex @ [a]\<rparr>"

definition tryMemberlistJoin ::
  "('s, 'a) nat_env \<Rightarrow> ('v, 'c) Mesh \<times> 's Extension \<Rightarrow> NodeRegistration \<Rightarrow> bool \<times> ('v, 'c) Mesh \<times> 's Extension" where
  "tryMemberlistJoin P mx peer =
     (let (me, ex) = mx in
      if nr_Addrs peer = [] then (False, me, ex)
      else (let ((_, ok), mem) = Membership_Join (ne_ml P) (me_Membership me) (take 1 (nr_Addrs peer))
            in (ok, me\<lparr>me_Membership := mem\<rparr>, tried ex (TriedJoin (nr_NodeID peer) ok))))"

text \<open>Without a transport, or with a transport but no memberlist, the code dereferences nil.\<close>

definition tryHolePunch ::
  "('s, 'a) nat_env \<Rightarrow> ('v, 'c) Mesh \<times> 's Extension \<Rightarrow> NodeRegistration \<Rightarrow> string \<Rightarrow>
     (bool \<times> ('v, 'c) Mesh \<times> 's Extension) option" where
  "tryHolePunch P mx peer selfAddr =
     (let (me, ex) = mx in
      if nr_PublicAddr peer = '''' then Some (False, me, ex)
      else (case me_Transport me of
              None \<Rightarrow> None
            | Some t \<Rightarrow>
                (let params = \<lparr>pp_SelfID = cf_NodeID (me_cfg me), pp_TargetID = nr_NodeID peer, pp_SelfAddr = selfAddr,
                               pp_PollInterval = 0, pp_Timeout = 0\<rparr>;
                     (r, s) = AttemptHolePunch (ne_ops P) (ne_sigs P) (ne_punch P) (ne_now P) params (ex_store ex)
                                (ne_ticks P (nr_NodeID peer));
                     ex1 = ex\<lparr>ex_store := s\<rparr>
                 in case r of
                      Inl _ \<Rightarrow> Some (False, me, tried ex1 (TriedPunch (nr_NodeID peer) False))
                    | Inr conn \<Rightarrow>
                        (let t1 = AddConnection (ne_net P) t conn;
                             addr = remoteAddr (ne_net P) conn
                         in case InjectConnection (ne_ml P) (me_Membership me) conn addr of
                              None \<Rightarrow> None
                            | Some (_, mem) \<Rightarrow>
                                Some (True, me\<lparr>me_Transport := Some t1, me_Membership := mem\<rparr>,
                                  tried ex1 (TriedPunch (nr_NodeID peer) True))))))"

definition relay_addr :: "NodeRegistration \<Rightarrow> string" where
  "relay_addr p = (if nr_PublicAddr p = '''' \<and> nr_Addrs p \<noteq> [] then nr_Addrs p ! 0 else nr_PublicAddr p)"

text \<open>The stream that a relay gives is not used any further.\<close>

fun relay_loop ::
  "('s, 'a) nat_env \<Rightarrow> NodeRegistration \<Rightarrow> ('v, 'c) Mesh \<times> 's Extension \<Rightarrow> NodeRegistration list \<Rightarrow>
     (('v, 'c) Mesh \<times> 's Extension) option" where
  "relay_loop P target mx [] = Some mx"
| "relay_loop P target (me, ex) (p # ps) =
     (if \<not> nr_IsRelay p \<or> nr_NodeID p = cf_NodeID (me_cfg me) \<or> nr_NodeID p = nr_NodeID target
      then relay_loop P target (me, ex) ps
      else if relay_addr p = '''' then relay_loop P target (me, ex) ps
      else (case me_Transport me of
              None \<Rightarrow> None
            | Some t \<Rightarrow>
                (case DialViaRelay (ne_net P) id (ne_writes P) t (relay_addr p) (nr_NodeID target) of
                   (Inl _, t1) \<Rightarrow>
                     relay_loop P target
                       (me\<lparr>me_Transport := Some t1\<rparr>, tried ex (TriedRelay (nr_NodeID target) (nr_NodeID p) False)) ps
                 | (Inr _, t1) \<Rightarrow>
                     Some (me\<lparr>me_Transport := Some t1\<rparr>, tried ex (TriedRelay (nr_NodeID target) (nr_NodeID p) True)))))"

definition tryRelay ::
  "('s, 'a) nat_env \<Rightarrow> ('v, 'c) Mesh \<times> 's Extension \<Rightarrow> NodeRegistration \<Rightarrow> (('v, 'c) Mesh \<times> 's Extension) option" where
  "tryRelay P mx target =
     (if nr_IsRelay target then Some mx
      else (case DiscoverPeers (ne_ops P) (ne_json P) (ex_store (snd mx)) of
              Inl _ \<Rightarrow> Some mx
            | Inr peers \<Rightarrow> relay_loop P target mx peers))"

definition connect_peer ::
  "('s, 'a) nat_env \<Rightarrow> string \<Rightarrow> ('v, 'c) Mesh \<times> 's Extension \<Rightarrow> NodeRegistration \<Rightarrow> (('v, 'c) Mesh \<times> 's Extension) option" where
  "connect_peer P appAddr mx peer =
     (if nr_NodeID peer = cf_NodeID (me_cfg (fst mx)) then Some mx
      else if IsAlive (me_Membership (fst mx)) (nr_NodeID peer) then Some mx
      else (case tryMemberlistJoin P mx peer of
              (True, mx1) \<Rightarrow> Some mx1
            | (False, mx1) \<Rightarrow>
                (case tryHolePunch P mx1 peer appAddr of
                   None \<Rightarrow> None
                 | Some (True, mx2) \<Rightarrow> Some mx2
                 | Some (False, mx2) \<Rightarrow> tryRelay P mx2 peer)))"

fun connect_loop ::
  "('s, 'a) nat_env \<Rightarrow> string \<Rightarrow> ('v, 'c) Mesh \<times> 's Extension \<Rightarrow> NodeRegistration list \<Rightarrow> (('v, 'c) Mesh \<times> 's Extension) option" where
  "connect_loop P appAddr mx [] = Some mx"
| "connect_loop P appAddr mx (peer # peers) =
     (case connect_peer P appAddr mx peer of None \<Rightarrow> None | Some mx1 \<Rightarrow> connect_loop P appAddr mx1 peers)"

definition discoverAndConnect ::
  "('s, 'a) nat_env \<Rightarrow> ('v, 'c) Mesh \<times> 's Extension \<Rightarrow> string \<Rightarrow> (('v, 'c) Mesh \<times> 's Extension) option" where
  "discoverAndConnect P mx appAddr =
     (case DiscoverPeers (ne_ops P) (ne_json P) (ex_store (snd mx)) of
        Inl _ \<Rightarrow> Some mx
      | Inr peers \<Rightarrow> connect_loop P appAddr mx peers)"

text \<open>The poll loop over the ticks before the context is cancelled.\<close>

fun pollLoop ::
  "('s, 'a) nat_env \<Rightarrow> ('v, 'c) Mesh \<times> 's Extension \<Rightarrow> string \<Rightarrow> nat \<Rightarrow> (('v, 'c) Mesh \<times> 's Extension) option" where
  "pollLoop P mx appAddr 0 = Some mx"
| "pollLoop P mx appAddr (Suc ticks) =
     (case discoverAndConnect P mx appAddr of None \<Rightarrow> None | Some mx1 \<Rightarrow> pollLoop P mx1 appAddr ticks)"

definition bind_addr :: "'c mesh_config \<Rightarrow> string" where
  "bind_addr cfg = JoinHostPort (cf_BindAddr cfg) (itoa (cf_BindPort cfg))"

definition app_addr :: "'c mesh_config \<Rightarrow> string" where
  "app_addr cfg = JoinHostPort (cf_BindAddr cfg) (itoa (cf_BindPort cfg + 1))"

definition start_registration :: "'c mesh_config \<Rightarrow> NodeRegistration" where
  "start_registration cfg =
     \<lparr>nr_NodeID = cf_NodeID cfg, nr_Addrs = [bind_addr cfg, app_addr cfg], nr_PublicAddr = '''', nr_IsRelay = False,
      nr_RegisteredAt = None\<rparr>"

definition Extension_Start ::
  "('s, 'a) nat_env \<Rightarrow> ('v, 'c) Mesh \<Rightarrow> 's Extension \<Rightarrow> (bool \<times> ('v, 'c) Mesh \<times> 's Extension) option" where
  "Extension_Start P me ex =
     (case me_Transport me of
        None \<Rightarrow> None
      | Some t \<Rightarrow>
          (let cfg = me_cfg me;
               me1 = me\<lparr>me_Transport := Some (RegisterReflectHandler ReflectHandler t)\<rparr>;
               reg = start_registration cfg
           in case Register (ne_ops P) (ne_json P) (ne_now P) (ex_store ex) reg of
                (Some _, s) \<Rightarrow> Some (False, me1, ex\<lparr>ex_store := s, ex_cancelled := True\<rparr>)
              | (None, s) \<Rightarrow>
                  (let ex1 = ex\<lparr>ex_store := s, ex_reg := Some reg\<rparr>;
                       me2 = me1\<lparr>me_Membership := SetOnLeave (me_Membership me1) (Some DeregisterFn)\<rparr>
                   in case discoverAndConnect P (me2, ex1) (app_addr cfg) of
                        None \<Rightarrow> None
                      | Some (me3, ex2) \<Rightarrow> Some (True, me3, ex2\<lparr>ex_polling := True\<rparr>))))"

definition Extension_Stop :: "('s, 'a) nat_env \<Rightarrow> 's Extension \<Rightarrow> 's Extension" where
  "Extension_Stop P ex =
     (let ex1 = ex\<lparr>ex_cancelled := True, ex_polling := False\<rparr>
      in case ex_reg ex1 of
           None \<Rightarrow> ex1
         | Some reg \<Rightarrow> ex1\<lparr>ex_store := snd (Deregister (ne_ops P) (ex_store ex1) (nr_NodeID reg))\<rparr>)"

text \<open>The callback for nodes that leave.\<close>

fun leave_call :: "('s, 'a) nat_env \<Rightarrow> 's Extension \<Rightarrow> ('c, mesh_fn) callback \<Rightarrow> 's Extension" where
  "leave_call P ex (CallLeave DeregisterFn nodeID) = ex\<lparr>ex_store := snd (Deregister (ne_ops P) (ex_store ex) nodeID)\<rparr>"
| "leave_call P ex _ = ex"

definition s3nat_dx :: "('s, 'a) nat_env \<Rightarrow> ('s Extension, ('v, 'c) Mesh) discovery" where
  "s3nat_dx P = \<lparr>dx_Start = Extension_Start P, dx_Stop = Extension_Stop P\<rparr>"

text \<open>A mesh without an extension, or with this one.\<close>

definition discovery_of :: "('s, 'a) nat_env \<Rightarrow> bool \<Rightarrow> ('s Extension, ('v, 'c) Mesh) discovery option" where
  "discovery_of P use = (if use then Some (s3nat_dx P) else None)"

section \<open>The extension keeps the contract of the mesh\<close>

lemma same_core_refl [simp]: "same_core me me"
  by (simp add: same_core_def)

lemma same_core_trans: "same_core me me' \<Longrightarrow> same_core me' me'' \<Longrightarrow> same_core me me''"
  by (simp add: same_core_def)

lemma same_core_transport:
  "me_Transport me = Some t \<Longrightarrow> tr_closed t' = tr_closed t \<Longrightarrow> same_core me (me\<lparr>me_Transport := Some t'\<rparr>)"
  by (simp add: same_core_def)

lemma same_core_membership:
  "mem\<lparr>ms_onLeave := None, ml_calls := []\<rparr> = (me_Membership me)\<lparr>ms_onLeave := None, ml_calls := []\<rparr> \<Longrightarrow>
   same_core me (me\<lparr>me_Membership := mem\<rparr>)"
  by (simp add: same_core_def)


lemma DialViaRelay_closed: "tr_closed (snd (DialViaRelay net id writes t a n)) = tr_closed t"
proof -
  have "tr_closed (snd (getOrDial net id t a)) = tr_closed t"
    by (auto simp: getOrDial_def GetConnection_def dial_finish_def split: option.splits prod.splits)
  then have "tr_closed (snd (OpenStream net id t a)) = tr_closed t"
    by (auto simp: OpenStream_def open_on_def compare_and_delete_def split: prod.split option.split)
  then show ?thesis by (auto simp: DialViaRelay_def Let_def split: prod.split option.split)
qed

lemma tryMemberlistJoin_core:
  "tryMemberlistJoin P (me, ex) peer = (ok, me', ex') \<Longrightarrow> same_core me me'"
  by (auto simp: tryMemberlistJoin_def Membership_Join_def ml_log_def same_core_def Let_def split: if_splits prod.splits)

lemma tryHolePunch_core:
  assumes "running me"
  obtains ok me' ex' where "tryHolePunch P (me, ex) peer a = Some (ok, me', ex')" "same_core me me'"
proof -
  obtain t where t: "me_Transport me = Some t" "ms_list (me_Membership me)" "ms_quicTransport (me_Membership me)"
    using assms by (auto simp: running_def resources_def)
  have "\<exists>r. tryHolePunch P (me, ex) peer a = Some r"
    using t by (auto simp: tryHolePunch_def InjectConnection_def Let_def split: prod.split sum.split)
  then obtain ok me' ex' where r: "tryHolePunch P (me, ex) peer a = Some (ok, me', ex')" by (metis prod_cases3)
  then have "same_core me me'"
    using t by (auto simp: tryHolePunch_def InjectConnection_def AddConnection_def ml_log_def same_core_def Let_def
        split: if_splits prod.splits sum.splits)
  with r show thesis by (rule that)
qed

lemma relay_loop_core:
  "running me \<Longrightarrow> \<exists>me' ex'. relay_loop P target (me, ex) ps = Some (me', ex') \<and> same_core me me'"
proof (induction ps arbitrary: me ex)
  case (Cons p ps)
  obtain t where t: "me_Transport me = Some t" using Cons.prems by (auto simp: running_def)
  obtain r t1 where d: "DialViaRelay (ne_net P) id (ne_writes P) t (relay_addr p) (nr_NodeID target) = (r, t1)" by fastforce
  let ?me = "me\<lparr>me_Transport := Some t1\<rparr>"
  have "tr_closed t1 = tr_closed t" using DialViaRelay_closed d by (metis snd_conv)
  then have core: "same_core me ?me" using t by (simp add: same_core_def)
  then have run: "running ?me" using Cons.prems same_core_ok(2) by blast
  have "\<exists>me' ex''. relay_loop P target (?me, ex') ps = Some (me', ex'') \<and> same_core me me'" for ex'
    using Cons.IH [OF run, of ex'] core same_core_trans by blast
  then show ?case using Cons.IH [OF Cons.prems] core t d by (cases r) auto
qed simp

lemma connect_peer_core:
  assumes "running me"
  shows "\<exists>me' ex'. connect_peer P a (me, ex) peer = Some (me', ex') \<and> same_core me me'"
proof -
  obtain ok me1 ex1 where j: "tryMemberlistJoin P (me, ex) peer = (ok, me1, ex1)" by (metis prod_cases3)
  have c1: "same_core me me1" by (rule tryMemberlistJoin_core [OF j])
  then have "running me1" using assms same_core_ok(2) by blast
  from this obtain ok2 me2 ex2 where h: "tryHolePunch P (me1, ex1) peer a = Some (ok2, me2, ex2)" "same_core me1 me2"
    by (rule tryHolePunch_core)
  then have "running me2" using \<open>running me1\<close> same_core_ok(2) by blast
  then have "\<exists>me' ex'. tryRelay P (me2, ex2) peer = Some (me', ex') \<and> same_core me2 me'"
    using relay_loop_core by (auto simp: tryRelay_def split: sum.split)
  then have "\<exists>me' ex'. tryRelay P (me2, ex2) peer = Some (me', ex') \<and> same_core me me'" and "same_core me me2"
    using same_core_trans [OF c1 h(2)] same_core_trans by blast+
  then show ?thesis using j h(1) c1 by (cases ok; cases ok2) (auto simp: connect_peer_def)
qed

lemma connect_loop_core:
  "running me \<Longrightarrow> \<exists>me' ex'. connect_loop P a (me, ex) peers = Some (me', ex') \<and> same_core me me'"
proof (induction peers arbitrary: me ex)
  case (Cons p ps)
  obtain me1 ex1 where c: "connect_peer P a (me, ex) p = Some (me1, ex1)" "same_core me me1"
    using connect_peer_core [OF Cons.prems] by blast
  then have "running me1" using Cons.prems same_core_ok(2) by blast
  from Cons.IH [OF this, of ex1] show ?case using c by (auto intro: same_core_trans)
qed simp

lemma discoverAndConnect_core:
  "running me \<Longrightarrow> \<exists>me' ex'. discoverAndConnect P (me, ex) a = Some (me', ex') \<and> same_core me me'"
  using connect_loop_core [of me P a ex] by (simp add: discoverAndConnect_def split: sum.split)

lemma Extension_Start_core:
  assumes "running me"
  shows "\<exists>ok me' ex'. Extension_Start P me ex = Some (ok, me', ex') \<and> same_core me me'"
proof -
  obtain t where t: "me_Transport me = Some t" using assms by (auto simp: running_def)
  let ?me1 = "me\<lparr>me_Transport := Some (RegisterReflectHandler ReflectHandler t)\<rparr>"
  let ?me2 = "?me1\<lparr>me_Membership := SetOnLeave (me_Membership me) (Some DeregisterFn)\<rparr>"
  have c: "same_core me ?me1" "same_core me ?me2"
    using t by (simp_all add: same_core_def SetOnLeave_def RegisterReflectHandler_def RegisterDatagramHandler_def)
  then have "running ?me2" using assms same_core_ok(2) by blast
  note d = discoverAndConnect_core [OF this, where P = P]
  obtain r s where reg: "Register (ne_ops P) (ne_json P) (ne_now P) (ex_store ex) (start_registration (me_cfg me)) = (r, s)" by fastforce
  show ?thesis
  proof (cases r)
    case None
    let ?ex = "ex\<lparr>ex_store := s, ex_reg := Some (start_registration (me_cfg me))\<rparr>"
    from d [of ?ex "app_addr (me_cfg me)"] show ?thesis
      using t reg None c(2) by (auto simp: Extension_Start_def Let_def intro: same_core_trans)
  next
    case (Some err)
    then show ?thesis using t reg c(1) by (auto simp: Extension_Start_def Let_def)
  qed
qed


lemma discovery_of_Some: "discovery_of P use = Some dx \<Longrightarrow> dx_Start dx = Extension_Start P"
  by (auto simp: discovery_of_def s3nat_dx_def split: if_splits)

lemma Extension_Start_keeps:
  "running me \<Longrightarrow> Extension_Start P me d = Some (ok, me', d') \<Longrightarrow> same_core me me'"
  using Extension_Start_core [of me P d] by auto

interpretation s3: discovery_extension "discovery_of P use" for P :: "('s, 'a) nat_env" and use
proof (unfold_locales, goal_cases)
  case (1 dx me d)
  then show ?case using Extension_Start_core [of me P d] discovery_of_Some [OF 1(1)] by auto
next
  case (2 dx me d ok me' d')
  then show ?case using Extension_Start_keeps discovery_of_Some [OF 2(1)] by metis
qed


section \<open>What discovery does with the registrations of the extension\<close>

text \<open>The registry as the extension fills it: starts of nodes, and removals of nodes that stopped or were
  reported dead.\<close>

datatype 'c s3_op = S3Start "'c mesh_config" int | S3Gone string

fun reg_of :: "'c s3_op \<Rightarrow> reg_op" where
  "reg_of (S3Start cfg now) = RegOp (start_registration cfg) now"
| "reg_of (S3Gone nodeID) = DeregOp nodeID"

definition plain :: "NodeRegistration \<Rightarrow> bool" where
  "plain p \<longleftrightarrow> nr_PublicAddr p = '''' \<and> \<not> nr_IsRelay p \<and> nr_Addrs p \<noteq> []"

lemma plain_registry:
  "foldl registry_spec Map.empty (map reg_of ops) x = Some r \<Longrightarrow> plain r"
proof (induction ops arbitrary: r rule: rev_induct)
  case (snoc op ops)
  then show ?case
    by (cases op) (auto simp: plain_def start_registration_def stamped_def split: if_splits)
qed simp

lemma relay_loop_plain: "list_all plain ps \<Longrightarrow> relay_loop P target mx ps = Some mx"
  by (induction ps arbitrary: mx) (auto simp: plain_def)

definition wanted :: "('v, 'c) Mesh \<Rightarrow> NodeRegistration \<Rightarrow> bool" where
  "wanted me p \<longleftrightarrow> nr_NodeID p \<noteq> cf_NodeID (me_cfg me) \<and> \<not> IsAlive (me_Membership me) (nr_NodeID p)"

definition join_only :: "('s, 'a) nat_env \<Rightarrow> NodeRegistration \<Rightarrow> attempt" where
  "join_only P p = TriedJoin (nr_NodeID p) (snd (ml_join (ne_ml P) (take 1 (nr_Addrs p))))"

lemma connect_peer_plain:
  assumes "DiscoverPeers (ne_ops P) (ne_json P) (ex_store ex) = Inr all" "list_all plain all" "plain p" "ms_list (me_Membership me)"
  shows "connect_peer P a (me, ex) p =
    Some (if wanted me p
          then (me\<lparr>me_Membership := ml_log (me_Membership me) (MlJoin (take 1 (nr_Addrs p)))\<rparr>, tried ex (join_only P p))
          else (me, ex))"
  using assms
  by (auto simp: connect_peer_def wanted_def tryMemberlistJoin_def Membership_Join_def tryHolePunch_def tryRelay_def plain_def
      tried_def join_only_def relay_loop_plain split_beta Let_def split: bool.split)

lemma ms_list_ml_log [simp]: "ms_list (ml_log m c) = ms_list m"
  by (simp add: ml_log_def)

lemma connect_loop_plain:
  assumes "DiscoverPeers (ne_ops P) (ne_json P) (ex_store ex) = Inr all" "list_all plain all" "list_all plain ps" "ms_list (me_Membership me)"
  shows "\<exists>me' ex'. connect_loop P a (me, ex) ps = Some (me', ex') \<and> me_Transport me' = me_Transport me \<and>
    ex_store ex' = ex_store ex \<and> ex_attempts ex' = ex_attempts ex @ map (join_only P) (filter (wanted me) ps)"
  using assms
proof (induction ps arbitrary: me ex)
  case (Cons p ps)
  let ?me = "me\<lparr>me_Membership := ml_log (me_Membership me) (MlJoin (take 1 (nr_Addrs p)))\<rparr>"
  have w: "wanted ?me = wanted me"
    by (simp_all add: wanted_def ml_log_def IsAlive_def peers_of_def fun_eq_iff)
  have ex: "ex_store (tried ex x) = ex_store ex" "ex_attempts (tried ex x) = ex_attempts ex @ [x]" for x
    by (simp_all add: tried_def)
  note step = connect_peer_plain [OF Cons.prems(1,2) _ Cons.prems(4), of p a]
  show ?case
  proof (cases "wanted me p")
    case True
    from Cons.IH [of "tried ex (join_only P p)" ?me] show ?thesis
      using Cons.prems step True by (simp add: w ex del: One_nat_def)
  next
    case False
    then show ?thesis using Cons.IH [OF Cons.prems(1,2) _ Cons.prems(4)] Cons.prems(3) step by simp
  qed
qed simp

section \<open>Properties\<close>


text \<open>Node \<open>b\<close> is registered and cannot be joined.\<close>

definition s3Config :: "string \<Rightarrow> nat mesh_config" where
  "s3Config x = \<lparr>cf_NodeID = x, cf_BindAddr = ''0.0.0.0'', cf_BindPort = 7946, cf_SeedAddrs = [], cf_TLS = Some 1,
     cf_AdvertiseAddr = '''', cf_AdvertisePort = 0, cf_Meta = memberMeta ''h'', cf_Overlay = ov_cfg defaultOverlay,
     cf_Engine = ge_cfg sampleEngine\<rparr>"

definition s3Reg :: NodeRegistration where
  "s3Reg = stamped (start_registration (s3Config ''b'')) 1"

definition s3Codec :: reg_codec where
  "s3Codec = \<lparr>rc_marshal = (\<lambda>r. if r = s3Reg then Some [1] else None), rc_unmarshal = (\<lambda>d. if d = [1] then Some s3Reg else None)\<rparr>"

definition s3Mesh :: "(nat, nat) Mesh" where
  "s3Mesh = (new_mesh (s3Config ''a''))\<lparr>me_Transport := Some emptyTransport,
     me_Membership := zeroMembership\<lparr>ms_list := True, ms_quicTransport := True, ml_up := True, qt_up := True\<rparr>\<rparr>"

definition s3Env :: "(MemoryObjectStore, string) nat_env" where
  "s3Env = \<lparr>ne_ops = mem_ops 0, ne_json = s3Codec, ne_sigs = punchCodec, ne_now = 0, ne_ml = memberEnv\<lparr>ml_join := (\<lambda>_. (0, False))\<rparr>,
     ne_net = relayNet, ne_punch = punchNet, ne_ticks = (\<lambda>_. []), ne_writes = (\<lambda>_. True)\<rparr>"

definition s3Ext :: "MemoryObjectStore Extension" where
  "s3Ext = Extension_New (registry_run (mem_ops 0) s3Codec NewMemoryObjectStore (map reg_of [S3Start (s3Config ''b'') 1])) 0"


text \<open>A node that memberlist reports dead, or that stops, is gone from the registry, and nothing else is.\<close>

lemma leave_call_deregisters:
  assumes "ne_ops P = mem_ops now" and "mem.registered_as json (ex_store ex) m"
  shows "mem.registered_as json (ex_store (leave_call P ex (CallLeave DeregisterFn x))) (m(x := None))"
  using mem.registered_step [OF assms(2), of "DeregOp x" now] assms(1) by simp

end
