(* ===== verification/Spec2Isabelle.thy ===== *)
theory Spec2Isabelle
  imports ApplierOrder Network S3nat
begin

text \<open>
  A verification library for gossip-mesh, a Go library that broadcasts messages in a cluster.

  \<^bold>\<open>The program.\<close> A node runs four layers that \<open>mesh.Join\<close> puts together. \<open>membership\<close> keeps a table of
  peers from the events of memberlist and calls back when it changes. \<open>overlay\<close> classifies the peers
  by round-trip time: eager peers get every message at once, lazy peers get batches. \<open>transport\<close>
  keeps QUIC connections and dispatches inbound streams and datagrams by their first byte.
  \<open>engine\<close> is the gossip loop: it marks entries as seen, forwards them, delivers them in order per topic
  and pulls missing entries from peers. An optional discovery extension, \<open>s3nat\<close>, registers nodes in
  an object store (\<open>objstore\<close>, \<open>bootstrap\<close>) and connects to registered peers by memberlist, by hole
  punching (\<open>holepunch\<close>) or through a relay (\<open>relay\<close>, \<open>natutil\<close>).

  \<^bold>\<open>Theories and what they model\<close> (paths under \<open>src/\<close>; a definition has the name of the Go function,
  with the type or the package in front where names clash):

  \<^item> \<open>Prelude\<close>: integers at their width, byte slices, big-endian codecs, \<open>io.ReadFull\<close>. \<open>Hosts\<close>: decimal and
    hexadecimal numbers, \<open>JoinHostPort\<close>, \<open>SplitHostPort\<close>.
  \<^item> \<open>SeenTracker\<close> (\<open>engine/seen.go\<close>): the record \<open>SeenTracker\<close>, \<open>ShouldProcess\<close> as a function, and
    \<open>sp_action\<close>, its loads and swaps one at a time, for concurrent calls.
  \<^item> \<open>OrderedApplier\<close>, \<open>ApplierOrder\<close> (\<open>engine/ordered.go\<close>): slots, \<open>Receive\<close>, \<open>drainPending\<close>, \<open>skipGap\<close> and the
    gap timers as a list of sleeping timers that wake in any order.
  \<^item> \<open>Batch\<close> (\<open>engine/batch.go\<close>): lazy buffers and the codec of lazy batches. \<open>EagerStream\<close>
    (\<open>engine/eager_stream.go\<close>): the codec of eager messages, the stream writer and the receive loop,
    over the stream operations of \<open>Wire\<close>. \<open>Repair\<close> (\<open>engine/repair.go\<close>): the repair cache, its server and
    the puller.
  \<^item> \<open>Engine\<close>, \<open>EngineProps\<close> (\<open>engine/engine.go\<close>): the record \<open>GossipEngine\<close> with its channels and counters;
    \<open>engine_step\<close> is an arm of the select of \<open>Run\<close>, an inbound handler, a timer or a call of the
    application. \<open>Integrity\<close>, \<open>Network\<close>: several engines with their wires.
  \<^item> \<open>Overlay\<close> (\<open>overlay/overlay.go\<close>): clusters, capping and \<open>Reclassify\<close>. \<open>Transport\<close>
    (\<open>transport/transport.go\<close>, \<open>transport/dispatch.go\<close>): the connection table, dialling and dispatch.
  \<^item> \<open>ObjStore\<close> (\<open>objstore\<close>), \<open>Bootstrap\<close> (\<open>bootstrap\<close>), \<open>HolePunch\<close> (\<open>holepunch\<close>), \<open>Relay\<close> (\<open>relay\<close>),
    \<open>NatUtil\<close> (\<open>natutil\<close>), \<open>Membership\<close> (\<open>membership\<close>), \<open>Mesh\<close> (\<open>mesh/mesh.go\<close>), \<open>S3nat\<close> (\<open>s3nat/s3nat.go\<close>).
  \<^item> This theory: the properties of the mesh with all its parts.

  \<^bold>\<open>Interfaces.\<close> Five locales state what one part relies on in another, and each is interpreted on the
  model: \<open>dedup_filter\<close> (on \<open>ShouldProcess\<close>), \<open>gap_repair\<close> (the callback of the applier, on
  \<open>RequestRepair\<close>), \<open>uni_streams\<close> (send streams, on the wire over \<open>Transport\<close>), \<open>object_store\<close> (on the
  memory store, under the registry, the authority and the signals) and \<open>discovery_extension\<close> (what
  \<open>Join\<close> needs of an extension, on \<open>S3nat\<close> and on no extension).

  \<^bold>\<open>Conventions.\<close> A Go error is a value of a sum or option type; an operation that may panic returns
  an option, \<open>None\<close> for the panic. Maps are functions or association lists, and where the code ranges
  over a map the order is a parameter (the victim of an eviction, \<open>ord\<close> of \<open>LivePeers\<close>), as is the order
  an unstable sort leaves. quic-go, memberlist, memberlist-quic, Vivaldi, zstd, JSON and TLS are
  parameters: records of functions that say what a call answers. What a property needs of them is
  among its hypotheses. Handlers of the engine, events of memberlist and operations of a store are
  atomic steps; so are the critical sections of the applier. Lock-free code (\<open>ShouldProcess\<close>,
  \<open>UpdateMeta\<close>) and the store operations of \<open>getOrCreateCA\<close> are interleaved one at a time.

  \<^bold>\<open>What is shown.\<close>
  \<^item> Deduplication: linearizable, at most one winner per number, and terminating.
  \<^item> Ordering: within the buffer window entries come out in sequence; with repair and no skips they
    come out without gaps; a woken timer moves past a gap. Two counterexamples: an entry can lose
    its timer, and a slot can move backwards.
  \<^item> Wire formats: the decoders accept exactly the encodings; which batches survive a round trip; what
    the receivers of broken streams get; what a pull returns.
  \<^item> Engine: once per entry, accounting, bounds, fan-out; what happens to late arrivals. Network:
    whatever is lost, repeated or reordered, only enqueued entries are delivered, unchanged.
  \<^item> Overlay: partition, counts and coverage of clusters. Transport: what a dial returns, shutdown.
  \<^item> Store and bootstrap: no lost conditional update, the registry refines a map, concurrent nodes agree
    on one authority, when creating it ends. Hole punching, reflection and relay requests.
  \<^item> Membership: the table refines the last news of each node, no lost metadata update, oversized
    metadata. Mesh: joining never panics and cleans up, the overlay follows the membership, how
    leaving ends. Extension: which attempts it makes.

  \<^bold>\<open>Bounds and fuel.\<close> There is no fuel. Loops over data are structural recursion; loops over the
  network or a clock run over the list of what happens (accepted streams, ticks, events), of any
  length. \<open>getOrCreateCA\<close>, which may call itself for ever, is a partial function to options, and a
  theorem says when it returns. The version counter of the memory store is 64 bits wide; its
  property assumes fewer than 2^64 operations.

  \<^bold>\<open>Not modelled.\<close> \<open>StatsString\<close> and \<open>Summary\<close>, log output and loggers, which only format text; accessors
  that return a handle (\<open>QUICTransport\<close>, \<open>ConnPool\<close>, \<open>Addr\<close>, \<open>TLSConfig\<close>); the empty methods of the
  memberlist delegate; contexts and deadlines other than as the end of a wait; the contents of TLS
  and QUIC configurations. The inside of the third-party libraries is not under \<open>src/\<close>.
\<close>

section \<open>The mesh as a whole\<close>

text \<open>A joined mesh: with or without the discovery extension, a join always returns, and after a
  successful one the mesh is well formed.\<close>

lemma join_run:
  assumes "Mesh_Join vl json ord env mn (discovery_of P use) cfg ext = Some (None, me, ext')"
    and "mesh_run vl json ord ops ep (me, w) es = Some (me', w')" and "list_all wired es"
  shows "mesh_ok me'" and "running me'"
    and "view (me_Membership me') x = latest_news json x (mn_create mn @ mn_before mn @ member_events es)"
    and "\<exists>g. me_Engine me' = Some g \<and> overlay g =
      (let ov = Overlay_New (cf_NodeID (mesh_withDefaults (mn_clock mn) cfg)) (cf_Overlay cfg)
       in if list_ex (tells json) es then Reclassify (sort_peers ep) ov (map overlayPeer (LivePeers ord (me_Membership me')))
          else ov)"
proof -
  let ?ov = "Overlay_New (cf_NodeID (mesh_withDefaults (mn_clock mn) cfg)) (cf_Overlay cfg)"
  obtain t where j: "mesh_ok me" "running me" "\<And>x. view (me_Membership me) x = latest_news json x (mn_create mn @ mn_before mn)"
    "me_Engine me = Some (fst (Engine_New ?ov t (cf_Engine cfg)))"
    using assms(1) s3.Join_cases [where P = P and use = use and vl = vl and json = json and ord = ord and env = env and mn = mn and
        cfg = cfg and d = ext] by (metis option.inject option.distinct(1) prod.inject)
  have ov: "overlay (fst (Engine_New ?ov t (cf_Engine cfg))) = ?ov" by (simp add: Engine_New_def Let_def)
  from mesh_run_ok [OF j(1) assms(3) j(4), of vl json ord ops ep w] assms(2)
  show "mesh_ok me'" and "\<exists>g. me_Engine me' = Some g \<and> overlay g =
      (let ov = ?ov
       in if list_ex (tells json) es then Reclassify (sort_peers ep) ov (map overlayPeer (LivePeers ord (me_Membership me')))
          else ov)"
    by (auto simp: classified_def ov Let_def split: if_splits)
  show "running me'" using mesh_run_running [OF assms(2)] j(2) by simp
  show "view (me_Membership me') x = latest_news json x (mn_create mn @ mn_before mn @ member_events es)"
    using mesh_run_view [OF assms(2) _ j(3), of x] j(1) by (simp add: mesh_ok_def)
qed


subsection \<open>A sample mesh\<close>

text \<open>Node \<open>b\<close> joins the cluster while \<open>a\<close> is still in \<open>Join\<close>.\<close>

definition meshNet :: mesh_net where
  "meshNet = \<lparr>mn_listenUDP = True, mn_listen = (\<lambda>_. True), mn_clock = (\<lambda>_. 0), mn_create = [],
     mn_before = [EvJoin (memberNode ''b'' ''h2'')], mn_pool = None\<rparr>"

lemma meshJoin:
  "\<exists>me ext'. Mesh_Join sampleVivaldi memberJSON rev (memberEnv\<lparr>ml_leave := ok\<rparr>) meshNet (discovery_of s3Env False) (s3Config ''a'') s3Ext =
     Some (None, me, ext')"
  by (simp add: Mesh_Join_def mesh_withDefaults_def s3Config_def memCfg_def member_eval NotifyJoin_def meta_rtt_def zeroMembership_def
      meshNet_def Transport_New_def start_discovery_def discovery_of_def Let_def)



text \<open>C4: the overlay follows the membership. In a joined mesh, after any events, a node is alive exactly when
  the last readable news of it since the start was a join or an update; and once one event after
  \<open>Join\<close> has told something about any node, the overlay is the classification of the live peers.
  Until then it is empty: the peers that memberlist reported while \<open>Join\<close> was under way, before the
  callback was set, are alive but not classified.\<close>

theorem mesh_overlay_in_sync:
  assumes "Mesh_Join vl json ord env mn (discovery_of P use) cfg ext = Some (None, me, ext')"
    and "mesh_run vl json ord ops ep (me, w) es = Some (me', w')" and "list_all wired es"
  shows "(IsAlive (me_Membership me') x \<longleftrightarrow> latest_news json x (mn_create mn @ mn_before mn @ member_events es) \<noteq> None) \<and>
    (\<exists>g. me_Engine me' = Some g \<and> overlay g =
      (let ov = Overlay_New (cf_NodeID (mesh_withDefaults (mn_clock mn) cfg)) (cf_Overlay cfg)
       in if list_ex (tells json) es then Reclassify (sort_peers ep) ov (map overlayPeer (LivePeers ord (me_Membership me')))
          else ov))"
proof
  have "member_ok (me_Membership me')" using join_run(1) [OF assms] by (simp add: mesh_ok_def)
  then show "IsAlive (me_Membership me') x \<longleftrightarrow> latest_news json x (mn_create mn @ mn_before mn @ member_events es) \<noteq> None"
    using member_of_view(1) join_run(3) [OF assms] by metis
qed (rule join_run(4) [OF assms])

theorem mesh_overlay_in_sync_witness:
  "\<exists>me ext' g.
     Mesh_Join sampleVivaldi memberJSON rev (memberEnv\<lparr>ml_leave := \<lambda>_. True\<rparr>) meshNet (discovery_of s3Env False) (s3Config ''a'') s3Ext =
       Some (None, me, ext') \<and>
     IsAlive (me_Membership me) ''b'' \<and> me_Engine me = Some g \<and> eagerPeers (overlay g) = [] \<and> lazyPeers (overlay g) = []"
proof -
  obtain me ext' where j:
    "Mesh_Join sampleVivaldi memberJSON rev (memberEnv\<lparr>ml_leave := \<lambda>_. True\<rparr>) meshNet (discovery_of s3Env False) (s3Config ''a'') s3Ext =
       Some (None, me, ext')"
    using meshJoin by blast
  have r: "mesh_run sampleVivaldi memberJSON rev (wire_ops sampleEnv) sampleParams (me, sampleWire) [] = Some (me, sampleWire)"
    by simp
  have "latest_news memberJSON ''b'' (mn_create meshNet @ mn_before meshNet @ member_events []) \<noteq> None"
    by (simp add: meshNet_def member_eval) (simp add: str_bytes_def)
  then show ?thesis
    using mesh_overlay_in_sync [OF j r, of "''b''"] j by (auto simp: Overlay_New_def)
qed

text \<open>C40: leaving. In a joined mesh, after any events, \<open>Leave\<close> returns with the context cancelled and the
  transport closed. If it returns nil, memberlist and its transport are down. If memberlist's leave
  fails, \<open>Leave\<close> returns that error with both still running. A second \<open>Leave\<close> panics.\<close>

theorem Leave_outcome:
  assumes "Mesh_Join vl json ord env mn (discovery_of P use) cfg ext = Some (None, me, ext')"
    and "mesh_run vl json ord ops ep (me, w) es = Some (me', w')" and "list_all wired es"
  shows "\<exists>err me'' d'. Mesh_Leave env (discovery_of P use) me' d = Some (err, me'', d') \<and> released env me'' \<and>
    (err = None \<longrightarrow> \<not> ml_up (me_Membership me'') \<and> \<not> qt_up (me_Membership me'')) \<and>
    (\<not> ml_leave env 1000 \<longrightarrow> err = Some LeaveFailed \<and> ml_up (me_Membership me'') \<and> qt_up (me_Membership me'')) \<and>
    Mesh_Leave env (discovery_of P use) me'' d' = None"
  by (rule Leave_running [OF join_run(2) [OF assms], of env "discovery_of P use" d]) blast

theorem Leave_outcome_witness:
  "\<exists>me ext' me'' d'.
     Mesh_Join sampleVivaldi memberJSON rev (memberEnv\<lparr>ml_leave := \<lambda>_. False\<rparr>) meshNet (discovery_of s3Env False) (s3Config ''a'') s3Ext =
       Some (None, me, ext') \<and>
     Mesh_Leave (memberEnv\<lparr>ml_leave := \<lambda>_. False\<rparr>) (discovery_of s3Env False) me s3Ext = Some (Some LeaveFailed, me'', d') \<and>
     qt_up (me_Membership me'')"
proof -
  obtain me ext' where j:
    "Mesh_Join sampleVivaldi memberJSON rev (memberEnv\<lparr>ml_leave := \<lambda>_. False\<rparr>) meshNet (discovery_of s3Env False) (s3Config ''a'') s3Ext =
       Some (None, me, ext')"
    using meshJoin by blast
  have r: "mesh_run sampleVivaldi memberJSON rev (wire_ops sampleEnv) sampleParams (me, sampleWire) [] = Some (me, sampleWire)"
    by simp
  from Leave_outcome [OF j r, of s3Ext] j show ?thesis by auto
qed

end
